(* ===== verification/Prelude.thy ===== *)
theory Prelude
  imports Main "HOL-Library.Word" "HOL-Library.Char_ord" "HOL-Library.List_Lexorder"
    "HOL-Library.Sublist" "HOL-Library.AList"
begin

text \<open>
  Shared vocabulary of the development. Rust strings are UTF-8 byte sequences: a \<open>String\<close> or
  \<open>&str\<close> is a \<^typ>\<open>string\<close> whose \<^typ>\<open>char\<close>s are its bytes, so \<open>length\<close> is Rust's \<open>len()\<close>
  and the list order of \<open>HOL-Library.List_Lexorder\<close> is Rust's byte-wise string order. Payloads
  (\<open>Bytes\<close>, \<open>&[u8]\<close>) are lists of 8-bit words. This theory holds the \<open>str\<close> methods and the
  \<open>Result\<close> combinators the sources call, with their lemmas; number formatting and the UTF-8 check are
  in Rust_Text.
\<close>

type_synonym u8 = "8 word"
type_synonym u64 = "64 word"
type_synonym bytes = "u8 list"

named_theorems str_simps \<open>facts that reduce the modelled str methods to list operations\<close>
named_theorems res_simps \<open>facts that evaluate Result combinators\<close>

section \<open>Result combinators\<close>

text \<open>A Rust \<open>Result<T, E>\<close> is a sum: \<open>Inl\<close> is \<open>Err\<close>, \<open>Inr\<close> is \<open>Ok\<close>.\<close>

fun and_then :: "'e + 'a \<Rightarrow> ('a \<Rightarrow> 'e + 'b) \<Rightarrow> 'e + 'b" where
  "and_then (Inl e) f = Inl e"
| "and_then (Inr x) f = f x"

fun map_err :: "('e \<Rightarrow> 'f) \<Rightarrow> 'e + 'a \<Rightarrow> 'f + 'a" where
  "map_err f (Inl e) = Inl (f e)"
| "map_err f (Inr x) = Inr x"

fun is_ok :: "'e + 'a \<Rightarrow> bool" where
  "is_ok (Inr x) = True"
| "is_ok (Inl e) = False"

lemma and_then_eq_Inr [res_simps]:
  "and_then r f = Inr y \<longleftrightarrow> (\<exists>x. r = Inr x \<and> f x = Inr y)"
  by (cases r) auto

lemma and_then_eq_Inl [res_simps]:
  "and_then r f = Inl e \<longleftrightarrow> r = Inl e \<or> (\<exists>x. r = Inr x \<and> f x = Inl e)"
  by (cases r) auto

lemma map_err_eq_Inr [res_simps]: "map_err f r = Inr y \<longleftrightarrow> r = Inr y"
  by (cases r) auto

lemma map_err_eq_Inl [res_simps]: "map_err f r = Inl e \<longleftrightarrow> (\<exists>e'. r = Inl e' \<and> e = f e')"
  by (cases r) auto

lemma is_ok_iff [res_simps]: "is_ok r \<longleftrightarrow> (\<exists>x. r = Inr x)"
  by (cases r) auto

section \<open>Methods of str\<close>

fun starts_with :: "string \<Rightarrow> string \<Rightarrow> bool" where
  "starts_with s [] = True"
| "starts_with [] (p # ps) = False"
| "starts_with (c # s) (p # ps) = (c = p \<and> starts_with s ps)"

definition ends_with :: "string \<Rightarrow> string \<Rightarrow> bool" where
  "ends_with s p = starts_with (rev s) (rev p)"

fun str_contains :: "string \<Rightarrow> string \<Rightarrow> bool" where
  "str_contains [] p = (p = [])"
| "str_contains (c # s) p = (starts_with (c # s) p \<or> str_contains s p)"

fun split_on :: "char \<Rightarrow> string \<Rightarrow> string list" where
  "split_on c [] = [[]]"
| "split_on c (x # s) =
     (if x = c then [] # split_on c s
      else (case split_on c s of [] \<Rightarrow> [[x]] | y # ys \<Rightarrow> (x # y) # ys))"

fun join_with :: "char \<Rightarrow> string list \<Rightarrow> string" where
  "join_with c [] = []"
| "join_with c [x] = x"
| "join_with c (x # y # ys) = x @ c # join_with c (y # ys)"

lemma starts_with_iff [str_simps]: "starts_with s p \<longleftrightarrow> prefix p s"
  by (induction s p rule: starts_with.induct) auto

lemma ends_with_iff [str_simps]: "ends_with s p \<longleftrightarrow> suffix p s"
  by (simp add: ends_with_def starts_with_iff suffix_to_prefix)

lemma str_contains_iff [str_simps]: "str_contains s p \<longleftrightarrow> sublist p s"
  by (induction s p rule: str_contains.induct) (auto simp: starts_with_iff sublist_Cons_right)

lemma str_contains_char [str_simps]: "str_contains s [c] \<longleftrightarrow> c \<in> set s"
proof -
  have "sublist [c] s \<longleftrightarrow> c \<in> set s"
    by (metis append_Cons append_Nil in_set_conv_decomp sublist_def)
  then show ?thesis by (simp add: str_contains_iff)
qed

lemma split_on_not_Nil [simp]: "split_on c s \<noteq> []"
  by (induction s) (auto split: list.splits)

lemma join_with_Cons: "ys \<noteq> [] \<Longrightarrow> join_with c (x # ys) = x @ c # join_with c ys"
  by (cases ys) auto

lemma join_with_head: "join_with c ((x # y) # ys) = x # join_with c (y # ys)"
  by (cases ys) auto

lemma join_split [simp]: "join_with c (split_on c s) = s"
  by (induction s) (auto simp: join_with_Cons join_with_head split: list.splits)

lemma split_on_piece: "p \<in> set (split_on c s) \<Longrightarrow> c \<notin> set p"
proof (induction s arbitrary: p)
  case Nil
  then show ?case by simp
next
  case (Cons x s)
  then show ?case by (cases "split_on c s") (auto split: if_splits)
qed

lemma split_on_no_sep: "c \<notin> set s \<Longrightarrow> split_on c s = [s]"
  by (induction s) auto

lemma split_on_append_sep: "c \<notin> set x \<Longrightarrow> split_on c (x @ c # s) = x # split_on c s"
  by (induction x) auto

lemma split_join:
  "xs \<noteq> [] \<Longrightarrow> \<forall>x \<in> set xs. c \<notin> set x \<Longrightarrow> split_on c (join_with c xs) = xs"
proof (induction xs)
  case Nil
  then show ?case by simp
next
  case (Cons x xs)
  then show ?case
    by (cases "xs = []") (simp_all add: split_on_no_sep join_with_Cons split_on_append_sep)
qed

lemma join_with_append:
  "xs \<noteq> [] \<Longrightarrow> ys \<noteq> [] \<Longrightarrow> join_with c (xs @ ys) = join_with c xs @ c # join_with c ys"
proof (induction xs)
  case Nil
  then show ?case by simp
next
  case (Cons x xs)
  then show ?case by (cases "xs = []") (auto simp: join_with_Cons)
qed

lemma split_on_append:
  "split_on c (s @ c # t) = split_on c s @ split_on c t"
  by (induction s) (auto split: list.splits)

section \<open>Empty pieces and the separator\<close>

text \<open>
  The three syntactic tests of a key (leading, trailing, doubled separator) together say that
  the split has an empty piece; this is what the sources rely on.
\<close>

lemma Nil_hd_split: "split_on c s = [] # ys \<Longrightarrow> s = [] \<or> (\<exists>t. s = c # t)"
  by (cases s) (auto split: list.splits if_splits)

lemma empty_piece_iff:
  assumes "s \<noteq> []"
  shows "[] \<in> set (split_on c s) \<longleftrightarrow> starts_with s [c] \<or> ends_with s [c] \<or> str_contains s [c, c]"
proof
  assume "[] \<in> set (split_on c s)"
  then obtain xs ys where spl: "split_on c s = xs @ [] # ys"
    by (auto simp: in_set_conv_decomp)
  have s: "s = join_with c (xs @ [] # ys)"
    using join_split [of c s] spl by simp
  show "starts_with s [c] \<or> ends_with s [c] \<or> str_contains s [c, c]"
  proof (cases "xs = []")
    case True
    with assms s have "ys \<noteq> []" by auto
    with True s have "s = c # join_with c ys" by (simp add: join_with_Cons)
    then show ?thesis by (simp add: str_simps)
  next
    case xs: False
    show ?thesis
    proof (cases "ys = []")
      case True
      with xs s have "s = join_with c xs @ [c]" by (simp add: join_with_append)
      then show ?thesis by (auto simp: str_simps suffix_def)
    next
      case False
      with xs s have "s = join_with c xs @ [c, c] @ join_with c ys"
        by (simp add: join_with_append join_with_Cons)
      then show ?thesis by (auto simp: str_simps sublist_def)
    qed
  qed
next
  assume "starts_with s [c] \<or> ends_with s [c] \<or> str_contains s [c, c]"
  then consider (a) t where "s = c # t" | (b) t where "s = t @ [c]"
    | (d) t u where "s = t @ c # c # u"
    by (auto simp: str_simps prefix_def suffix_def sublist_def)
  then show "[] \<in> set (split_on c s)"
    by cases (auto simp: split_on_append)
qed

end
