(* ===== verification/Rust_Text.thy ===== *)
theory Rust_Text
  imports Prelude
begin

text \<open>
  The text formatting and parsing of the Rust standard library that the sources call: decimal
  \<open>Display\<close> of unsigned integers, the \<open>{:02x}\<close> format of a byte, \<open>u8::from_str_radix(_, 16)\<close>,
  and the validity check of \<open>core::str::from_utf8\<close> as an automaton over bytes.
\<close>

section \<open>Decimal\<close>

definition dec_digit :: "nat \<Rightarrow> char" where
  "dec_digit d = char_of (48 + d)"

fun dec_of_nat :: "nat \<Rightarrow> string" where
  "dec_of_nat n = (if n < 10 then [dec_digit n] else dec_of_nat (n div 10) @ [dec_digit (n mod 10)])"

declare dec_of_nat.simps [simp del]

section \<open>Hexadecimal\<close>

definition hex_digit :: "nat \<Rightarrow> char" where
  "hex_digit d = char_of (if d < 10 then 48 + d else 87 + d)"

definition hex2 :: "u8 \<Rightarrow> string" where
  "hex2 b = [hex_digit (unat b div 16), hex_digit (unat b mod 16)]"

text \<open>\<open>char::to_digit(16)\<close>.\<close>

definition hex_value :: "char \<Rightarrow> nat option" where
  "hex_value c =
     (if CHR ''0'' \<le> c \<and> c \<le> CHR ''9'' then Some (of_char c - 48)
      else if CHR ''a'' \<le> c \<and> c \<le> CHR ''f'' then Some (of_char c - 87)
      else if CHR ''A'' \<le> c \<and> c \<le> CHR ''F'' then Some (of_char c - 55)
      else None)"

fun hex_digits :: "nat \<Rightarrow> string \<Rightarrow> nat option" where
  "hex_digits acc [] = Some acc"
| "hex_digits acc (c # s) =
     (case hex_value c of None \<Rightarrow> None | Some d \<Rightarrow> hex_digits (16 * acc + d) s)"

text \<open>
  \<open>u8::from_str_radix(s, 16)\<close>: an empty string, a lone sign, a non-digit or a value above 255 is
  an error; one leading \<open>+\<close> is skipped (a \<open>-\<close> is not, the type being unsigned).
\<close>

definition u8_from_str_radix16 :: "string \<Rightarrow> u8 option" where
  "u8_from_str_radix16 s =
     (let digits = (case s of [] \<Rightarrow> None
        | [c] \<Rightarrow> if c = CHR ''+'' \<or> c = CHR ''-'' then None else Some [c]
        | c # r \<Rightarrow> if c = CHR ''+'' then Some r else Some (c # r))
      in case digits of None \<Rightarrow> None
         | Some ds \<Rightarrow> (case hex_digits 0 ds of None \<Rightarrow> None
             | Some n \<Rightarrow> if n < 256 then Some (of_nat n) else None))"

lemma hex_value_hex_digit [simp]: "d < 16 \<Longrightarrow> hex_value (hex_digit d) = Some d"
proof -
  assume "d < 16"
  then have "d \<in> set [0..<16]" by simp
  then show ?thesis by (auto simp: hex_value_def hex_digit_def less_eq_char_def upt_rec)
qed

lemma hex_digit_neq_plus [simp]: "d < 16 \<Longrightarrow> hex_digit d \<noteq> CHR ''+''"
  using hex_value_hex_digit [of d] by (auto simp: hex_value_def less_eq_char_def)

lemma hex_digit_ascii [simp]: "d < 16 \<Longrightarrow> of_char (hex_digit d) < (128 :: nat)"
  by (auto simp: hex_digit_def)

lemma unat_u8_less [simp]: "unat (b :: u8) < 256"
proof -
  have "unat b < 2 ^ LENGTH(8)" by (rule unsigned_less)
  then show ?thesis by simp
qed

lemma unat_u8_div [simp]: "unat (b :: u8) div 16 < 16"
  using unat_u8_less [of b] by linarith

lemma hex_radix_hex2 [simp]: "u8_from_str_radix16 (hex2 b) = Some b"
proof -
  have "16 * (unat b div 16) + unat b mod 16 = unat b" by simp
  moreover have "unat b < 256" by simp
  ultimately show ?thesis by (simp add: u8_from_str_radix16_def hex2_def Let_def)
qed

lemma length_hex2 [simp]: "length (hex2 b) = 2"
  by (simp add: hex2_def)

lemma hex2_length: "length (concat (map hex2 bs)) = 2 * length bs"
  by (induction bs) simp_all

definition lower_hex :: "char \<Rightarrow> bool" where
  "lower_hex c \<longleftrightarrow> CHR ''0'' \<le> c \<and> c \<le> CHR ''9'' \<or> CHR ''a'' \<le> c \<and> c \<le> CHR ''f''"

lemma lower_hex_digit [simp]: "d < 16 \<Longrightarrow> lower_hex (hex_digit d)"
proof -
  assume "d < 16"
  then have "d \<in> set [0..<16]" by simp
  then show ?thesis by (auto simp: lower_hex_def hex_digit_def less_eq_char_def upt_rec)
qed

lemma hex2_lower: "c \<in> set (hex2 b) \<Longrightarrow> lower_hex c"
  by (auto simp: hex2_def)

section \<open>UTF-8\<close>

text \<open>
  The states say what the rest of a sequence must be: nothing, one to three continuation bytes,
  or a first continuation byte from a restricted range (after \<open>E0\<close>, \<open>ED\<close>, \<open>F0\<close>, \<open>F4\<close>).
\<close>

datatype utf8_state = U0 | U1 | U2 | U3 | UE0 | UED | UF0 | UF4

definition utf8_lead :: "nat \<Rightarrow> utf8_state option" where
  "utf8_lead b =
     (if b < 128 then Some U0
      else if 194 \<le> b \<and> b \<le> 223 then Some U1
      else if b = 224 then Some UE0
      else if b = 237 then Some UED
      else if 225 \<le> b \<and> b \<le> 239 then Some U2
      else if b = 240 then Some UF0
      else if 241 \<le> b \<and> b \<le> 243 then Some U3
      else if b = 244 then Some UF4
      else None)"

fun utf8_step :: "utf8_state \<Rightarrow> nat \<Rightarrow> utf8_state option" where
  "utf8_step U0 b = utf8_lead b"
| "utf8_step U1 b = (if 128 \<le> b \<and> b < 192 then Some U0 else None)"
| "utf8_step U2 b = (if 128 \<le> b \<and> b < 192 then Some U1 else None)"
| "utf8_step U3 b = (if 128 \<le> b \<and> b < 192 then Some U2 else None)"
| "utf8_step UE0 b = (if 160 \<le> b \<and> b < 192 then Some U1 else None)"
| "utf8_step UED b = (if 128 \<le> b \<and> b < 160 then Some U1 else None)"
| "utf8_step UF0 b = (if 144 \<le> b \<and> b < 192 then Some U2 else None)"
| "utf8_step UF4 b = (if 128 \<le> b \<and> b < 144 then Some U2 else None)"

fun utf8_run :: "utf8_state \<Rightarrow> string \<Rightarrow> utf8_state option" where
  "utf8_run q [] = Some q"
| "utf8_run q (c # s) = (case utf8_step q (of_char c) of None \<Rightarrow> None | Some q' \<Rightarrow> utf8_run q' s)"

definition utf8_valid :: "string \<Rightarrow> bool" where
  "utf8_valid s \<longleftrightarrow> utf8_run U0 s = Some U0"

lemma utf8_run_append:
  "utf8_run q (s @ t) = (case utf8_run q s of None \<Rightarrow> None | Some q' \<Rightarrow> utf8_run q' t)"
  by (induction s arbitrary: q) (auto split: option.splits)

lemma utf8_step_ascii: "b < 128 \<Longrightarrow> utf8_step q b = (if q = U0 then Some U0 else None)"
  by (cases q) (auto simp: utf8_lead_def)

lemma utf8_valid_append_ascii:
  "of_char c < (128 :: nat) \<Longrightarrow> utf8_valid (s @ c # t) \<longleftrightarrow> utf8_valid s \<and> utf8_valid t"
  by (auto simp: utf8_valid_def utf8_run_append utf8_step_ascii split: option.splits if_splits)

lemma utf8_valid_Nil [simp]: "utf8_valid []"
  by (simp add: utf8_valid_def)

lemma utf8_valid_ascii: "\<forall>c \<in> set s. of_char c < (128 :: nat) \<Longrightarrow> utf8_valid s"
  unfolding utf8_valid_def by (induction s) (auto simp: utf8_step_ascii utf8_lead_def)

lemma utf8_valid_hex2 [simp]: "utf8_valid (hex2 b)"
  by (rule utf8_valid_ascii) (auto simp: hex2_def)

lemma utf8_valid_join:
  assumes "of_char c < (128 :: nat)"
  shows "utf8_valid (join_with c xs) \<longleftrightarrow> (\<forall>x \<in> set xs. utf8_valid x)"
proof (induction xs)
  case Nil
  then show ?case by simp
next
  case (Cons x xs)
  then show ?case
    by (cases "xs = []") (auto simp: join_with_Cons utf8_valid_append_ascii [OF assms])
qed

end
