(* ===== verification/Blob_Error.thy ===== *)
theory Blob_Error
  imports Rust_Text
begin

text \<open>
  \<open>src/src/error.rs\<close>: the crate's error type, its constructors, its two classifiers and the text
  its \<open>Display\<close> prints. \<open>std::io::Error\<close> is what an operating-system call of the model returns on
  failure: an errno or a kind with a message; \<open>io_kind\<close> is \<open>std\<close>'s decoding of the errno values
  the model's file system produces. The operating system's message text (\<open>strerror\<close>) is a
  parameter of \<open>io_display\<close>.
\<close>

section \<open>std::io::Error\<close>

datatype io_error_kind =
    KNotFound | KPermissionDenied | KAlreadyExists | KNotADirectory | KIsADirectory
  | KDirectoryNotEmpty | KResourceBusy | KUnexpectedEof | KInterrupted | KStorageFull
  | KInvalidInput | KOther

datatype io_error = OsError nat | CustomError io_error_kind string

definition ENOENT :: nat where "ENOENT = 2"
definition EINTR :: nat where "EINTR = 4"
definition EBUSY :: nat where "EBUSY = 16"
definition EEXIST :: nat where "EEXIST = 17"
definition ENOTDIR :: nat where "ENOTDIR = 20"
definition EISDIR :: nat where "EISDIR = 21"
definition EINVAL :: nat where "EINVAL = 22"
definition ENOSPC :: nat where "ENOSPC = 28"

definition decode_errno :: "nat \<Rightarrow> io_error_kind" where
  "decode_errno n =
     (if n = ENOENT then KNotFound
      else if n = 1 \<or> n = 13 then KPermissionDenied
      else if n = EINTR then KInterrupted
      else if n = EBUSY then KResourceBusy
      else if n = EEXIST then KAlreadyExists
      else if n = ENOTDIR then KNotADirectory
      else if n = EISDIR then KIsADirectory
      else if n = EINVAL then KInvalidInput
      else if n = ENOSPC then KStorageFull
      else if n = 39 then KDirectoryNotEmpty
      else KOther)"

lemmas errno_defs = ENOENT_def EINTR_def EBUSY_def EEXIST_def ENOTDIR_def EISDIR_def
  EINVAL_def ENOSPC_def

fun io_kind :: "io_error \<Rightarrow> io_error_kind" where
  "io_kind (OsError n) = decode_errno n"
| "io_kind (CustomError k m) = k"

fun io_display :: "(nat \<Rightarrow> string) \<Rightarrow> io_error \<Rightarrow> string" where
  "io_display strerror (OsError n) = strerror n @ '' (os error '' @ dec_of_nat n @ '')''"
| "io_display strerror (CustomError k m) = m"

lemma io_kind_not_found [simp]: "io_kind (OsError n) = KNotFound \<longleftrightarrow> n = ENOENT"
  by (simp add: decode_errno_def)

section \<open>BlobError\<close>

datatype blob_error =
    Io io_error
  | NotFound string
  | AlreadyExists
  | InvalidKey string
  | StorageFull
  | PermissionDenied string
  | Unsupported string
  | Other string

type_synonym 'a result = "blob_error + 'a"

fun display_error :: "(nat \<Rightarrow> string) \<Rightarrow> blob_error \<Rightarrow> string" where
  "display_error se (Io e) = ''io error: '' @ io_display se e"
| "display_error se (NotFound m) = ''not found: '' @ m"
| "display_error se AlreadyExists = ''already exists''"
| "display_error se (InvalidKey m) = ''invalid key: '' @ m"
| "display_error se StorageFull = ''storage full''"
| "display_error se (PermissionDenied m) = ''permission denied: '' @ m"
| "display_error se (Unsupported m) = ''unsupported: '' @ m"
| "display_error se (Other m) = ''storage error: '' @ m"

text \<open>
  The constructors take \<open>impl Display\<close>; the model takes the text the value displays as.
\<close>

definition invalid_key :: "string \<Rightarrow> blob_error" where
  "invalid_key msg = InvalidKey msg"

definition not_found :: "string \<Rightarrow> blob_error" where
  "not_found msg = NotFound msg"

definition unsupported :: "string \<Rightarrow> blob_error" where
  "unsupported msg = Unsupported msg"

definition permission_denied :: "string \<Rightarrow> blob_error" where
  "permission_denied msg = PermissionDenied msg"

fun is_not_found :: "blob_error \<Rightarrow> bool" where
  "is_not_found (NotFound m) = True"
| "is_not_found _ = False"

fun is_invalid_key :: "blob_error \<Rightarrow> bool" where
  "is_invalid_key (InvalidKey m) = True"
| "is_invalid_key _ = False"

text \<open>\<open>From<io::Error>\<close> (derived by \<open>#[from]\<close>) and \<open>From<PersistError>\<close>, whose \<open>error\<close> is the cause.\<close>

definition from_io :: "io_error \<Rightarrow> blob_error" where
  "from_io e = Io e"

record persist_error =
  pe_error :: io_error

definition from_persist_error :: "persist_error \<Rightarrow> blob_error" where
  "from_persist_error e = Io (pe_error e)"

lemmas error_ctors = invalid_key_def not_found_def unsupported_def permission_denied_def
  from_io_def from_persist_error_def

declare error_ctors [simp]

lemma is_not_found_iff: "is_not_found e \<longleftrightarrow> (\<exists>m. e = NotFound m)"
  by (cases e) auto

lemma is_invalid_key_iff: "is_invalid_key e \<longleftrightarrow> (\<exists>m. e = InvalidKey m)"
  by (cases e) auto

text \<open>
  The displayed text starts with the class of the error, so a log line tells the classes apart.
\<close>

definition error_class :: "blob_error \<Rightarrow> nat" where
  "error_class e = (case e of Io _ \<Rightarrow> 0 | NotFound _ \<Rightarrow> 1 | AlreadyExists \<Rightarrow> 2 | InvalidKey _ \<Rightarrow> 3
     | StorageFull \<Rightarrow> 4 | PermissionDenied _ \<Rightarrow> 5 | Unsupported _ \<Rightarrow> 6 | Other _ \<Rightarrow> 7)"

lemma display_error_class: "display_error se e = display_error se e' \<Longrightarrow> error_class e = error_class e'"
  by (cases e; cases e') (auto simp: error_class_def)

end
