(* ===== verification/Bucket_Name.thy ===== *)
theory Bucket_Name
  imports Blob_Error
begin

text \<open>
  \<open>BucketName\<close> of \<open>src/src/types.rs\<close>: validation over the bytes of the name, in the source's
  order (length, first and last byte, then every byte), with the constructors and views.
\<close>

datatype bucket_name = BucketName (bucket_str: string)

definition is_ascii_lowercase :: "char \<Rightarrow> bool" where
  "is_ascii_lowercase c \<longleftrightarrow> CHR ''a'' \<le> c \<and> c \<le> CHR ''z''"

definition is_ascii_uppercase :: "char \<Rightarrow> bool" where
  "is_ascii_uppercase c \<longleftrightarrow> CHR ''A'' \<le> c \<and> c \<le> CHR ''Z''"

definition is_ascii_digit :: "char \<Rightarrow> bool" where
  "is_ascii_digit c \<longleftrightarrow> CHR ''0'' \<le> c \<and> c \<le> CHR ''9''"

definition is_ascii_alphanumeric :: "char \<Rightarrow> bool" where
  "is_ascii_alphanumeric c \<longleftrightarrow> is_ascii_lowercase c \<or> is_ascii_uppercase c \<or> is_ascii_digit c"

fun check_bucket_bytes :: "string \<Rightarrow> unit result" where
  "check_bucket_bytes [] = Inr ()"
| "check_bucket_bytes (b # bs) =
     (if is_ascii_lowercase b \<or> is_ascii_digit b \<or> b = CHR ''-'' then check_bucket_bytes bs
      else Inl (invalid_key ''bucket name must contain only lowercase alphanumeric and hyphen''))"

text \<open>\<open>bytes.first()\<close> and \<open>bytes.last()\<close> are options, as \<open>is_some_and\<close> expects.\<close>

definition first_byte :: "string \<Rightarrow> char option" where
  "first_byte s = (case s of [] \<Rightarrow> None | c # _ \<Rightarrow> Some c)"

definition last_byte :: "string \<Rightarrow> char option" where
  "last_byte s = first_byte (rev s)"

definition is_some_and :: "'a option \<Rightarrow> ('a \<Rightarrow> bool) \<Rightarrow> bool" where
  "is_some_and x p = (case x of None \<Rightarrow> False | Some a \<Rightarrow> p a)"

definition validate_bucket :: "string \<Rightarrow> unit result" where
  "validate_bucket s =
     (let len = length s in
      if \<not> (3 \<le> len \<and> len \<le> 63) then
        Inl (invalid_key (''bucket name length '' @ dec_of_nat len @ '' must be between 3 and 63''))
      else if is_some_and (first_byte s) (\<lambda>b. \<not> is_ascii_alphanumeric b)
            \<or> is_some_and (last_byte s) (\<lambda>b. \<not> is_ascii_alphanumeric b) then
        Inl (invalid_key ''bucket name must start and end with alphanumeric'')
      else check_bucket_bytes s)"

definition bucket_new :: "string \<Rightarrow> bucket_name result" where
  "bucket_new s = and_then (validate_bucket s) (\<lambda>_. Inr (BucketName s))"

definition bucket_into_inner :: "bucket_name \<Rightarrow> string" where
  "bucket_into_inner b = bucket_str b"

definition bucket_display :: "bucket_name \<Rightarrow> string" where
  "bucket_display b = bucket_str b"

definition bucket_from_str :: "string \<Rightarrow> bucket_name result" where
  "bucket_from_str s = bucket_new s"

definition bucket_as_ref :: "bucket_name \<Rightarrow> string" where
  "bucket_as_ref b = bucket_str b"

section \<open>What validation accepts\<close>

definition bucket_char :: "char \<Rightarrow> bool" where
  "bucket_char c \<longleftrightarrow> is_ascii_lowercase c \<or> is_ascii_digit c \<or> c = CHR ''-''"

definition bucket_str_wf :: "string \<Rightarrow> bool" where
  "bucket_str_wf s \<longleftrightarrow> 3 \<le> length s \<and> length s \<le> 63 \<and> list_all bucket_char s
     \<and> hd s \<noteq> CHR ''-'' \<and> last s \<noteq> CHR ''-''"

lemma check_bucket_bytes_Inr [res_simps]: "check_bucket_bytes s = Inr u \<longleftrightarrow> list_all bucket_char s"
  by (induction s) (auto simp: bucket_char_def)

lemma check_bucket_bytes_Inl: "check_bucket_bytes s = Inl e \<Longrightarrow> \<exists>m. e = InvalidKey m"
  by (induction s) (auto split: if_splits)

lemma bucket_char_alnum: "bucket_char c \<Longrightarrow> is_ascii_alphanumeric c \<longleftrightarrow> c \<noteq> CHR ''-''"
  by (auto simp: bucket_char_def is_ascii_alphanumeric_def is_ascii_lowercase_def
      is_ascii_uppercase_def is_ascii_digit_def less_eq_char_def)

lemma is_some_and_first: "s \<noteq> [] \<Longrightarrow> is_some_and (first_byte s) p \<longleftrightarrow> p (hd s)"
  by (cases s) (auto simp: is_some_and_def first_byte_def)

lemma is_some_and_last: "s \<noteq> [] \<Longrightarrow> is_some_and (last_byte s) p \<longleftrightarrow> p (last s)"
  by (simp add: last_byte_def is_some_and_first hd_rev)

lemma validate_bucket_Inr: "validate_bucket s = Inr u \<longleftrightarrow> bucket_str_wf s"
proof (cases "s = []")
  case True
  then show ?thesis by (simp add: validate_bucket_def bucket_str_wf_def)
next
  case False
  then have "list_all bucket_char s \<Longrightarrow> bucket_char (hd s) \<and> bucket_char (last s)"
    by (simp add: list_all_iff)
  with False show ?thesis
    by (auto simp: validate_bucket_def bucket_str_wf_def Let_def res_simps is_some_and_first
        is_some_and_last bucket_char_alnum)
qed

lemma validate_bucket_Inl: "validate_bucket s = Inl e \<Longrightarrow> \<exists>m. e = InvalidKey m"
  by (auto simp: validate_bucket_def Let_def split: if_splits dest: check_bucket_bytes_Inl)

lemma bucket_new_Inr [res_simps]: "bucket_new s = Inr b \<longleftrightarrow> bucket_str_wf s \<and> b = BucketName s"
  by (auto simp: bucket_new_def res_simps validate_bucket_Inr)

section \<open>Properties\<close>

text \<open>C39. \<open>BucketName::new\<close> accepts exactly the names of 3 to 63 bytes made of lower-case letters,
  digits and hyphens that neither start nor end with a hyphen; every other name is \<open>InvalidKey\<close>.\<close>

theorem bucket_new_accepts_exactly:
  "(bucket_new s = Inr b \<longleftrightarrow> bucket_str_wf s \<and> b = BucketName s)
   \<and> ((\<exists>m. bucket_new s = Inl (InvalidKey m)) \<longleftrightarrow> \<not> bucket_str_wf s)"
proof -
  have "(\<exists>m. bucket_new s = Inl (InvalidKey m)) \<longleftrightarrow> (\<forall>u. validate_bucket s \<noteq> Inr u)"
    using validate_bucket_Inl [of s] by (cases "validate_bucket s") (auto simp: bucket_new_def)
  then show ?thesis by (simp add: bucket_new_Inr validate_bucket_Inr)
qed

end
