(* ===== verification/Blob_Id.thy ===== *)
theory Blob_Id
  imports Blob_Error
begin

text \<open>
  \<open>BlobId\<close> of \<open>src/src/types.rs\<close> in its default form (16 raw bytes, feature \<open>typed-id\<close> off): the
  constructor from a 64-bit hash, the \<open>no_std\<close> constant, the hexadecimal \<open>Display\<close> and the parser.
  The hash (\<open>hasher.finish()\<close> over the clock and the thread id) is the constructor's input. With
  \<open>typed-id\<close> the type is a wrapper of the \<open>uuid\<close> crate.
\<close>

datatype blob_id = BlobId (id_bytes: bytes)

text \<open>\<open>u64::to_le_bytes\<close>.\<close>

definition to_le_bytes :: "u64 \<Rightarrow> bytes" where
  "to_le_bytes w = map (\<lambda>i. ucast (drop_bit (8 * i) w)) [0..<8]"

definition blob_id_new :: "u64 \<Rightarrow> blob_id" where
  "blob_id_new h = BlobId (to_le_bytes h @ to_le_bytes (not h))"

definition blob_id_new_nostd :: blob_id where
  "blob_id_new_nostd = BlobId (replicate 16 0xAB)"

definition blob_id_display :: "blob_id \<Rightarrow> string" where
  "blob_id_display i = concat (map hex2 (id_bytes i))"

text \<open>\<open>chunks_exact(2)\<close>: an odd last byte is not visited.\<close>

fun chunks2 :: "string \<Rightarrow> string list" where
  "chunks2 (a # b # s) = [a, b] # chunks2 s"
| "chunks2 s = []"

fun parse_hex_chunks :: "string list \<Rightarrow> bytes result" where
  "parse_hex_chunks [] = Inr []"
| "parse_hex_chunks (chunk # cs) =
     (if \<not> utf8_valid chunk then Inl (invalid_key ''invalid hex in BlobId'')
      else case u8_from_str_radix16 chunk of
          None \<Rightarrow> Inl (invalid_key ''invalid hex in BlobId'')
        | Some b \<Rightarrow> and_then (parse_hex_chunks cs) (\<lambda>bs. Inr (b # bs)))"

definition blob_id_from_str :: "string \<Rightarrow> blob_id result" where
  "blob_id_from_str s =
     (if length s \<noteq> 32 then Inl (invalid_key ''invalid BlobId length'')
      else and_then (parse_hex_chunks (chunks2 s)) (\<lambda>bs. Inr (BlobId bs)))"

definition blob_id_wf :: "blob_id \<Rightarrow> bool" where
  "blob_id_wf i \<longleftrightarrow> length (id_bytes i) = 16"

section \<open>With typed-id\<close>

text \<open>The identifier wraps a \<open>Uuid\<close>; the crate's generator, text form and parser are parameters.\<close>

datatype 'u typed_id = TypedId (as_uuid: 'u)

record 'u uuid_crate =
  new_v4 :: "bytes \<Rightarrow> 'u"
  uuid_display :: "'u \<Rightarrow> string"
  parse_str :: "string \<Rightarrow> string + 'u"

definition typed_id_new :: "'u uuid_crate \<Rightarrow> bytes \<Rightarrow> 'u typed_id" where
  "typed_id_new U random = TypedId (new_v4 U random)"

definition typed_id_from_uuid :: "'u \<Rightarrow> 'u typed_id" where
  "typed_id_from_uuid u = TypedId u"

definition typed_id_display :: "'u uuid_crate \<Rightarrow> 'u typed_id \<Rightarrow> string" where
  "typed_id_display U i = uuid_display U (as_uuid i)"

definition typed_id_from_str :: "'u uuid_crate \<Rightarrow> string \<Rightarrow> 'u typed_id result" where
  "typed_id_from_str U s =
     and_then (map_err (\<lambda>e. invalid_key (''invalid BlobId: '' @ e)) (parse_str U s)) (\<lambda>u. Inr (TypedId u))"

text \<open>If the crate parses what it prints, so does the wrapper; a text the crate rejects is \<open>InvalidKey\<close>.\<close>

lemma typed_id_roundtrip:
  "parse_str U (uuid_display U (as_uuid i)) = Inr (as_uuid i) \<Longrightarrow> typed_id_from_str U (typed_id_display U i) = Inr i"
  by (cases i) (simp add: typed_id_from_str_def typed_id_display_def)

lemma typed_id_from_str_error: "typed_id_from_str U s = Inl err \<Longrightarrow> \<exists>m. err = InvalidKey m"
  by (cases "parse_str U s") (auto simp: typed_id_from_str_def invalid_key_def)

section \<open>Lemmas\<close>

lemma length_to_le_bytes [simp]: "length (to_le_bytes w) = 8"
  by (simp add: to_le_bytes_def)

lemma blob_id_new_wf: "blob_id_wf (blob_id_new h)"
  by (simp add: blob_id_new_def blob_id_wf_def)

lemma bit_to_le_bytes:
  assumes "i < 64"
  shows "bit (to_le_bytes w ! (i div 8)) (i mod 8) \<longleftrightarrow> bit w i"
proof -
  have d: "i div 8 < 8" using assms by simp
  have e: "8 * (i div 8) + i mod 8 = i" by simp
  have l: "to_le_bytes w ! (i div 8) = ucast (drop_bit (8 * (i div 8)) w)"
    using d by (simp add: to_le_bytes_def)
  have "bit (to_le_bytes w ! (i div 8)) (i mod 8) \<longleftrightarrow> bit w (8 * (i div 8) + i mod 8)"
    unfolding l using assms by (simp add: bit_ucast_iff bit_drop_bit_eq)
  then show ?thesis unfolding e .
qed

lemma to_le_bytes_inj: "to_le_bytes v = to_le_bytes w \<longleftrightarrow> v = w"
proof
  assume eq: "to_le_bytes v = to_le_bytes w"
  show "v = w"
  proof (rule bit_word_eqI)
    fix n :: nat assume "n < LENGTH(64)"
    then show "bit v n \<longleftrightarrow> bit w n"
      using bit_to_le_bytes [of n v] bit_to_le_bytes [of n w] eq by simp
  qed
qed simp

lemma chunks2_hex2: "chunks2 (concat (map hex2 bs)) = map hex2 bs"
  by (induction bs) (simp_all add: hex2_def)

lemma parse_hex_chunks_hex2 [simp]: "parse_hex_chunks (map hex2 bs) = Inr bs"
  by (induction bs) simp_all

lemma length_chunks2: "length (chunks2 s) = length s div 2"
  by (induction s rule: chunks2.induct) auto

lemma parse_hex_chunks_length: "parse_hex_chunks cs = Inr bs \<Longrightarrow> length bs = length cs"
  by (induction cs arbitrary: bs) (auto simp: res_simps split: if_splits option.splits)

lemma parse_hex_chunks_Inl: "parse_hex_chunks cs = Inl e \<Longrightarrow> \<exists>m. e = InvalidKey m"
  by (induction cs) (auto simp: res_simps split: if_splits option.splits)

lemma parse_hex_chunks_Inr:
  "(\<exists>bs. parse_hex_chunks cs = Inr bs) \<longleftrightarrow>
     list_all (\<lambda>c. utf8_valid c \<and> u8_from_str_radix16 c \<noteq> None) cs"
  by (induction cs) (auto simp: res_simps split: option.splits)

lemma blob_id_from_str_wf: "blob_id_from_str s = Inr i \<Longrightarrow> blob_id_wf i"
  by (auto simp: blob_id_from_str_def blob_id_wf_def res_simps length_chunks2
      dest!: parse_hex_chunks_length split: if_splits)

section \<open>What the parser accepts\<close>

definition hex_pair :: "string \<Rightarrow> bool" where
  "hex_pair p \<longleftrightarrow> (\<exists>a b. p = [a, b] \<and> (hex_value a \<noteq> None \<or> a = CHR ''+'') \<and> hex_value b \<noteq> None)"

lemma hex_value_props:
  assumes "hex_value c = Some d"
  shows "d < 16" and "of_char c < (128 :: nat)" and "c \<noteq> CHR ''+''" and "c \<noteq> CHR ''-''"
  using assms by (auto simp: hex_value_def less_eq_char_def split: if_splits)

lemma radix_pair:
  assumes "utf8_valid [a, b]"
  shows "u8_from_str_radix16 [a, b] \<noteq> None \<longleftrightarrow> hex_pair [a, b]"
  using hex_value_props(3) [of "CHR ''+''"]
  by (auto simp: u8_from_str_radix16_def hex_pair_def Let_def split: option.splits
      dest!: hex_value_props(1))

lemma hex_pair_utf8: "hex_pair p \<Longrightarrow> utf8_valid p"
  by (rule utf8_valid_ascii) (auto simp: hex_pair_def dest: hex_value_props(2))

lemma chunks2_pairs: "p \<in> set (chunks2 s) \<Longrightarrow> \<exists>a b. p = [a, b]"
  by (induction s rule: chunks2.induct) auto

section \<open>Properties\<close>

text \<open>C34. Printing a 16-byte \<open>BlobId\<close> gives 32 lower-case hexadecimal characters, and parsing them
  returns the same id.\<close>

theorem blob_id_roundtrip:
  assumes "blob_id_wf i"
  shows "blob_id_from_str (blob_id_display i) = Inr i
    \<and> length (blob_id_display i) = 32 \<and> list_all lower_hex (blob_id_display i)"
  using assms
  by (auto simp: blob_id_from_str_def blob_id_display_def blob_id_wf_def chunks2_hex2 hex2_length
      list_all_iff dest: hex2_lower)

theorem blob_id_roundtrip_witness:
  "blob_id_from_str (blob_id_display (blob_id_new 7)) = Inr (blob_id_new 7)"
  using blob_id_roundtrip [OF blob_id_new_wf [of 7]] by simp

text \<open>The id of a put is a function of the hash of clock and thread only: two ids are equal
  exactly when their hashes are, and the second half of an id is the complement of the first.\<close>

theorem blob_id_new_fresh_iff:
  "(blob_id_new h = blob_id_new h' \<longleftrightarrow> h = h')
   \<and> blob_id_wf (blob_id_new h)
   \<and> drop 8 (id_bytes (blob_id_new h)) = to_le_bytes (not h)"
proof -
  have "blob_id_new h = blob_id_new h' \<longleftrightarrow> h = h'"
    using to_le_bytes_inj [of h h'] by (auto simp: blob_id_new_def)
  then show ?thesis using blob_id_new_wf [of h] by (simp add: blob_id_new_def)
qed

text \<open>The parser accepts 32 bytes in 16 pairs, each two hexadecimal digits or a plus sign and
  one digit: \<open>from_str_radix\<close> skips a leading \<open>+\<close>, so texts that are not hexadecimal parse too.\<close>

theorem blob_id_from_str_accepts:
  "((\<exists>i. blob_id_from_str s = Inr i) \<longleftrightarrow> length s = 32 \<and> list_all hex_pair (chunks2 s))
   \<and> blob_id_from_str ''+0+1+2+3+4+5+6+7+8+9+a+b+c+d+e+f'' = Inr (BlobId (map word_of_nat [0..<16]))"
proof -
  have "list_all (\<lambda>c. utf8_valid c \<and> u8_from_str_radix16 c \<noteq> None) (chunks2 s)
      \<longleftrightarrow> list_all hex_pair (chunks2 s)"
    using radix_pair hex_pair_utf8 chunks2_pairs [of _ s] by (fastforce simp: list_all_iff)
  then have "(\<exists>i. blob_id_from_str s = Inr i) \<longleftrightarrow> length s = 32 \<and> list_all hex_pair (chunks2 s)"
    using parse_hex_chunks_Inr [of "chunks2 s"] by (auto simp: blob_id_from_str_def res_simps)
  moreover have "blob_id_from_str ''+0+1+2+3+4+5+6+7+8+9+a+b+c+d+e+f'' = Inr (BlobId (map word_of_nat [0..<16]))"
    by code_simp
  ultimately show ?thesis by blast
qed

end
