(* ===== verification/Object_Key.thy ===== *)
theory Object_Key
  imports Blob_Error
begin

text \<open>
  \<open>ObjectKey\<close> of \<open>src/src/types.rs\<close>: the newtype, its validation in the order of the source's
  early returns, every constructor (checked and unchecked), its views and its derived order. The
  lemmas relate the validation loop to the declarative predicate \<open>key_wf\<close>.
\<close>

section \<open>The type and its derived order\<close>

datatype object_key = ObjectKey (as_str: string)

instantiation object_key :: linorder
begin

definition less_eq_object_key :: "object_key \<Rightarrow> object_key \<Rightarrow> bool" where
  "less_eq_object_key a b \<longleftrightarrow> as_str a \<le> as_str b"

definition less_object_key :: "object_key \<Rightarrow> object_key \<Rightarrow> bool" where
  "less_object_key a b \<longleftrightarrow> as_str a < as_str b"

instance
proof
  fix x y z :: object_key
  show "x < y \<longleftrightarrow> x \<le> y \<and> \<not> y \<le> x"
    by (auto simp: less_eq_object_key_def less_object_key_def)
  show "x \<le> x"
    by (simp add: less_eq_object_key_def)
  show "x \<le> y \<Longrightarrow> y \<le> z \<Longrightarrow> x \<le> z"
    by (simp add: less_eq_object_key_def)
  show "x \<le> y \<Longrightarrow> y \<le> x \<Longrightarrow> x = y"
    by (simp add: less_eq_object_key_def object_key.expand)
  show "x \<le> y \<or> y \<le> x"
    by (auto simp: less_eq_object_key_def)
qed

end

section \<open>Validation\<close>

definition max_key_len :: nat where
  "max_key_len = 1024"

text \<open>The loop over the components returns at the first \<open>..\<close>.\<close>

fun reject_dotdot :: "string list \<Rightarrow> unit result" where
  "reject_dotdot [] = Inr ()"
| "reject_dotdot (component # cs) =
     (if component = ''..'' then Inl (invalid_key ''key must not contain '..' path component'')
      else reject_dotdot cs)"

definition validate_key :: "string \<Rightarrow> unit result" where
  "validate_key s =
     (if s = [] then Inl (invalid_key ''key must not be empty'')
      else if length s > max_key_len then
        Inl (invalid_key (''key length '' @ dec_of_nat (length s) @ '' exceeds maximum ''
               @ dec_of_nat max_key_len))
      else if str_contains s [CHR 0x00] \<or> str_contains s [CHR 0x0D] \<or> str_contains s [CHR 0x0A] then
        Inl (invalid_key ''key must not contain null or control characters'')
      else and_then (reject_dotdot (split_on (CHR ''/'') s)) (\<lambda>_.
        if starts_with s ''/'' \<or> ends_with s ''/'' \<or> str_contains s ''//'' then
          Inl (invalid_key ''key must not have empty path segments or leading/trailing slashes'')
        else Inr ()))"

definition key_new :: "string \<Rightarrow> object_key result" where
  "key_new s = and_then (validate_key s) (\<lambda>_. Inr (ObjectKey s))"

definition key_new_unchecked :: "string \<Rightarrow> object_key" where
  "key_new_unchecked s = ObjectKey s"

definition key_into_inner :: "object_key \<Rightarrow> string" where
  "key_into_inner k = as_str k"

definition key_display :: "object_key \<Rightarrow> string" where
  "key_display k = as_str k"

definition key_from_str :: "string \<Rightarrow> object_key result" where
  "key_from_str s = key_new s"

definition key_try_from_string :: "string \<Rightarrow> object_key result" where
  "key_try_from_string s = key_new s"

definition key_try_from_str :: "string \<Rightarrow> object_key result" where
  "key_try_from_str s = key_new s"

definition key_as_ref :: "object_key \<Rightarrow> string" where
  "key_as_ref k = as_str k"

text \<open>
  With the \<open>serde\<close> feature the type derives a transparent \<open>Deserialize\<close>: the string is wrapped as
  it is and \<open>validate\<close> is not called.
\<close>

definition key_deserialize :: "string \<Rightarrow> object_key" where
  "key_deserialize s = ObjectKey s"

section \<open>What validation accepts\<close>

definition key_components :: "object_key \<Rightarrow> string list" where
  "key_components k = split_on (CHR ''/'') (as_str k)"

definition key_str_wf :: "string \<Rightarrow> bool" where
  "key_str_wf s \<longleftrightarrow> s \<noteq> [] \<and> length s \<le> max_key_len
     \<and> (\<forall>c \<in> set s. c \<notin> {CHR 0x00, CHR 0x0D, CHR 0x0A})
     \<and> (\<forall>p \<in> set (split_on (CHR ''/'') s). p \<noteq> [] \<and> p \<noteq> ''..'')"

definition key_wf :: "object_key \<Rightarrow> bool" where
  "key_wf k \<longleftrightarrow> key_str_wf (as_str k)"

lemma reject_dotdot_Inr [res_simps]: "reject_dotdot cs = Inr u \<longleftrightarrow> ''..'' \<notin> set cs"
  by (induction cs) auto

lemma reject_dotdot_Inl [res_simps]:
  "reject_dotdot cs = Inl e \<longleftrightarrow>
     ''..'' \<in> set cs \<and> e = InvalidKey ''key must not contain '..' path component''"
  by (induction cs) auto

lemma validate_key_Inr: "validate_key s = Inr u \<longleftrightarrow> key_str_wf s"
  using empty_piece_iff [of s "CHR ''/''"]
  by (auto simp: validate_key_def key_str_wf_def str_contains_char res_simps)

lemma validate_key_Inl_iff: "(\<exists>e. validate_key s = Inl e) \<longleftrightarrow> \<not> key_str_wf s"
  by (metis validate_key_Inr sum.exhaust sum.distinct(1))

lemma validate_key_Inl_invalid: "validate_key s = Inl e \<Longrightarrow> \<exists>m. e = InvalidKey m"
  by (auto simp: validate_key_def res_simps split: if_splits)

lemma key_new_Inr [res_simps]: "key_new s = Inr k \<longleftrightarrow> key_str_wf s \<and> k = ObjectKey s"
  by (auto simp: key_new_def res_simps validate_key_Inr)

lemma key_new_wf: "key_new s = Inr k \<Longrightarrow> key_wf k \<and> as_str k = s"
  by (auto simp: key_new_Inr key_wf_def)

lemma key_wf_components:
  "key_wf k \<Longrightarrow> p \<in> set (key_components k) \<Longrightarrow> p \<noteq> [] \<and> p \<noteq> ''..'' \<and> CHR ''/'' \<notin> set p"
  by (auto simp: key_wf_def key_str_wf_def key_components_def dest: split_on_piece)

lemma join_key_components [simp]: "join_with (CHR ''/'') (key_components k) = as_str k"
  by (simp add: key_components_def)

lemma key_components_not_Nil [simp]: "key_components k \<noteq> []"
  by (simp add: key_components_def)

lemma key_components_inj: "key_components j = key_components k \<longleftrightarrow> j = k"
  by (metis join_key_components object_key.expand)

text \<open>The texts that pass the first three tests.\<close>

definition key_clean :: "string \<Rightarrow> bool" where
  "key_clean s \<longleftrightarrow> s \<noteq> [] \<and> length s \<le> 1024 \<and> (\<forall>c \<in> set s. c \<notin> {CHR 0x00, CHR 0x0D, CHR 0x0A})"

section \<open>Properties\<close>

text \<open>C16. \<open>ObjectKey::new\<close> accepts exactly the non-empty strings of at most 1024 bytes without NUL, CR
  or LF whose every \<open>/\<close>-separated component is neither empty nor \<open>..\<close>, and keeps them unchanged; any
  other string is an \<open>InvalidKey\<close> error.\<close>

theorem key_new_accepts_exactly:
  "(key_new s = Inr k \<longleftrightarrow> key_str_wf s \<and> k = ObjectKey s)
   \<and> ((\<exists>m. key_new s = Inl (InvalidKey m)) \<longleftrightarrow> \<not> key_str_wf s)"
proof -
  have "(\<exists>m. key_new s = Inl (InvalidKey m)) \<longleftrightarrow> (\<exists>e. validate_key s = Inl e)"
    using validate_key_Inl_invalid [of s] by (auto simp: key_new_def res_simps)
  then show ?thesis by (simp add: key_new_Inr validate_key_Inl_iff)
qed

text \<open>Which error a rejected key gets: the first of the five tests that fails decides, and each
  message is returned for exactly that class of strings.\<close>

theorem key_new_error_cause:
  "(key_new s = Inl (InvalidKey ''key must not be empty'') \<longleftrightarrow> s = [])
   \<and> (key_new s = Inl (InvalidKey (''key length '' @ dec_of_nat (length s) @ '' exceeds maximum 1024''))
        \<longleftrightarrow> 1024 < length s)
   \<and> (key_new s = Inl (InvalidKey ''key must not contain null or control characters'') \<longleftrightarrow>
        s \<noteq> [] \<and> length s \<le> 1024 \<and> \<not> key_clean s)
   \<and> (key_new s = Inl (InvalidKey ''key must not contain '..' path component'') \<longleftrightarrow>
        key_clean s \<and> ''..'' \<in> set (split_on (CHR ''/'') s))
   \<and> (key_new s = Inl (InvalidKey ''key must not have empty path segments or leading/trailing slashes'')
        \<longleftrightarrow> key_clean s \<and> ''..'' \<notin> set (split_on (CHR ''/'') s) \<and> [] \<in> set (split_on (CHR ''/'') s))"
proof -
  have d: "dec_of_nat 1024 = ''1024''" by code_simp
  show ?thesis
    using empty_piece_iff [of s "CHR ''/''"]
    by (auto simp: key_new_def validate_key_def key_clean_def d max_key_len_def str_contains_char res_simps)
qed

text \<open>The printed form of a validated key parses back to the same key by every checked
  constructor, and splitting it at \<open>/\<close> loses nothing: two keys with the same components are equal.\<close>

theorem key_text_roundtrip:
  assumes "key_wf k"
  shows "key_from_str (key_display k) = Inr k \<and> key_try_from_string (key_into_inner k) = Inr k
    \<and> key_try_from_str (key_as_ref k) = Inr k
    \<and> (key_components j = key_components k \<longleftrightarrow> j = k)"
  using assms by (simp_all add: key_from_str_def key_display_def key_try_from_string_def
      key_into_inner_def key_try_from_str_def key_as_ref_def key_new_Inr key_wf_def key_components_inj)

theorem key_text_roundtrip_witness:
  "key_from_str (key_display (ObjectKey ''a/b'')) = Inr (ObjectKey ''a/b'')"
  using key_text_roundtrip [of "ObjectKey ''a/b''"]
  by (simp add: key_wf_def key_str_wf_def max_key_len_def)

text \<open>Deserialising wraps any string without validating it, so with the \<open>serde\<close> feature a key
  with a \<open>..\<close> component (or an absolute path) is built although \<open>ObjectKey::new\<close> rejects it.\<close>

theorem key_deserialize_unchecked:
  "as_str (key_deserialize s) = s
   \<and> \<not> key_wf (key_deserialize ''../etc/passwd'') \<and> \<not> key_wf (key_deserialize ''/etc/passwd'')
   \<and> \<not> is_ok (key_new ''../etc/passwd'') \<and> \<not> is_ok (key_new ''/etc/passwd'')"
  by (auto simp: key_deserialize_def key_wf_def key_str_wf_def res_simps)

end
