(* ===== verification/Blob_Store.thy ===== *)
theory Blob_Store
  imports Blob_Id Object_Key
begin

text \<open>
  The \<open>BlobStore\<close> trait of \<open>src/src/store.rs\<close>: its operations as a record of functions over a store
  state \<open>'s\<close> and a call environment \<open>'e\<close> (what the outside world contributes to one call: entropy,
  temporary names, injected failures), its default methods, and the forwarding \<open>Box\<close>. The locale
  \<open>blob_store\<close> is the trait's contract against an abstract map from keys to payloads; \<open>strict_store\<close>
  adds the clauses of the trait's documentation about missing keys.
\<close>

record ('e, 's) blob_ops =
  op_put :: "'e \<Rightarrow> object_key \<Rightarrow> bytes \<Rightarrow> 's \<Rightarrow> blob_id result \<times> 's"
  op_get :: "'e \<Rightarrow> object_key \<Rightarrow> 's \<Rightarrow> bytes result"
  op_delete :: "'e \<Rightarrow> object_key \<Rightarrow> 's \<Rightarrow> unit result \<times> 's"
  op_exists :: "'e \<Rightarrow> object_key \<Rightarrow> 's \<Rightarrow> bool result"
  op_list :: "'e \<Rightarrow> string \<Rightarrow> 's \<Rightarrow> object_key list result"
  op_presigned_url :: "'e \<Rightarrow> object_key \<Rightarrow> u64 \<Rightarrow> 's \<Rightarrow> string result"

text \<open>The default methods of the trait (the \<open>s3\<close> feature off).\<close>

definition default_list :: "'e \<Rightarrow> string \<Rightarrow> 's \<Rightarrow> object_key list result" where
  "default_list e p s = Inl (unsupported ''list is not supported by this backend'')"

definition default_presigned_url :: "'e \<Rightarrow> object_key \<Rightarrow> u64 \<Rightarrow> 's \<Rightarrow> string result" where
  "default_presigned_url e k expires s = Inl (unsupported ''presigned_url requires the `s3` feature'')"

text \<open>\<open>impl BlobStore for Box<S>\<close>: every method forwards to the pointee.\<close>

definition box_ops :: "('e, 's) blob_ops \<Rightarrow> ('e, 's) blob_ops" where
  "box_ops inner =
     \<lparr>op_put = (\<lambda>e key data s. op_put inner e key data s),
      op_get = (\<lambda>e key s. op_get inner e key s),
      op_delete = (\<lambda>e key s. op_delete inner e key s),
      op_exists = (\<lambda>e key s. op_exists inner e key s),
      op_list = (\<lambda>e pre s. op_list inner e pre s),
      op_presigned_url = (\<lambda>e key expires s. op_presigned_url inner e key expires s)\<rparr>"

lemma box_ops_id [simp]: "box_ops inner = inner"
  by (cases inner) (simp add: box_ops_def)

section \<open>Sequences of operations and their abstract effect\<close>

text \<open>
  The mutating calls of a client, in the order they take effect, each with its environment. The
  run records which of them succeeded; the abstract run applies the successful ones to a map.
\<close>

datatype store_op = PutOp object_key bytes | DeleteOp object_key

fun op_key :: "store_op \<Rightarrow> object_key" where
  "op_key (PutOp k d) = k"
| "op_key (DeleteOp k) = k"

fun step_op :: "('e, 's) blob_ops \<Rightarrow> 'e \<Rightarrow> store_op \<Rightarrow> 's \<Rightarrow> bool \<times> 's" where
  "step_op b e (PutOp k d) s = (let (r, s') = op_put b e k d s in (is_ok r, s'))"
| "step_op b e (DeleteOp k) s = (let (r, s') = op_delete b e k s in (is_ok r, s'))"

fun run_ops :: "('e, 's) blob_ops \<Rightarrow> ('e \<times> store_op) list \<Rightarrow> 's \<Rightarrow> bool list \<times> 's" where
  "run_ops b [] s = ([], s)"
| "run_ops b ((e, x) # xs) s =
     (let (ok, s') = step_op b e x s; (oks, s'') = run_ops b xs s' in (ok # oks, s''))"

fun abs_step :: "store_op \<Rightarrow> bool \<Rightarrow> (object_key \<rightharpoonup> bytes) \<Rightarrow> (object_key \<rightharpoonup> bytes)" where
  "abs_step x False m = m"
| "abs_step (PutOp k d) True m = m(k \<mapsto> d)"
| "abs_step (DeleteOp k) True m = m(k := None)"

fun abs_run :: "('e \<times> store_op) list \<Rightarrow> bool list \<Rightarrow> (object_key \<rightharpoonup> bytes) \<Rightarrow> (object_key \<rightharpoonup> bytes)" where
  "abs_run ((e, x) # xs) (ok # oks) m = abs_run xs oks (abs_step x ok m)"
| "abs_run _ _ m = m"

text \<open>All calls of a client, with the answers it sees.\<close>

datatype store_call =
    CallPut object_key bytes | CallGet object_key | CallDelete object_key | CallExists object_key
  | CallList string | CallPresign object_key u64

datatype store_reply =
    ReplyId "blob_id result" | ReplyBytes "bytes result" | ReplyUnit "unit result"
  | ReplyBool "bool result" | ReplyKeys "object_key list result" | ReplyUrl "string result"

fun do_call :: "('e, 's) blob_ops \<Rightarrow> 'e \<Rightarrow> store_call \<Rightarrow> 's \<Rightarrow> store_reply \<times> 's" where
  "do_call b e (CallPut k d) s = (let (r, s') = op_put b e k d s in (ReplyId r, s'))"
| "do_call b e (CallGet k) s = (ReplyBytes (op_get b e k s), s)"
| "do_call b e (CallDelete k) s = (let (r, s') = op_delete b e k s in (ReplyUnit r, s'))"
| "do_call b e (CallExists k) s = (ReplyBool (op_exists b e k s), s)"
| "do_call b e (CallList p) s = (ReplyKeys (op_list b e p s), s)"
| "do_call b e (CallPresign k x) s = (ReplyUrl (op_presigned_url b e k x s), s)"

fun session :: "('e, 's) blob_ops \<Rightarrow> ('e \<times> store_call) list \<Rightarrow> 's \<Rightarrow> store_reply list" where
  "session b [] s = []"
| "session b ((e, c) # cs) s = (let (r, s') = do_call b e c s in r # session b cs s')"

text \<open>
  The specification of a store: a map from keys to payloads, a put that always succeeds and a
  listing in key order. The identifier a put returns is a function of the environment.
\<close>

definition spec_ops :: "('e \<Rightarrow> blob_id) \<Rightarrow> string \<Rightarrow> ('e, object_key \<rightharpoonup> bytes) blob_ops" where
  "spec_ops new_id no_url =
     \<lparr>op_put = (\<lambda>e key data m. (Inr (new_id e), m(key \<mapsto> data))),
      op_get = (\<lambda>e key m. case m key of Some d \<Rightarrow> Inr d | None \<Rightarrow> Inl (NotFound (as_str key))),
      op_delete = (\<lambda>e key m.
        (if key \<in> dom m then Inr () else Inl (NotFound (as_str key)), m(key := None))),
      op_exists = (\<lambda>e key m. Inr (key \<in> dom m)),
      op_list = (\<lambda>e pre m. Inr (sorted_list_of_set {k \<in> dom m. starts_with (as_str k) pre})),
      op_presigned_url = (\<lambda>e key x m. Inl (Unsupported no_url))\<rparr>"

text \<open>One store simulates another when every call gives the same answer and related states.\<close>

locale store_simulation =
  fixes conc :: "('e, 's) blob_ops" and abst :: "('e, 'a) blob_ops" and abs :: "'s \<Rightarrow> 'a" and inv :: "'s \<Rightarrow> bool"
  assumes sim: "inv s \<Longrightarrow> do_call conc e c s = (r, s') \<Longrightarrow>
    inv s' \<and> do_call abst e c (abs s) = (r, abs s')"
begin

lemma session_agrees: "inv s \<Longrightarrow> session conc cs s = session abst cs (abs s)"
proof (induction cs arbitrary: s)
  case Nil
  show ?case by simp
next
  case (Cons p cs)
  obtain e c where p: "p = (e, c)" by (cases p)
  obtain r s' where call: "do_call conc e c s = (r, s')" by (cases "do_call conc e c s")
  with sim [OF Cons.prems call] Cons.IH show ?case by (simp add: p)
qed

end

section \<open>The contract\<close>

locale blob_store =
  fixes ops :: "('e, 's) blob_ops"
    and view :: "'s \<Rightarrow> object_key \<Rightarrow> bytes option"
    and invar :: "'s \<Rightarrow> bool"
    and ok_key :: "object_key \<Rightarrow> bool"
    and env_ok :: "'e \<Rightarrow> bool"
    and quiet :: "'e \<Rightarrow> bool"
  assumes put_law: "invar s \<Longrightarrow> env_ok e \<Longrightarrow> ok_key k \<Longrightarrow> op_put ops e k d s = (r, s') \<Longrightarrow>
      invar s' \<and> (\<forall>j. ok_key j \<longrightarrow> view s' j = (if is_ok r \<and> j = k then Some d else view s j))"
    and delete_law: "invar s \<Longrightarrow> env_ok e \<Longrightarrow> ok_key k \<Longrightarrow> op_delete ops e k s = (q, s') \<Longrightarrow>
      invar s' \<and> (\<forall>j. ok_key j \<longrightarrow> view s' j = (if is_ok q \<and> j = k then None else view s j))"
    and delete_ok_law: "invar s \<Longrightarrow> env_ok e \<Longrightarrow> ok_key k \<Longrightarrow> op_delete ops e k s = (Inr u, s') \<Longrightarrow>
      view s k \<noteq> None"
    and get_sound: "invar s \<Longrightarrow> ok_key k \<Longrightarrow> op_get ops e k s = Inr d \<Longrightarrow> view s k = Some d"
    and get_complete: "invar s \<Longrightarrow> ok_key k \<Longrightarrow> quiet e \<Longrightarrow> view s k = Some d \<Longrightarrow>
      op_get ops e k s = Inr d"
    and exists_stored: "invar s \<Longrightarrow> ok_key k \<Longrightarrow> quiet e \<Longrightarrow> view s k = Some d \<Longrightarrow>
      op_exists ops e k s = Inr True"
    and exists_false: "invar s \<Longrightarrow> env_ok e \<Longrightarrow> ok_key k \<Longrightarrow> op_exists ops e k s = Inr False \<Longrightarrow> view s k = None"
    and list_law: "invar s \<Longrightarrow> env_ok e \<Longrightarrow> op_list ops e p s = Inr ks \<Longrightarrow>
      sorted ks \<and> distinct ks \<and>
      (\<forall>k. ok_key k \<longrightarrow> (k \<in> set ks \<longleftrightarrow> view s k \<noteq> None \<and> starts_with (as_str k) p))"
begin

lemma put_get:
  assumes "invar s" "env_ok e" "ok_key k" "op_put ops e k d s = (Inr i, s')" "quiet e'"
  shows "op_get ops e' k s' = Inr d"
  using put_law [OF assms(1-4)] assms(3,5) by (auto intro: get_complete)

lemma put_frame:
  assumes "invar s" "env_ok e" "ok_key k" "op_put ops e k d s = (r, s')" "ok_key j" "j \<noteq> k" "quiet e'"
    and "op_get ops e' j s = Inr x"
  shows "op_get ops e' j s' = Inr x"
  using put_law [OF assms(1-4)] get_sound [OF assms(1,5,8)] assms(5-7) by (auto intro: get_complete)

lemma failed_put_get:
  assumes "invar s" "env_ok e" "ok_key k" "op_put ops e k d s = (Inl err, s')" "ok_key j" "quiet e'"
    and "op_get ops e' j s = Inr x"
  shows "op_get ops e' j s' = Inr x"
  using put_law [OF assms(1-4)] get_sound [OF assms(1,5,7)] assms(5,6) by (auto intro: get_complete)

lemma last_write_wins:
  assumes "invar s" "env_ok e1" "env_ok e2" "ok_key k" "op_put ops e1 k d1 s = (r, s1)"
    and "op_put ops e2 k d2 s1 = (Inr i, s2)" "quiet e'"
  shows "op_get ops e' k s2 = Inr d2"
  using put_law [OF assms(1,2,4,5)] put_get [OF _ assms(3,4,6,7)] by blast

lemma delete_get:
  assumes "invar s" "env_ok e" "ok_key k" "op_delete ops e k s = (Inr u, s')"
  shows "op_get ops e' k s' \<noteq> Inr d"
  using delete_law [OF assms] assms(3) by (auto dest: get_sound)

lemma put_list:
  assumes "invar s" "env_ok e" "ok_key k" "op_put ops e k d s = (Inr i, s')"
    and "env_ok e'" "op_list ops e' p s' = Inr ks"
  shows "k \<in> set ks \<longleftrightarrow> starts_with (as_str k) p"
  using put_law [OF assms(1-4)] list_law [OF _ assms(5,6)] assms(3) by auto

lemma list_get_agree:
  assumes "invar s" "ok_key k" "quiet e" "env_ok e'" "op_list ops e' [] s = Inr ks"
  shows "k \<in> set ks \<longleftrightarrow> (\<exists>d. op_get ops e k s = Inr d)"
  using list_law [OF assms(1,4,5)] assms(1-3) by (auto intro: get_complete dest: get_sound)

lemma step_op_refines:
  assumes "invar s" "env_ok e" "ok_key (op_key x)" "step_op ops e x s = (ok, s')"
  shows "invar s' \<and> (\<forall>j. ok_key j \<longrightarrow> view s' j = abs_step x ok (view s) j)"
proof (cases x)
  case (PutOp k d)
  with assms(4) obtain r where r: "op_put ops e k d s = (r, s')" "ok = is_ok r"
    by (auto simp: split: prod.splits)
  from put_law [OF assms(1,2) _ r(1)] assms(3) PutOp show ?thesis
    by (cases "is_ok r") (auto simp: r(2))
next
  case (DeleteOp k)
  with assms(4) obtain r where r: "op_delete ops e k s = (r, s')" "ok = is_ok r"
    by (auto simp: split: prod.splits)
  from delete_law [OF assms(1,2) _ r(1)] assms(3) DeleteOp show ?thesis
    by (cases "is_ok r") (auto simp: r(2))
qed

lemma run_ops_refines_gen:
  assumes "invar s" "\<forall>(e, x) \<in> set xs. env_ok e \<and> ok_key (op_key x)"
    and "\<forall>j. ok_key j \<longrightarrow> view s j = m j" and "run_ops ops xs s = (oks, s')"
  shows "invar s' \<and> (\<forall>j. ok_key j \<longrightarrow> view s' j = abs_run xs oks m j)"
  using assms
proof (induction xs arbitrary: s m oks)
  case Nil
  then show ?case by simp
next
  case (Cons p xs)
  obtain e x where p: "p = (e, x)" by (cases p)
  obtain ok s1 where st: "step_op ops e x s = (ok, s1)" by (cases "step_op ops e x s")
  obtain oks' where run: "run_ops ops xs s1 = (oks', s')" and oks: "oks = ok # oks'"
    using Cons.prems(4) p st by (auto split: prod.splits)
  have s1: "invar s1" "\<forall>j. ok_key j \<longrightarrow> view s1 j = abs_step x ok (view s) j"
    using step_op_refines [OF Cons.prems(1) _ _ st] Cons.prems(2) p by auto
  have "abs_step x ok (view s) j = abs_step x ok m j" if "ok_key j" for j
    using Cons.prems(3) that by (cases x; cases ok) auto
  with s1 have "\<forall>j. ok_key j \<longrightarrow> view s1 j = abs_step x ok m j" by simp
  from Cons.IH [OF s1(1) _ this run] Cons.prems(2) show ?case by (auto simp: p oks)
qed

lemma run_ops_refines:
  assumes "invar s" "\<forall>(e, x) \<in> set xs. env_ok e \<and> ok_key (op_key x)" "run_ops ops xs s = (oks, s')"
    and "ok_key k" "quiet e'"
  shows "op_get ops e' k s' = Inr d \<longleftrightarrow> abs_run xs oks (view s) k = Some d"
  using run_ops_refines_gen [OF assms(1,2) _ assms(3), of "view s"] assms(4,5)
  by (auto intro: get_complete dest: get_sound)

end

locale strict_store = blob_store +
  assumes get_missing: "invar s \<Longrightarrow> ok_key k \<Longrightarrow> quiet e \<Longrightarrow> view s k = None \<Longrightarrow>
      op_get ops e k s = Inl (NotFound (as_str k))"
    and delete_missing: "invar s \<Longrightarrow> ok_key k \<Longrightarrow> quiet e \<Longrightarrow> view s k = None \<Longrightarrow>
      fst (op_delete ops e k s) = Inl (NotFound (as_str k))"
    and delete_stored: "invar s \<Longrightarrow> ok_key k \<Longrightarrow> quiet e \<Longrightarrow> view s k = Some d \<Longrightarrow>
      fst (op_delete ops e k s) = Inr ()"
    and exists_exact: "invar s \<Longrightarrow> ok_key k \<Longrightarrow> quiet e \<Longrightarrow>
      op_exists ops e k s = Inr (view s k \<noteq> None)"
    and put_total: "invar s \<Longrightarrow> ok_key k \<Longrightarrow> quiet e \<Longrightarrow> \<exists>i. fst (op_put ops e k d s) = Inr i"
begin

lemma lifecycle:
  assumes "invar s" "env_ok e" "ok_key k" "quiet e" "op_put ops e k d s = (r, s1)"
    and "op_delete ops e k s1 = (q, s2)"
  shows "op_exists ops e k s1 = Inr True \<and> q = Inr () \<and> op_exists ops e k s2 = Inr False
    \<and> op_get ops e k s2 = Inl (NotFound (as_str k)) \<and> fst (op_delete ops e k s2) = Inl (NotFound (as_str k))"
proof -
  have "is_ok r" using put_total [OF assms(1,3,4), of d] assms(5) by (auto simp: is_ok_iff)
  with put_law [OF assms(1-3,5)] assms(3) have s1: "invar s1" "view s1 k = Some d" by auto
  from delete_stored [OF s1(1) assms(3,4) s1(2)] assms(6) have q: "q = Inr ()" by simp
  from delete_law [OF s1(1) assms(2,3,6)] q assms(3) have s2: "invar s2" "view s2 k = None" by auto
  show ?thesis
    using s1 s2 q assms(3,4) exists_exact get_missing delete_missing by simp
qed

end

end
