(* ===== verification/Blob_Metadata.thy ===== *)
theory Blob_Metadata
  imports Object_Key
begin

text \<open>
  \<open>BlobMetadata\<close> and the helpers of \<open>src/src/types.rs\<close>. Optional crates are arguments: an absent
  feature is \<open>None\<close>. \<open>mime_guess\<close> is the crate's first guess for a path, \<open>sha256_digest\<close> the raw
  digest of the \<open>sha2\<close> crate, \<open>clock_now\<close> the \<open>chrono\<close> clock at the moment of the call.
\<close>

record crates =
  mime_guess :: "(string \<Rightarrow> string option) option"
  sha256_digest :: "(bytes \<Rightarrow> bytes) option"
  clock_now :: "nat option"

record blob_metadata =
  meta_key :: object_key
  meta_size :: u64
  content_type :: string
  created_at :: "nat option"
  sha256 :: "string option"

definition octet_stream :: string where
  "octet_stream = ''application/octet-stream''"

definition metadata_new :: "crates \<Rightarrow> object_key \<Rightarrow> u64 \<Rightarrow> blob_metadata" where
  "metadata_new c key sz = \<lparr>meta_key = key, meta_size = sz, content_type = octet_stream,
     created_at = clock_now c, sha256 = None\<rparr>"

definition new_with_content_type :: "crates \<Rightarrow> object_key \<Rightarrow> u64 \<Rightarrow> string \<Rightarrow> blob_metadata" where
  "new_with_content_type c key sz ct = \<lparr>meta_key = key, meta_size = sz, content_type = ct,
     created_at = clock_now c, sha256 = None\<rparr>"

definition with_content_type :: "string \<Rightarrow> blob_metadata \<Rightarrow> blob_metadata" where
  "with_content_type ct m = m\<lparr>content_type := ct\<rparr>"

definition with_sha256 :: "string \<Rightarrow> blob_metadata \<Rightarrow> blob_metadata" where
  "with_sha256 digest m = m\<lparr>sha256 := Some digest\<rparr>"

definition guess_content_type :: "crates \<Rightarrow> object_key \<Rightarrow> string" where
  "guess_content_type c key =
     (case mime_guess c of
        Some from_path \<Rightarrow> (case from_path (as_str key) of Some ct \<Rightarrow> ct | None \<Rightarrow> octet_stream)
      | None \<Rightarrow> octet_stream)"

text \<open>The digest bytes, each printed as \<open>{:02x}\<close>; without the feature the stub returns \<open>None\<close>.\<close>

definition compute_sha256 :: "(bytes \<Rightarrow> bytes) \<Rightarrow> bytes \<Rightarrow> string" where
  "compute_sha256 digest data = concat (map hex2 (digest data))"

definition compute_sha256_stub :: "bytes \<Rightarrow> string option" where
  "compute_sha256_stub data = None"

section \<open>Lemmas\<close>

lemma new_then_with_content_type [simp]:
  "with_content_type ct (metadata_new c k n) = new_with_content_type c k n ct"
  by (simp add: with_content_type_def metadata_new_def new_with_content_type_def)

lemma hex2_inj: "hex2 a = hex2 b \<longleftrightarrow> a = b"
  by (metis hex_radix_hex2 option.inject)

lemma concat_hex2_inj: "concat (map hex2 xs) = concat (map hex2 ys) \<longleftrightarrow> xs = ys"
proof
  assume eq: "concat (map hex2 xs) = concat (map hex2 ys)"
  then have len: "length xs = length ys"
    by (metis hex2_length mult_cancel1 zero_neq_numeral)
  from len eq show "xs = ys"
    by (induction xs ys rule: list_induct2) (simp_all add: hex2_inj append_eq_append_conv)
qed simp

end
