(* ===== verification/Memory_Store.thy ===== *)
theory Memory_Store
  imports Blob_Store Blob_Metadata "HOL-Library.DAList"
begin

text \<open>
  \<open>src/src/memory.rs\<close>. The table is either the \<open>dashmap\<close> crate's map (feature \<open>memory\<close>, the
  default), a parameter of the model as a record of operations with the laws of the locale
  \<open>key_map\<close>, or a \<open>Mutex<HashMap>\<close> whose lock may be poisoned. \<open>std\<close>'s \<open>HashMap\<close> is an association
  list with distinct keys, which is also the interpretation of the locale. The iteration order is
  whatever \<open>hm_iter\<close> returns: nothing is assumed of it but that it enumerates the map.
\<close>

record entry =
  entry_data :: bytes
  entry_meta :: blob_metadata

section \<open>The map interface\<close>

record 'm key_map_ops =
  hm_new :: 'm
  hm_insert :: "object_key \<Rightarrow> entry \<Rightarrow> 'm \<Rightarrow> 'm"
  hm_get :: "object_key \<Rightarrow> 'm \<Rightarrow> entry option"
  hm_remove :: "object_key \<Rightarrow> 'm \<Rightarrow> entry option \<times> 'm"
  hm_contains_key :: "object_key \<Rightarrow> 'm \<Rightarrow> bool"
  hm_len :: "'m \<Rightarrow> nat"
  hm_clear :: "'m \<Rightarrow> 'm"
  hm_iter :: "'m \<Rightarrow> (object_key \<times> entry) list"

section \<open>Call environment\<close>

text \<open>
  What one call takes from outside the store: the 64-bit hash of clock and thread that seeds the
  \<open>BlobId\<close>, and the optional crates.
\<close>

record call_env =
  entropy :: u64
  crates_of :: crates

section \<open>MemoryStore over DashMap\<close>

record 'm memory_store =
  inner :: 'm

definition memory_new :: "'m key_map_ops \<Rightarrow> 'm memory_store" where
  "memory_new M = \<lparr>inner = hm_new M\<rparr>"

definition memory_len :: "'m key_map_ops \<Rightarrow> 'm memory_store \<Rightarrow> nat" where
  "memory_len M st = hm_len M (inner st)"

definition memory_is_empty :: "'m key_map_ops \<Rightarrow> 'm memory_store \<Rightarrow> bool" where
  "memory_is_empty M st \<longleftrightarrow> memory_len M st = 0"

definition memory_clear :: "'m key_map_ops \<Rightarrow> 'm memory_store \<Rightarrow> 'm memory_store" where
  "memory_clear M st = st\<lparr>inner := hm_clear M (inner st)\<rparr>"

definition memory_metadata :: "'m key_map_ops \<Rightarrow> object_key \<Rightarrow> 'm memory_store \<Rightarrow> blob_metadata option" where
  "memory_metadata M key st = map_option entry_meta (hm_get M key (inner st))"

definition memory_list_keys :: "'m key_map_ops \<Rightarrow> 'm memory_store \<Rightarrow> object_key list" where
  "memory_list_keys M st = map fst (hm_iter M (inner st))"

text \<open>The metadata and entry a \<open>put\<close> stores; \<open>data.len() as u64\<close> is a cast to 64 bits.\<close>

definition put_entry :: "crates \<Rightarrow> object_key \<Rightarrow> bytes \<Rightarrow> entry" where
  "put_entry c key data =
     (let sz = word_of_nat (length data) :: u64;
          ct = guess_content_type c key;
          meta = (case sha256_digest c of
              Some dg \<Rightarrow> (new_with_content_type c key sz ct)\<lparr>sha256 := Some (compute_sha256 dg data)\<rparr>
            | None \<Rightarrow> new_with_content_type c key sz ct)
      in \<lparr>entry_data = data, entry_meta = meta\<rparr>)"

definition memory_put ::
  "'m key_map_ops \<Rightarrow> call_env \<Rightarrow> object_key \<Rightarrow> bytes \<Rightarrow> 'm memory_store \<Rightarrow> blob_id result \<times> 'm memory_store"
where
  "memory_put M e key data st =
     (let ent = put_entry (crates_of e) key data;
          i = blob_id_new (entropy e)
      in (Inr i, st\<lparr>inner := hm_insert M key ent (inner st)\<rparr>))"

definition memory_get :: "'m key_map_ops \<Rightarrow> object_key \<Rightarrow> 'm memory_store \<Rightarrow> bytes result" where
  "memory_get M key st =
     (case hm_get M key (inner st) of
        Some ent \<Rightarrow> Inr (entry_data ent)
      | None \<Rightarrow> Inl (not_found (as_str key)))"

definition memory_delete ::
  "'m key_map_ops \<Rightarrow> object_key \<Rightarrow> 'm memory_store \<Rightarrow> unit result \<times> 'm memory_store" where
  "memory_delete M key st =
     (let (old, m) = hm_remove M key (inner st); removed = (old \<noteq> None)
      in (if removed then Inr () else Inl (not_found (as_str key)), st\<lparr>inner := m\<rparr>))"

definition memory_exists :: "'m key_map_ops \<Rightarrow> object_key \<Rightarrow> 'm memory_store \<Rightarrow> bool result" where
  "memory_exists M key st = Inr (hm_contains_key M key (inner st))"

definition memory_list ::
  "'m key_map_ops \<Rightarrow> string \<Rightarrow> 'm memory_store \<Rightarrow> object_key list result" where
  "memory_list M pre st =
     (let keys = filter (\<lambda>k. starts_with (as_str k) pre) (map fst (hm_iter M (inner st)))
      in Inr (sort keys))"

text \<open>The message of \<open>presigned_url\<close> depends on the feature \<open>s3\<close>, as its result type does.\<close>

definition memory_presigned_url_s3 :: "object_key \<Rightarrow> u64 \<Rightarrow> 's \<Rightarrow> 'url result" where
  "memory_presigned_url_s3 key expires st =
     Inl (unsupported ''presigned_url is not supported for MemoryStore'')"

definition memory_presigned_url :: "object_key \<Rightarrow> u64 \<Rightarrow> 's \<Rightarrow> string result" where
  "memory_presigned_url key expires st =
     Inl (unsupported ''presigned_url is not supported for MemoryStore (enable `s3` feature for Url support)'')"

definition memory_ops :: "'m key_map_ops \<Rightarrow> (call_env, 'm memory_store) blob_ops" where
  "memory_ops M =
     \<lparr>op_put = memory_put M,
      op_get = (\<lambda>e. memory_get M),
      op_delete = (\<lambda>e. memory_delete M),
      op_exists = (\<lambda>e. memory_exists M),
      op_list = (\<lambda>e. memory_list M),
      op_presigned_url = (\<lambda>e. memory_presigned_url)\<rparr>"

text \<open>Without \<open>std\<close> there is no table: every operation reports \<open>Unsupported\<close>.\<close>

definition memory_nostd_ops :: "('e, unit) blob_ops" where
  "memory_nostd_ops =
     \<lparr>op_put = (\<lambda>e key data s. (Inl (unsupported ''MemoryStore requires std feature''), s)),
      op_get = (\<lambda>e key s. Inl (unsupported ''MemoryStore requires std feature'')),
      op_delete = (\<lambda>e key s. (Inl (unsupported ''MemoryStore requires std feature''), s)),
      op_exists = (\<lambda>e key s. Inl (unsupported ''MemoryStore requires std feature'')),
      op_list = (\<lambda>e pre s. Inl (unsupported ''list is not supported for MemoryStore without std'')),
      op_presigned_url = (\<lambda>e key expires s.
        Inl (unsupported ''presigned_url is not supported for MemoryStore (enable `s3` feature for Url support)''))\<rparr>"

section \<open>The abstraction and the contract\<close>

definition memory_view :: "'m key_map_ops \<Rightarrow> 'm memory_store \<Rightarrow> object_key \<Rightarrow> bytes option" where
  "memory_view M st k = map_option entry_data (hm_get M k (inner st))"

lemma put_entry_data [simp]: "entry_data (put_entry c k d) = d"
  by (simp add: put_entry_def Let_def)

lemmas memory_defs = memory_new_def memory_len_def memory_clear_def memory_metadata_def
  memory_put_def memory_get_def memory_delete_def memory_exists_def memory_list_def memory_view_def

locale key_map =
  fixes M :: "'m key_map_ops"
  assumes get_new [simp]: "hm_get M k (hm_new M) = None"
    and get_insert [simp]: "hm_get M j (hm_insert M k v m) = (if j = k then Some v else hm_get M j m)"
    and remove_fst [simp]: "fst (hm_remove M k m) = hm_get M k m"
    and get_remove [simp]: "hm_get M j (snd (hm_remove M k m)) = (if j = k then None else hm_get M j m)"
    and contains_get [simp]: "hm_contains_key M k m \<longleftrightarrow> hm_get M k m \<noteq> None"
    and get_clear [simp]: "hm_get M k (hm_clear M m) = None"
    and iter_get: "map_of (hm_iter M m) k = hm_get M k m"
    and iter_distinct: "distinct (map fst (hm_iter M m))"
    and len_iter: "hm_len M m = length (hm_iter M m)"
begin

lemma iter_keys: "k \<in> set (map fst (hm_iter M m)) \<longleftrightarrow> hm_get M k m \<noteq> None"
  using iter_get [of m k] map_of_eq_None_iff [of "hm_iter M m" k] by simp

lemma len_card: "hm_len M m = card {k. hm_get M k m \<noteq> None}"
proof -
  have "set (map fst (hm_iter M m)) = {k. hm_get M k m \<noteq> None}" using iter_keys by blast
  then show ?thesis
    using distinct_card [OF iter_distinct [of m]] by (simp add: len_iter)
qed

lemma finite_keys: "finite {k. hm_get M k m \<noteq> None}"
proof -
  have "set (map fst (hm_iter M m)) = {k. hm_get M k m \<noteq> None}" using iter_keys by blast
  then show ?thesis by (metis List.finite_set)
qed

lemma list_sorted: "memory_list M p st = Inr ks \<Longrightarrow> sorted ks \<and> distinct ks
    \<and> (\<forall>k. k \<in> set ks \<longleftrightarrow> memory_view M st k \<noteq> None \<and> starts_with (as_str k) p)"
  using iter_distinct [of "inner st"] iter_keys [of _ "inner st"]
  by (auto simp: memory_list_def memory_view_def Let_def)

lemma put_len:
  "memory_len M (snd (memory_put M e k d st)) =
     (if memory_view M st k = None then Suc (memory_len M st) else memory_len M st)"
proof -
  let ?K = "{j. hm_get M j (inner st) \<noteq> None}"
  have "{j. hm_get M j (hm_insert M k v (inner st)) \<noteq> None} = insert k ?K" for v by auto
  then show ?thesis
    using finite_keys [of "inner st"] by (auto simp: memory_defs Let_def len_card insert_absorb)
qed

lemma put_metadata:
  "memory_metadata M k (snd (memory_put M e k d st)) = Some (entry_meta (put_entry (crates_of e) k d))"
  by (simp add: memory_defs Let_def)

lemma clear_empty: "memory_len M (memory_clear M st) = 0"
  by (simp add: memory_len_def memory_clear_def len_card)

end

sublocale key_map \<subseteq> mem: strict_store "memory_ops M" "memory_view M" "\<lambda>_. True" "\<lambda>_. True"
  "\<lambda>_. True" "\<lambda>_. True"
proof (unfold_locales, goal_cases)
  case (1 s e k d r s')
  then show ?case by (auto simp: memory_ops_def memory_defs Let_def)
next
  case (2 s e k q s')
  then show ?case
    by (auto simp: memory_ops_def memory_defs Let_def case_prod_beta is_ok_iff split: if_splits)
next
  case (3 s e k u s')
  then show ?case
    by (auto simp: memory_ops_def memory_defs Let_def split: prod.splits if_splits)
       (metis fst_conv option.distinct(1) remove_fst)
next
  case (4 s k e d)
  then show ?case by (auto simp: memory_ops_def memory_defs split: option.splits)
next
  case (5 s k e d)
  then show ?case by (auto simp: memory_ops_def memory_defs split: option.splits)
next
  case (6 s k e d)
  then show ?case by (auto simp: memory_ops_def memory_defs)
next
  case (7 s k e)
  then show ?case by (auto simp: memory_ops_def memory_defs)
next
  case (8 s e p ks)
  then show ?case using list_sorted [of p s ks] by (simp add: memory_ops_def)
next
  case (9 s k e)
  then show ?case by (auto simp: memory_ops_def memory_defs)
next
  case (10 s k e)
  then show ?case using remove_fst [of k "inner s"]
    by (simp add: memory_ops_def memory_defs Let_def case_prod_beta)
next
  case (11 s k e d)
  then show ?case using remove_fst [of k "inner s"]
    by (auto simp: memory_ops_def memory_defs Let_def case_prod_beta)
next
  case (12 s k e)
  then show ?case by (auto simp: memory_ops_def memory_defs)
next
  case (13 s k e d)
  then show ?case by (auto simp: memory_ops_def memory_defs Let_def)
qed

text \<open>The contract's facts, written out over the operations.\<close>

context key_map
begin

lemma get_after_put: "memory_get M j (snd (memory_put M e k d st)) = (if j = k then Inr d else memory_get M j st)"
  by (simp add: memory_defs Let_def)

lemma put_delete_cycle:
  "let s1 = snd (memory_put M e k d st); (q, s2) = memory_delete M k s1 in
      memory_exists M k s1 = Inr True \<and> q = Inr () \<and> memory_exists M k s2 = Inr False
      \<and> memory_get M k s2 = Inl (NotFound (as_str k))
      \<and> fst (memory_delete M k s2) = Inl (NotFound (as_str k))"
  using mem.lifecycle [OF TrueI TrueI TrueI TrueI surjective_pairing surjective_pairing, of e k d st]
  by (simp add: memory_ops_def Let_def case_prod_beta)

lemma get_view: "(\<exists>d. memory_get M k st = Inr d) \<longleftrightarrow> memory_view M st k \<noteq> None"
  by (auto simp: memory_defs split: option.splits)

lemma list_exact:
  "\<exists>ks. memory_list M p st = Inr ks \<and> sorted ks \<and> distinct ks
    \<and> (\<forall>k. k \<in> set ks \<longleftrightarrow> (\<exists>d. memory_get M k st = Inr d) \<and> starts_with (as_str k) p)"
  using list_sorted [of p st] by (simp add: get_view) (simp add: memory_list_def Let_def)

lemma exists_view: "memory_exists M k st = Inr True \<longleftrightarrow> memory_view M st k \<noteq> None"
  by (auto simp: memory_defs)

end

text \<open>MemoryStore simulates the map specification; the state is related by the view.\<close>

definition memory_spec :: "(call_env, object_key \<rightharpoonup> bytes) blob_ops" where
  "memory_spec = spec_ops (\<lambda>e. blob_id_new (entropy e))
     ''presigned_url is not supported for MemoryStore (enable `s3` feature for Url support)''"

lemmas spec_defs = memory_spec_def spec_ops_def

context key_map
begin

lemma list_spec: "memory_list M p st =
    Inr (sorted_list_of_set {k \<in> dom (memory_view M st). starts_with (as_str k) p})"
proof -
  obtain ks where ks: "memory_list M p st = Inr ks" by (simp add: memory_list_def Let_def)
  with list_sorted [OF ks] have "{k \<in> dom (memory_view M st). starts_with (as_str k) p} = set ks"
    by (auto simp: dom_def)
  then show ?thesis
    using list_sorted [OF ks] ks by (simp add: sorted_list_of_set.idem_if_sorted_distinct)
qed

lemma call_simulation: "do_call (memory_ops M) e c st = (r, st') \<Longrightarrow>
    do_call memory_spec e c (memory_view M st) = (r, memory_view M st')"
proof (cases c)
  case (CallDelete k)
  assume "do_call (memory_ops M) e c st = (r, st')"
  with CallDelete remove_fst [of k "inner st"] show ?thesis
    by (auto simp: memory_ops_def memory_defs spec_defs Let_def case_prod_beta fun_eq_iff)
qed (auto simp: memory_ops_def memory_put_def memory_get_def memory_exists_def memory_presigned_url_def
    memory_view_def spec_defs Let_def fun_eq_iff list_spec split: option.splits)

end

text \<open>So every session agrees with the specification's.\<close>

sublocale key_map \<subseteq> spec: store_simulation "memory_ops M" memory_spec "memory_view M" "\<lambda>_. True"
  using call_simulation by unfold_locales blast

context key_map
begin

lemma refines_spec: "session (memory_ops M) cs st = session memory_spec cs (memory_view M st)"
  by (rule spec.session_agrees) simp

end

section \<open>std HashMap\<close>

definition hash_map_ops :: "(object_key, entry) alist key_map_ops" where
  "hash_map_ops =
     \<lparr>hm_new = DAList.empty,
      hm_insert = DAList.update,
      hm_get = (\<lambda>k m. DAList.lookup m k),
      hm_remove = (\<lambda>k m. (DAList.lookup m k, DAList.delete k m)),
      hm_contains_key = (\<lambda>k m. DAList.lookup m k \<noteq> None),
      hm_len = (\<lambda>m. length (DAList.impl_of m)),
      hm_clear = (\<lambda>m. DAList.empty),
      hm_iter = DAList.impl_of\<rparr>"

interpretation hash_map: key_map hash_map_ops
  by unfold_locales
    (auto simp: hash_map_ops_def lookup_update DAList.lookup_empty DAList.lookup.rep_eq [symmetric])

section \<open>MemoryStore over a mutex (feature memory off)\<close>

record mutex_store =
  table :: "(object_key, entry) alist"
  poisoned :: bool

text \<open>\<open>Mutex::lock\<close> fails when a thread panicked while it held the lock.\<close>

definition mutex_lock :: "mutex_store \<Rightarrow> unit + (object_key, entry) alist" where
  "mutex_lock st = (if poisoned st then Inl () else Inr (table st))"

definition lock_poisoned :: "unit \<Rightarrow> blob_error" where
  "lock_poisoned u = Other ''memory store lock poisoned''"

definition mutex_new :: mutex_store where
  "mutex_new = \<lparr>table = DAList.empty, poisoned = False\<rparr>"

definition mutex_len :: "mutex_store \<Rightarrow> nat" where
  "mutex_len st = (case mutex_lock st of Inr g \<Rightarrow> length (DAList.impl_of g) | Inl _ \<Rightarrow> 0)"

definition mutex_clear :: "mutex_store \<Rightarrow> mutex_store" where
  "mutex_clear st = (case mutex_lock st of Inr g \<Rightarrow> st\<lparr>table := DAList.empty\<rparr> | Inl _ \<Rightarrow> st)"

definition mutex_metadata :: "object_key \<Rightarrow> mutex_store \<Rightarrow> blob_metadata option" where
  "mutex_metadata key st =
     (case mutex_lock st of
        Inr g \<Rightarrow> map_option entry_meta (DAList.lookup g key)
      | Inl _ \<Rightarrow> None)"

definition mutex_list_keys :: "mutex_store \<Rightarrow> object_key list" where
  "mutex_list_keys st =
     (case mutex_lock st of Inr g \<Rightarrow> map fst (DAList.impl_of g) | Inl _ \<Rightarrow> [])"

definition mutex_put ::
  "call_env \<Rightarrow> object_key \<Rightarrow> bytes \<Rightarrow> mutex_store \<Rightarrow> blob_id result \<times> mutex_store" where
  "mutex_put e key data st =
     (let ent = put_entry (crates_of e) key data;
          i = blob_id_new (entropy e)
      in case map_err lock_poisoned (mutex_lock st) of
           Inl err \<Rightarrow> (Inl err, st)
         | Inr g \<Rightarrow> (Inr i, st\<lparr>table := DAList.update key ent g\<rparr>))"

definition mutex_get :: "object_key \<Rightarrow> mutex_store \<Rightarrow> bytes result" where
  "mutex_get key st = and_then (map_err lock_poisoned (mutex_lock st)) (\<lambda>g.
     case DAList.lookup g key of
       Some ent \<Rightarrow> Inr (entry_data ent)
     | None \<Rightarrow> Inl (not_found (as_str key)))"

definition mutex_delete :: "object_key \<Rightarrow> mutex_store \<Rightarrow> unit result \<times> mutex_store" where
  "mutex_delete key st =
     (case map_err lock_poisoned (mutex_lock st) of
        Inl err \<Rightarrow> (Inl err, st)
      | Inr g \<Rightarrow>
          (let removed = (DAList.lookup g key \<noteq> None)
           in (if removed then Inr () else Inl (not_found (as_str key)),
               st\<lparr>table := DAList.delete key g\<rparr>)))"

definition mutex_exists :: "object_key \<Rightarrow> mutex_store \<Rightarrow> bool result" where
  "mutex_exists key st = and_then (map_err lock_poisoned (mutex_lock st)) (\<lambda>g.
     Inr (DAList.lookup g key \<noteq> None))"

text \<open>\<open>unwrap_or_default\<close>: a poisoned lock lists as empty.\<close>

definition mutex_list :: "string \<Rightarrow> mutex_store \<Rightarrow> object_key list result" where
  "mutex_list pre st =
     (let keys = (case mutex_lock st of
          Inr g \<Rightarrow> filter (\<lambda>k. starts_with (as_str k) pre) (map fst (DAList.impl_of g))
        | Inl _ \<Rightarrow> [])
      in Inr (sort keys))"

definition mutex_ops :: "(call_env, mutex_store) blob_ops" where
  "mutex_ops =
     \<lparr>op_put = mutex_put,
      op_get = (\<lambda>e. mutex_get),
      op_delete = (\<lambda>e. mutex_delete),
      op_exists = (\<lambda>e. mutex_exists),
      op_list = (\<lambda>e. mutex_list),
      op_presigned_url = (\<lambda>e. memory_presigned_url)\<rparr>"

text \<open>An unpoisoned mutex store simulates the default store over the \<open>HashMap\<close>.\<close>

definition unlocked :: "mutex_store \<Rightarrow> (object_key, entry) alist memory_store" where
  "unlocked st = \<lparr>inner = table st\<rparr>"

interpretation mutex_sim: store_simulation mutex_ops "memory_ops hash_map_ops" unlocked "\<lambda>st. \<not> poisoned st"
proof (unfold_locales, goal_cases)
  case (1 s e c r s')
  then show ?case
    by (cases c)
      (auto simp: mutex_ops_def memory_ops_def memory_defs hash_map_ops_def mutex_lock_def mutex_put_def
        mutex_get_def mutex_delete_def mutex_exists_def mutex_list_def
        memory_presigned_url_def unlocked_def Let_def case_prod_beta
        split: option.splits)
qed

lemmas mutex_defs = mutex_lock_def lock_poisoned_def mutex_len_def mutex_clear_def
  mutex_metadata_def mutex_list_keys_def mutex_put_def mutex_get_def mutex_delete_def
  mutex_exists_def mutex_list_def unlocked_def

section \<open>Properties\<close>

text \<open>A call environment with no optional crate, and a store holding one object, for the examples.\<close>

definition plain_env :: call_env where
  "plain_env = \<lparr>entropy = 1, crates_of = \<lparr>mime_guess = None, sha256_digest = None, clock_now = None\<rparr>\<rparr>"

definition one_object :: "(object_key, entry) alist memory_store" where
  "one_object = snd (memory_put hash_map_ops plain_env (ObjectKey ''a/1'') [1, 2] (memory_new hash_map_ops))"

text \<open>After a put every key reads as before except the stored one, which reads as exactly the
  stored bytes, whatever it held and whatever the map implementation: round trip, overwrite and
  frame in one equation (the empty payload included).\<close>

theorem memory_put_get:
  assumes "key_map M"
  shows "memory_get M j (snd (memory_put M e k d st)) = (if j = k then Inr d else memory_get M j st)
    \<and> fst (memory_put M e k d st) = Inr (blob_id_new (entropy e))"
  using key_map.get_insert [OF assms] by (simp add: memory_defs Let_def)

theorem memory_put_get_witness:
  "memory_get hash_map_ops (ObjectKey ''a/1'')
     (snd (memory_put hash_map_ops plain_env (ObjectKey ''a/1'') [] one_object)) = Inr []"
  using memory_put_get [OF hash_map.key_map_axioms, of "ObjectKey ''a/1''" plain_env "ObjectKey ''a/1''" "[]" one_object]
  by simp

text \<open>The life cycle of a key: after a put it exists; a delete then succeeds; after it the key
  does not exist, a get and a second delete report \<open>NotFound\<close> with the key's text.\<close>

theorem memory_lifecycle:
  assumes "key_map M"
  shows "let s1 = snd (memory_put M e k d st); (q, s2) = memory_delete M k s1 in
      memory_exists M k s1 = Inr True \<and> q = Inr () \<and> memory_exists M k s2 = Inr False
      \<and> memory_get M k s2 = Inl (NotFound (as_str k))
      \<and> fst (memory_delete M k s2) = Inl (NotFound (as_str k))"
  by (rule key_map.put_delete_cycle [OF assms])

theorem memory_lifecycle_witness:
  "memory_get hash_map_ops (ObjectKey ''k'')
     (snd (memory_delete hash_map_ops (ObjectKey ''k'')
       (snd (memory_put hash_map_ops plain_env (ObjectKey ''k'') [7] one_object)))) = Inl (NotFound ''k'')"
  using memory_lifecycle [OF hash_map.key_map_axioms, where k = "ObjectKey ''k''" and e = plain_env and d = "[7]" and st = one_object]
  by (simp add: Let_def case_prod_beta)

text \<open>Listing returns exactly the stored keys that start with the prefix, each once and in byte
  order, in whatever order the map iterates; and it is the whole inventory: what \<open>list\<close> shows for the
  empty prefix is what \<open>get\<close> can read.\<close>

theorem memory_list_exact:
  assumes "key_map M"
  shows "\<exists>ks. memory_list M p st = Inr ks \<and> sorted ks \<and> distinct ks
    \<and> (\<forall>k. k \<in> set ks \<longleftrightarrow> (\<exists>d. memory_get M k st = Inr d) \<and> starts_with (as_str k) p)"
  by (rule key_map.list_exact [OF assms])

theorem memory_list_exact_witness:
  "\<exists>ks. memory_list hash_map_ops ''a/'' one_object = Inr ks \<and> ObjectKey ''a/1'' \<in> set ks"
proof -
  have "memory_get hash_map_ops (ObjectKey ''a/1'') one_object = Inr [1, 2]"
    by (simp add: one_object_def key_map.get_after_put [OF hash_map.key_map_axioms])
  then show ?thesis
    using memory_list_exact [OF hash_map.key_map_axioms, of "''a/''" one_object] by auto
qed

text \<open>C22. What a put records: the metadata names the key and the payload length modulo \<open>2^64\<close>; when hashing is
  compiled in it holds the hexadecimal text of the payload's digest, 64 lower-case hexadecimal characters for a
  32-byte hash, and otherwise no hash; the object count grows by one exactly for a new key, and \<open>clear\<close> brings it
  to zero.\<close>

theorem memory_accounting:
  assumes "key_map M" and "\<And>h. sha256_digest (crates_of e) = Some h \<Longrightarrow> length (h d) = 32"
  shows "\<exists>md. memory_metadata M k (snd (memory_put M e k d st)) = Some md
      \<and> meta_key md = k \<and> unat (meta_size md) = length d mod 2 ^ 64
      \<and> sha256 md = map_option (\<lambda>h. concat (map hex2 (h d))) (sha256_digest (crates_of e))
      \<and> (\<forall>h \<in> set_option (sha256 md). length h = 64 \<and> (\<forall>c \<in> set h. lower_hex c))
      \<and> memory_len M (snd (memory_put M e k d st)) =
          memory_len M st + (if memory_exists M k st = Inr True then 0 else 1)
      \<and> memory_is_empty M (memory_clear M st)"
proof -
  let ?md = "entry_meta (put_entry (crates_of e) k d)"
  have "meta_key ?md = k" "unat (meta_size ?md) = length d mod 2 ^ 64"
    by (auto simp: put_entry_def Let_def new_with_content_type_def unat_of_nat split: option.splits)
  moreover have sha: "sha256 ?md = map_option (\<lambda>h. concat (map hex2 (h d))) (sha256_digest (crates_of e))"
    by (auto simp: put_entry_def Let_def new_with_content_type_def compute_sha256_def split: option.splits)
  moreover have "\<forall>h \<in> set_option (sha256 ?md). length h = 64 \<and> (\<forall>c \<in> set h. lower_hex c)"
    using assms(2) by (auto simp: sha hex2_length dest: hex2_lower)
  ultimately show ?thesis
    using key_map.put_metadata [OF assms(1), of k e d st] key_map.put_len [OF assms(1), of e k d st]
      key_map.clear_empty [OF assms(1), of st]
    by (simp add: key_map.exists_view [OF assms(1)] memory_is_empty_def)
qed

text \<open>An environment whose hash is 32 times the payload's length.\<close>

definition hash_env :: call_env where
  "hash_env = \<lparr>entropy = 1, crates_of =
     \<lparr>mime_guess = None, sha256_digest = Some (\<lambda>d. replicate 32 (of_nat (length d))), clock_now = None\<rparr>\<rparr>"

theorem memory_accounting_witness:
  "memory_len hash_map_ops (snd (memory_put hash_map_ops hash_env (ObjectKey ''b'') [1] (memory_new hash_map_ops))) = 1
   \<and> (\<exists>md. memory_metadata hash_map_ops (ObjectKey ''b'')
          (snd (memory_put hash_map_ops hash_env (ObjectKey ''b'') [1] (memory_new hash_map_ops))) = Some md
        \<and> sha256 md = Some (concat (replicate 32 ''01'')))"
proof -
  have "memory_len hash_map_ops (memory_new hash_map_ops) = 0"
    by (simp add: memory_len_def memory_new_def hash_map_ops_def DAList.empty_def Alist_inverse)
  moreover have "memory_exists hash_map_ops (ObjectKey ''b'') (memory_new hash_map_ops) = Inr False"
    by (simp add: memory_exists_def memory_new_def hash_map_ops_def DAList.lookup_empty)
  moreover have "sha256_digest (crates_of hash_env) = Some h \<Longrightarrow> length (h [1]) = 32" for h
    by (auto simp: hash_env_def)
  moreover have "map_option (\<lambda>h. concat (map hex2 (h [1]))) (sha256_digest (crates_of hash_env))
      = Some (concat (replicate 32 ''01''))"
    by (simp add: hash_env_def hex2_def hex_digit_def char_of_def bit_0)
  ultimately show ?thesis
    using memory_accounting [OF hash_map.key_map_axioms, of hash_env "[1]" "ObjectKey ''b''"
        "memory_new hash_map_ops"] by auto
qed

text \<open>C3. Refinement: over any map that meets the map laws, every client session against a
  MemoryStore gives, call by call, the answers of the specification store, a plain map from keys to
  bytes whose listing is the sorted key set.\<close>

theorem memory_refines_map:
  assumes "key_map M"
  shows "session (memory_ops M) cs st = session memory_spec cs (memory_view M st)
    \<and> memory_view M (memory_new M) = Map.empty"
  using key_map.refines_spec [OF assms, of cs st] key_map.get_new [OF assms]
  by (simp add: memory_view_def memory_new_def fun_eq_iff)

theorem memory_refines_map_witness:
  "session (memory_ops hash_map_ops)
     [(plain_env, CallPut (ObjectKey ''b'') [1]), (plain_env, CallPut (ObjectKey ''a'') []),
      (plain_env, CallGet (ObjectKey ''b'')), (plain_env, CallDelete (ObjectKey ''b'')),
      (plain_env, CallExists (ObjectKey ''b''))] (memory_new hash_map_ops)
   = [ReplyId (Inr (blob_id_new 1)), ReplyId (Inr (blob_id_new 1)), ReplyBytes (Inr [1]),
      ReplyUnit (Inr ()), ReplyBool (Inr False)]"
proof -
  have "session (memory_ops hash_map_ops) cs (memory_new hash_map_ops) = session memory_spec cs Map.empty" for cs
    using memory_refines_map [OF hash_map.key_map_axioms, of cs "memory_new hash_map_ops"] by simp
  then show ?thesis by (simp only:) (simp add: spec_defs plain_env_def)
qed

text \<open>The fallback build: an unpoisoned mutex store answers every session exactly as the default
  store over the same table does.\<close>

theorem mutex_equivalent:
  "session mutex_ops cs \<lparr>table = t, poisoned = False\<rparr> = session (memory_ops hash_map_ops) cs \<lparr>inner = t\<rparr>"
  using mutex_sim.session_agrees [of "\<lparr>table = t, poisoned = False\<rparr>" cs] by (simp add: unlocked_def)

text \<open>A poisoned lock: put, get, delete and exists report the poisoning and change nothing, but
  \<open>list\<close>, \<open>len\<close>, \<open>metadata\<close> and \<open>list_keys\<close> answer as if the store were empty, whatever it holds,
  and \<open>clear\<close> silently clears nothing.\<close>

theorem mutex_poisoned:
  fixes st :: mutex_store
  assumes "poisoned st"
  shows "mutex_put e k d st = (Inl (Other ''memory store lock poisoned''), st)
    \<and> mutex_get k st = Inl (Other ''memory store lock poisoned'')
    \<and> mutex_delete k st = (Inl (Other ''memory store lock poisoned''), st)
    \<and> mutex_exists k st = Inl (Other ''memory store lock poisoned'')
    \<and> mutex_list p st = Inr [] \<and> mutex_len st = 0 \<and> mutex_metadata k st = None
    \<and> mutex_list_keys st = [] \<and> mutex_clear st = st"
  using assms by (simp add: mutex_defs)

theorem mutex_poisoned_witness:
  "mutex_list [] \<lparr>table = inner one_object, poisoned = True\<rparr> = Inr []"
  using mutex_poisoned [of "\<lparr>table = inner one_object, poisoned = True\<rparr>"] by simp

end
