(* ===== verification/File_System.thy ===== *)
theory File_System
  imports Blob_Error
begin

text \<open>
  The part of \<open>std::fs\<close> (and of \<open>tokio::fs\<close>, its asynchronous wrapper) the sources call, over a tree
  of files and directories. A directory is a list of entries, in the order \<open>read_dir\<close> returns them.
  Paths are lists of components from the file-system root; every call returns the errno Linux
  reports, and consults a fault function first, so that any call may fail with any error. Symbolic
  links, permissions and hard links are not modelled.
\<close>

section \<open>The tree\<close>

datatype node = File bytes | Dir "(string \<times> node) list"

type_synonym path = "string list"

fun lookup_path :: "node \<Rightarrow> path \<Rightarrow> nat + node" where
  "lookup_path n [] = Inr n"
| "lookup_path (File d) (c # cs) = Inl ENOTDIR"
| "lookup_path (Dir es) (c # cs) =
     (case map_of es c of None \<Rightarrow> Inl ENOENT | Some n \<Rightarrow> lookup_path n cs)"

fun set_path :: "path \<Rightarrow> node \<Rightarrow> node \<Rightarrow> node" where
  "set_path [] v n = v"
| "set_path (c # cs) v (File d) = File d"
| "set_path (c # cs) v (Dir es) =
     (case map_of es c of
        Some n \<Rightarrow> Dir (AList.update c (set_path cs v n) es)
      | None \<Rightarrow> if cs = [] then Dir (AList.update c v es) else Dir es)"

fun del_path :: "path \<Rightarrow> node \<Rightarrow> node" where
  "del_path [] n = n"
| "del_path (c # cs) (File d) = File d"
| "del_path (c # cs) (Dir es) =
     (if cs = [] then Dir (AList.delete c es)
      else case map_of es c of
          Some n \<Rightarrow> Dir (AList.update c (del_path cs n) es)
        | None \<Rightarrow> Dir es)"

definition node_at :: "node \<Rightarrow> path \<Rightarrow> node option" where
  "node_at n p = (case lookup_path n p of Inr m \<Rightarrow> Some m | Inl e \<Rightarrow> None)"

fun as_file :: "node option \<Rightarrow> bytes option" where
  "as_file (Some (File d)) = Some d"
| "as_file _ = None"

fun as_dir :: "node option \<Rightarrow> bool" where
  "as_dir (Some (Dir es)) = True"
| "as_dir _ = False"

definition file_at :: "node \<Rightarrow> path \<Rightarrow> bytes option" where
  "file_at n p = as_file (node_at n p)"

definition dir_at :: "node \<Rightarrow> path \<Rightarrow> bool" where
  "dir_at n p \<longleftrightarrow> as_dir (node_at n p)"

lemma node_at_simps [simp]:
  "node_at n [] = Some n"
  "node_at (File d) (c # cs) = None"
  "node_at (Dir es) (c # cs) = (case map_of es c of None \<Rightarrow> None | Some n \<Rightarrow> node_at n cs)"
  by (auto simp: node_at_def split: option.splits)

lemma as_file_iff: "as_file x = Some d \<longleftrightarrow> x = Some (File d)"
  by (cases x rule: as_file.cases) auto

lemma as_dir_iff: "as_dir x \<longleftrightarrow> (\<exists>es. x = Some (Dir es))"
  by (cases x rule: as_dir.cases) auto

lemma file_at_iff: "file_at n p = Some d \<longleftrightarrow> node_at n p = Some (File d)"
  by (simp add: file_at_def as_file_iff)

lemma dir_at_iff: "dir_at n p \<longleftrightarrow> (\<exists>es. node_at n p = Some (Dir es))"
  by (simp add: dir_at_def as_dir_iff)

lemma lookup_path_Inr [simp]: "lookup_path n p = Inr m \<longleftrightarrow> node_at n p = Some m"
  by (auto simp: node_at_def split: sum.splits)

lemma lookup_at: "node_at n p = Some m \<Longrightarrow> lookup_path n p = Inr m"
  by simp

lemma lookup_none:
  assumes "node_at n p = None"
  obtains e where "lookup_path n p = Inl e"
  using assms by (auto simp: node_at_def split: sum.splits)

lemma node_cases_at:
  obtains (Absent) "node_at n p = None" "file_at n p = None" "\<not> dir_at n p"
    | (RegFile) d where "node_at n p = Some (File d)" "file_at n p = Some d" "\<not> dir_at n p"
    | (Directory) es where "node_at n p = Some (Dir es)" "file_at n p = None" "dir_at n p"
proof (cases "node_at n p")
  case None
  then show ?thesis using Absent by (simp add: file_at_def dir_at_def)
next
  case (Some m)
  then show ?thesis using RegFile Directory by (cases m) (auto simp: file_at_def dir_at_def)
qed

lemma node_at_append: "node_at n (p @ q) = (case node_at n p of None \<Rightarrow> None | Some m \<Rightarrow> node_at m q)"
proof (induction p arbitrary: n)
  case Nil
  then show ?case by simp
next
  case (Cons c cs)
  then show ?case by (cases n) (auto split: option.splits)
qed

lemma node_at_prefix_dir:
  assumes "node_at n (p @ c # q) \<noteq> None"
  shows "dir_at n p"
proof -
  from assms obtain m where "node_at n p = Some m" "node_at m (c # q) \<noteq> None"
    by (auto simp: node_at_append split: option.splits)
  then show ?thesis by (cases m) (auto simp: dir_at_iff)
qed

section \<open>Updates seen through file_at and dir_at\<close>

lemma file_at_simps [simp]:
  "file_at (File d) [] = Some d"
  "file_at (Dir es) [] = None"
  "file_at (File d) (c # cs) = None"
  "file_at (Dir es) (c # cs) = (case map_of es c of None \<Rightarrow> None | Some n \<Rightarrow> file_at n cs)"
  by (auto simp: file_at_def split: option.splits)

lemma dir_at_simps [simp]:
  "\<not> dir_at (File d) p"
  "dir_at (Dir es) []"
  "dir_at (Dir es) (c # cs) \<longleftrightarrow> (case map_of es c of None \<Rightarrow> False | Some n \<Rightarrow> dir_at n cs)"
  by (cases p; auto simp: dir_at_def split: option.splits)+

lemma below_file [simp]:
  "\<not> dir_at m [] \<Longrightarrow> file_at m (c # cs) = None"
  "\<not> dir_at m [] \<Longrightarrow> \<not> dir_at m (c # cs)"
  by (cases m; simp)+

lemma set_file_file_at:
  assumes "dir_at n q" "\<not> dir_at n (q @ [c])"
  shows "file_at (set_path (q @ [c]) (File d) n) p = (if p = q @ [c] then Some d else file_at n p)"
  using assms
proof (induction q arbitrary: n p)
  case Nil
  then obtain es where n: "n = Dir es" by (cases n) auto
  show ?case
  proof (cases p)
    case (Cons x xs)
    with n Nil show ?thesis by (cases xs) (auto simp: update_conv' split: option.splits)
  qed (use n in \<open>auto split: option.splits\<close>)
next
  case (Cons x q)
  then show ?case
    by (cases n; cases p) (auto simp: update_conv' split: option.splits if_splits)
qed

lemma set_file_dir_at:
  assumes "dir_at n q" "\<not> dir_at n (q @ [c])"
  shows "dir_at (set_path (q @ [c]) (File d) n) p = dir_at n p"
  using assms
proof (induction q arbitrary: n p)
  case Nil
  then obtain es where n: "n = Dir es" by (cases n) auto
  show ?case
  proof (cases p)
    case (Cons x xs)
    with n Nil show ?thesis by (cases xs) (auto simp: update_conv' split: option.splits)
  qed (use n in \<open>auto split: option.splits\<close>)
next
  case (Cons x q)
  then show ?case
    by (cases n; cases p) (auto simp: update_conv' split: option.splits if_splits)
qed

lemma set_dir_file_at:
  assumes "dir_at n q" "node_at n (q @ [c]) = None"
  shows "file_at (set_path (q @ [c]) (Dir []) n) p = file_at n p"
  using assms
proof (induction q arbitrary: n p)
  case Nil
  then obtain es where n: "n = Dir es" by (cases n) auto
  show ?case
  proof (cases p)
    case (Cons x xs)
    with n Nil show ?thesis by (cases xs) (auto simp: update_conv' split: option.splits)
  qed (use n in \<open>auto split: option.splits\<close>)
next
  case (Cons x q)
  then show ?case
    by (cases n; cases p) (auto simp: update_conv' split: option.splits if_splits)
qed

lemma set_dir_dir_at:
  assumes "dir_at n q" "node_at n (q @ [c]) = None"
  shows "dir_at (set_path (q @ [c]) (Dir []) n) p \<longleftrightarrow> p = q @ [c] \<or> dir_at n p"
  using assms
proof (induction q arbitrary: n p)
  case Nil
  then obtain es where n: "n = Dir es" by (cases n) auto
  show ?case
  proof (cases p)
    case (Cons x xs)
    with n Nil show ?thesis by (cases xs) (auto simp: update_conv' split: option.splits)
  qed (use n in \<open>auto split: option.splits\<close>)
next
  case (Cons x q)
  then show ?case
    by (cases n; cases p) (auto simp: update_conv' split: option.splits if_splits)
qed

lemma del_file_file_at:
  assumes "file_at n p = Some d" "p \<noteq> []"
  shows "file_at (del_path p n) q = (if q = p then None else file_at n q)"
  using assms
proof (induction p arbitrary: n q)
  case Nil
  then show ?case by simp
next
  case (Cons x p)
  then obtain es m where n: "n = Dir es" "map_of es x = Some m" "file_at m p = Some d"
    by (cases n) (auto split: option.splits)
  show ?case
  proof (cases "p = []")
    case True
    with n(3) have "m = File d" by (cases m) auto
    with n True have "del_path (x # p) n = Dir (AList.delete x es)" "x # p = [x]" by simp_all
    then show ?thesis
    proof (cases q)
      case (Cons a l)
      with n True \<open>m = File d\<close> show ?thesis by (cases l) (auto simp: delete_conv' split: option.splits)
    qed (use n in simp)
  next
    case False
    with n Cons.IH [OF n(3)] show ?thesis by (cases q) (auto simp: update_conv' split: option.splits)
  qed
qed

lemma del_file_dir_at:
  assumes "file_at n p = Some d" "p \<noteq> []"
  shows "dir_at (del_path p n) q = dir_at n q"
  using assms
proof (induction p arbitrary: n q)
  case Nil
  then show ?case by simp
next
  case (Cons x p)
  then obtain es m where n: "n = Dir es" "map_of es x = Some m" "file_at m p = Some d"
    by (cases n) (auto split: option.splits)
  show ?case
  proof (cases "p = []")
    case True
    with n(3) have "m = File d" by (cases m) auto
    with n True show ?thesis by (cases q) (auto simp: delete_conv' split: option.splits)
  next
    case False
    with n Cons.IH [OF n(3)] show ?thesis by (cases q) (auto simp: update_conv' split: option.splits)
  qed
qed

lemma node_at_None_iff: "node_at n p = None \<longleftrightarrow> file_at n p = None \<and> \<not> dir_at n p"
  by (cases n p rule: node_cases_at) auto

section \<open>System calls\<close>

text \<open>
  A path as the operating system gets it: its components with every inner \<open>.\<close> and empty component
  dropped (they name the directory they are in), and what its last component was if it was dropped.
\<close>

datatype trail = Plain | TrailDot | TrailSlash

datatype fs_path = FsPath (comps: path) (trail: trail)

datatype syscall =
    SysMkdir path | SysCreate path | SysWrite path | SysFlush path | SysSync path
  | SysRename path fs_path | SysUnlink fs_path | SysRead fs_path | SysStat fs_path | SysReadDir path
  | SysOpen fs_path | SysFstat fs_path | SysClone path | SysRing

type_synonym faults = "syscall \<Rightarrow> io_error option"

definition no_faults :: faults where
  "no_faults c = None"

definition sys_stat :: "faults \<Rightarrow> fs_path \<Rightarrow> node \<Rightarrow> io_error + node" where
  "sys_stat flt p fs =
     (case flt (SysStat p) of Some e \<Rightarrow> Inl e
      | None \<Rightarrow> (case lookup_path fs (comps p) of
            Inl e \<Rightarrow> Inl (OsError e)
          | Inr (File d) \<Rightarrow> if trail p = Plain then Inr (File d) else Inl (OsError ENOTDIR)
          | Inr (Dir es) \<Rightarrow> Inr (Dir es)))"

definition path_is_dir :: "faults \<Rightarrow> path \<Rightarrow> node \<Rightarrow> bool" where
  "path_is_dir flt p fs =
     (case sys_stat flt (FsPath p Plain) fs of Inr (Dir es) \<Rightarrow> True | _ \<Rightarrow> False)"

text \<open>Opening a directory for reading succeeds; reading from it fails.\<close>

definition sys_read :: "faults \<Rightarrow> fs_path \<Rightarrow> node \<Rightarrow> io_error + bytes" where
  "sys_read flt p fs =
     (case flt (SysRead p) of Some e \<Rightarrow> Inl e
      | None \<Rightarrow> (case lookup_path fs (comps p) of
            Inl e \<Rightarrow> Inl (OsError e)
          | Inr (File d) \<Rightarrow> if trail p = Plain then Inr d else Inl (OsError ENOTDIR)
          | Inr (Dir es) \<Rightarrow> Inl (OsError EISDIR)))"

text \<open>Opening for reading, as a step of its own.\<close>

definition sys_open :: "faults \<Rightarrow> fs_path \<Rightarrow> node \<Rightarrow> io_error + node" where
  "sys_open flt p fs =
     (case flt (SysOpen p) of Some e \<Rightarrow> Inl e
      | None \<Rightarrow> (case lookup_path fs (comps p) of
            Inl e \<Rightarrow> Inl (OsError e)
          | Inr (File d) \<Rightarrow> if trail p = Plain then Inr (File d) else Inl (OsError ENOTDIR)
          | Inr (Dir es) \<Rightarrow> Inr (Dir es)))"

definition sys_unlink :: "faults \<Rightarrow> fs_path \<Rightarrow> node \<Rightarrow> (io_error + unit) \<times> node" where
  "sys_unlink flt p fs =
     (case flt (SysUnlink p) of Some e \<Rightarrow> (Inl e, fs)
      | None \<Rightarrow> (case lookup_path fs (comps p) of
            Inl e \<Rightarrow> (Inl (OsError e), fs)
          | Inr (File d) \<Rightarrow>
              if trail p \<noteq> Plain then (Inl (OsError ENOTDIR), fs)
              else if comps p = [] then (Inl (OsError EBUSY), fs)
              else (Inr (), del_path (comps p) fs)
          | Inr (Dir es) \<Rightarrow> (Inl (OsError EISDIR), fs)))"

definition sys_mkdir :: "faults \<Rightarrow> path \<Rightarrow> node \<Rightarrow> (io_error + unit) \<times> node" where
  "sys_mkdir flt p fs =
     (case flt (SysMkdir p) of Some e \<Rightarrow> (Inl e, fs)
      | None \<Rightarrow>
          if p = [] then (Inl (OsError EEXIST), fs)
          else (case lookup_path fs (butlast p) of
              Inl e \<Rightarrow> (Inl (OsError e), fs)
            | Inr (File d) \<Rightarrow> (Inl (OsError ENOTDIR), fs)
            | Inr (Dir es) \<Rightarrow>
                if node_at fs p \<noteq> None then (Inl (OsError EEXIST), fs)
                else (Inr (), set_path p (Dir []) fs)))"

text \<open>\<open>open\<close> with \<open>O_CREAT | O_EXCL\<close>.\<close>

definition sys_create_new :: "faults \<Rightarrow> path \<Rightarrow> node \<Rightarrow> (io_error + unit) \<times> node" where
  "sys_create_new flt p fs =
     (case flt (SysCreate p) of Some e \<Rightarrow> (Inl e, fs)
      | None \<Rightarrow>
          if p = [] then (Inl (OsError EEXIST), fs)
          else (case lookup_path fs (butlast p) of
              Inl e \<Rightarrow> (Inl (OsError e), fs)
            | Inr (File d) \<Rightarrow> (Inl (OsError ENOTDIR), fs)
            | Inr (Dir es) \<Rightarrow>
                if node_at fs p \<noteq> None then (Inl (OsError EEXIST), fs)
                else (Inr (), set_path p (File []) fs)))"

text \<open>
  Writing all of \<open>data\<close> to a file just created; a write that fails has already written the first
  \<open>partial\<close> bytes.
\<close>

definition sys_write_all :: "faults \<Rightarrow> nat \<Rightarrow> path \<Rightarrow> bytes \<Rightarrow> node \<Rightarrow> (io_error + unit) \<times> node" where
  "sys_write_all flt partial p data fs =
     (case flt (SysWrite p) of
        Some e \<Rightarrow> (Inl e, set_path p (File (take partial data)) fs)
      | None \<Rightarrow> (Inr (), set_path p (File data) fs))"

definition sys_flush :: "faults \<Rightarrow> path \<Rightarrow> io_error + unit" where
  "sys_flush flt p = (case flt (SysFlush p) of Some e \<Rightarrow> Inl e | None \<Rightarrow> Inr ())"

definition sys_sync_all :: "faults \<Rightarrow> path \<Rightarrow> io_error + unit" where
  "sys_sync_all flt p = (case flt (SysSync p) of Some e \<Rightarrow> Inl e | None \<Rightarrow> Inr ())"

text \<open>\<open>rename\<close> of a regular file: the destination is replaced if it is a file.\<close>

definition sys_rename :: "faults \<Rightarrow> path \<Rightarrow> fs_path \<Rightarrow> node \<Rightarrow> (io_error + unit) \<times> node" where
  "sys_rename flt src dst fs =
     (case flt (SysRename src dst) of Some e \<Rightarrow> (Inl e, fs)
      | None \<Rightarrow>
          (case file_at fs src of None \<Rightarrow> (Inl (OsError ENOENT), fs)
           | Some d \<Rightarrow>
             if comps dst = [] then (Inl (OsError EBUSY), fs)
             else if trail dst = TrailDot then
               (case lookup_path fs (comps dst) of
                  Inl e \<Rightarrow> (Inl (OsError e), fs)
                | Inr (File d') \<Rightarrow> (Inl (OsError ENOTDIR), fs)
                | Inr (Dir es) \<Rightarrow> (Inl (OsError EBUSY), fs))
             else
               (case lookup_path fs (butlast (comps dst)) of
                  Inl e \<Rightarrow> (Inl (OsError e), fs)
                | Inr (File d') \<Rightarrow> (Inl (OsError ENOTDIR), fs)
                | Inr (Dir es) \<Rightarrow>
                    if trail dst = TrailSlash then (Inl (OsError ENOTDIR), fs)
                    else if dir_at fs (comps dst) then (Inl (OsError EISDIR), fs)
                    else (Inr (), set_path (comps dst) (File d) (del_path src fs)))))"

definition sys_read_dir :: "faults \<Rightarrow> path \<Rightarrow> node \<Rightarrow> io_error + (string \<times> node) list" where
  "sys_read_dir flt p fs =
     (case flt (SysReadDir p) of Some e \<Rightarrow> Inl e
      | None \<Rightarrow> (case lookup_path fs p of
            Inl e \<Rightarrow> Inl (OsError e)
          | Inr (File d) \<Rightarrow> Inl (OsError ENOTDIR)
          | Inr (Dir es) \<Rightarrow> Inr es))"

section \<open>create_dir_all\<close>

text \<open>
  \<open>std::fs::create_dir_all\<close>: make the directory; when its parent is missing, make the parent first;
  an error is forgiven when the path is a directory by then.
\<close>

function create_dir_all :: "faults \<Rightarrow> path \<Rightarrow> node \<Rightarrow> (io_error + unit) \<times> node" where
  "create_dir_all flt p fs =
     (case sys_mkdir flt p fs of
        (Inr u, fs1) \<Rightarrow> (Inr (), fs1)
      | (Inl e, fs1) \<Rightarrow>
          if io_kind e = KNotFound then
            (if p = [] then (Inl (CustomError KOther ''failed to create whole tree''), fs1)
             else case create_dir_all flt (butlast p) fs1 of
                (Inl e', fs2) \<Rightarrow> (Inl e', fs2)
              | (Inr u, fs2) \<Rightarrow>
                  (case sys_mkdir flt p fs2 of
                     (Inr u', fs3) \<Rightarrow> (Inr (), fs3)
                   | (Inl e', fs3) \<Rightarrow> if path_is_dir flt p fs3 then (Inr (), fs3) else (Inl e', fs3)))
          else if path_is_dir flt p fs1 then (Inr (), fs1)
          else (Inl e, fs1))"
  by pat_completeness auto
termination
  by (relation "measure (\<lambda>(flt, p, fs). length p)") auto

declare create_dir_all.simps [simp del]

section \<open>What the calls change\<close>

text \<open>
  The effect of every call as an update of the map \<^const>\<open>file_at\<close>. Directories only appear.
\<close>

lemma set_file:
  assumes "p \<noteq> []" "dir_at n (butlast p)" "\<not> dir_at n p"
  shows "file_at (set_path p (File d) n) = (file_at n)(p \<mapsto> d)"
    and "dir_at (set_path p (File d) n) = dir_at n"
proof -
  have "butlast p @ [last p] = p" using assms(1) by simp
  with set_file_file_at [of n "butlast p" "last p" d] set_file_dir_at [of n "butlast p" "last p" d] assms
  show "file_at (set_path p (File d) n) = (file_at n)(p \<mapsto> d)"
    and "dir_at (set_path p (File d) n) = dir_at n" by (auto simp: fun_eq_iff)
qed

lemma del_file:
  assumes "p \<noteq> []" "file_at n p = Some d"
  shows "file_at (del_path p n) = (file_at n)(p := None)" and "dir_at (del_path p n) = dir_at n"
  using del_file_file_at [OF assms(2,1)] del_file_dir_at [OF assms(2,1)] by (auto simp: fun_eq_iff)

lemma make_dir:
  assumes "p \<noteq> []" "dir_at n (butlast p)" "node_at n p = None"
  shows "file_at (set_path p (Dir []) n) = file_at n"
    and "dir_at (set_path p (Dir []) n) q \<longleftrightarrow> q = p \<or> dir_at n q"
proof -
  have "butlast p @ [last p] = p" using assms(1) by simp
  with set_dir_file_at [of n "butlast p" "last p"] set_dir_dir_at [of n "butlast p" "last p" q] assms
  show "file_at (set_path p (Dir []) n) = file_at n"
    and "dir_at (set_path p (Dir []) n) q \<longleftrightarrow> q = p \<or> dir_at n q" by (auto simp: fun_eq_iff)
qed

lemma file_not_dir: "file_at n p = Some d \<Longrightarrow> \<not> dir_at n p"
  by (auto simp: file_at_iff dir_at_iff)

lemma file_parent_dir: "file_at n p = Some d \<Longrightarrow> p \<noteq> [] \<Longrightarrow> dir_at n (butlast p)"
  using node_at_prefix_dir [of n "butlast p" "last p" "[]"] by (simp add: file_at_iff)

lemma sys_mkdir_effect:
  assumes "sys_mkdir flt p fs = (r, fs')"
  shows "file_at fs' = file_at fs" and "dir_at fs q \<Longrightarrow> dir_at fs' q"
    and "r = Inr u \<Longrightarrow> dir_at fs' p" and "r = Inl e \<Longrightarrow> fs' = fs"
  using assms make_dir [of p fs]
  by (auto simp: sys_mkdir_def dir_at_iff split: option.splits sum.splits node.splits if_splits)

lemma path_is_dir_imp: "path_is_dir flt p fs \<Longrightarrow> dir_at fs p"
  by (auto simp: path_is_dir_def sys_stat_def dir_at_iff split: option.splits sum.splits node.splits if_splits)

lemma create_dir_all_effect:
  assumes "create_dir_all flt p fs = (r, fs')"
  shows "file_at fs' = file_at fs \<and> (\<forall>q. dir_at fs q \<longrightarrow> dir_at fs' q) \<and> (is_ok r \<longrightarrow> dir_at fs' p)"
  using assms
proof (induction flt p fs arbitrary: r fs' rule: create_dir_all.induct)
  case (1 flt p fs)
  obtain r1 fs1 where mk: "sys_mkdir flt p fs = (r1, fs1)" by (cases "sys_mkdir flt p fs")
  note m1 = sys_mkdir_effect [OF mk]
  show ?case
  proof (cases r1)
    case (Inr u)
    with "1.prems" mk m1 show ?thesis by (subst (asm) create_dir_all.simps) auto
  next
    case (Inl e)
    show ?thesis
    proof (cases "io_kind e = KNotFound \<and> p \<noteq> []")
      case False
      with "1.prems" mk m1 Inl show ?thesis
        by (subst (asm) create_dir_all.simps) (auto simp: path_is_dir_imp split: if_splits)
    next
      case True
      obtain r2 fs2 where rec: "create_dir_all flt (butlast p) fs1 = (r2, fs2)"
        by (cases "create_dir_all flt (butlast p) fs1")
      note ih = "1.IH" [OF mk [symmetric] Inl _ _ rec]
      obtain r3 fs3 where mk3: "sys_mkdir flt p fs2 = (r3, fs3)" by (cases "sys_mkdir flt p fs2")
      note m3 = sys_mkdir_effect [OF mk3]
      from "1.prems" mk Inl True rec mk3 m1 m3 ih show ?thesis
        by (subst (asm) create_dir_all.simps)
           (auto simp: path_is_dir_imp split: sum.splits if_splits)
    qed
  qed
qed

lemma sys_create_new_effect:
  assumes "sys_create_new flt p fs = (Inr u, fs')"
  shows "p \<noteq> []" and "node_at fs p = None" and "file_at fs' = (file_at fs)(p \<mapsto> [])"
    and "dir_at fs' = dir_at fs"
  using assms set_file [of p fs "[]"] node_at_None_iff [of fs p]
  by (auto simp: sys_create_new_def dir_at_iff split: option.splits sum.splits node.splits if_splits)

lemma sys_create_new_fail: "sys_create_new flt p fs = (Inl e, fs') \<Longrightarrow> fs' = fs"
  by (auto simp: sys_create_new_def split: option.splits sum.splits node.splits if_splits)

lemma sys_write_all_effect:
  assumes "sys_write_all flt m p data fs = (r, fs')" "file_at fs p = Some x" "p \<noteq> []"
  shows "file_at fs' = (file_at fs)(p \<mapsto> if is_ok r then data else take m data)"
    and "dir_at fs' = dir_at fs"
  using assms set_file [OF assms(3) file_parent_dir [OF assms(2,3)] file_not_dir [OF assms(2)]]
  by (auto simp: sys_write_all_def split: option.splits)

lemma sys_unlink_effect:
  assumes "sys_unlink flt p fs = (r, fs')"
  shows "file_at fs' = (if is_ok r then (file_at fs)(comps p := None) else file_at fs)"
    and "dir_at fs' = dir_at fs" and "r = Inl e \<Longrightarrow> fs' = fs"
    and "r = Inr u \<Longrightarrow> file_at fs (comps p) \<noteq> None \<and> trail p = Plain"
  using assms del_file [of "comps p" fs]
  by (auto simp: sys_unlink_def file_at_iff split: option.splits sum.splits node.splits if_splits)

lemma sys_rename_effect:
  assumes "sys_rename flt src dst fs = (r, fs')" "file_at fs src = Some x" "src \<noteq> []" "src \<noteq> comps dst"
  shows "file_at fs' = (if is_ok r then (file_at fs)(src := None, comps dst \<mapsto> x) else file_at fs)"
    and "dir_at fs' = dir_at fs" and "r = Inl e \<Longrightarrow> fs' = fs" and "r = Inr u \<Longrightarrow> trail dst = Plain"
proof -
  note del = del_file [OF assms(3,2)]
  have set: "file_at (set_path (comps dst) (File x) (del_path src fs)) = (file_at fs)(src := None, comps dst \<mapsto> x)
      \<and> dir_at (set_path (comps dst) (File x) (del_path src fs)) = dir_at fs"
    if "comps dst \<noteq> []" "dir_at fs (butlast (comps dst))" "\<not> dir_at fs (comps dst)"
    using set_file [of "comps dst" "del_path src fs" x] that del by simp
  show "file_at fs' = (if is_ok r then (file_at fs)(src := None, comps dst \<mapsto> x) else file_at fs)"
    and "dir_at fs' = dir_at fs" and "r = Inl e \<Longrightarrow> fs' = fs" and "r = Inr u \<Longrightarrow> trail dst = Plain"
    using assms(1,2) set
    by (auto simp: sys_rename_def dir_at_iff split: option.splits sum.splits node.splits if_splits
        intro: trail.exhaust)
qed

section \<open>Well-formed trees\<close>

definition name_ok :: "string \<Rightarrow> bool" where
  "name_ok c \<longleftrightarrow> c \<noteq> [] \<and> c \<noteq> ''.'' \<and> c \<noteq> ''..'' \<and> CHR ''/'' \<notin> set c"

fun fs_wf :: "node \<Rightarrow> bool" where
  "fs_wf (File d) = True"
| "fs_wf (Dir es) = (distinct (map fst es) \<and> (\<forall>(c, n) \<in> set es. name_ok c \<and> fs_wf n))"

lemma fs_wf_map_of: "fs_wf (Dir es) \<Longrightarrow> map_of es c = Some n \<Longrightarrow> name_ok c \<and> fs_wf n"
  by (fastforce dest: map_of_SomeD)

lemma fs_wf_update:
  assumes "fs_wf (Dir es)" "name_ok c" "fs_wf n"
  shows "fs_wf (Dir (AList.update c n es))"
proof -
  have d: "distinct (map fst (AList.update c n es))"
    using assms(1) by (simp add: distinct_update)
  have "name_ok b \<and> fs_wf m" if "(b, m) \<in> set (AList.update c n es)" for b m
  proof -
    from that d have "map_of (AList.update c n es) b = Some m" by simp
    with assms show ?thesis
      by (auto simp: update_conv' split: if_splits dest: fs_wf_map_of)
  qed
  with d show ?thesis by auto
qed

lemma fs_wf_set_path:
  "fs_wf n \<Longrightarrow> fs_wf v \<Longrightarrow> list_all name_ok p \<Longrightarrow> fs_wf (set_path p v n)"
proof (induction p v n rule: set_path.induct)
  case (3 c cs v es)
  then show ?case
    by (auto split: option.splits simp del: fs_wf.simps intro!: fs_wf_update dest: fs_wf_map_of)
qed auto

lemma fs_wf_del_path: "fs_wf n \<Longrightarrow> fs_wf (del_path p n)"
proof (induction p n rule: del_path.induct)
  case (3 c cs es)
  have "fs_wf (Dir (AList.delete c es))"
    using "3.prems" by (auto simp: AList.delete_eq distinct_map_filter)
  with 3 show ?case
    by (auto split: option.splits simp del: fs_wf.simps intro!: fs_wf_update dest: fs_wf_map_of)
qed auto

lemma fs_wf_calls:
  assumes "fs_wf fs"
  shows "list_all name_ok p \<Longrightarrow> fs_wf (snd (sys_mkdir flt p fs))"
    and "list_all name_ok p \<Longrightarrow> fs_wf (snd (sys_create_new flt p fs))"
    and "list_all name_ok p \<Longrightarrow> fs_wf (snd (sys_write_all flt m p d fs))"
    and "fs_wf (snd (sys_unlink flt q fs))"
    and "list_all name_ok (comps q) \<Longrightarrow> fs_wf (snd (sys_rename flt p q fs))"
  using assms
  by (auto simp: sys_mkdir_def sys_create_new_def sys_write_all_def sys_unlink_def sys_rename_def
      fs_wf_del_path split: option.splits sum.splits node.splits intro!: fs_wf_set_path)

lemma list_all_butlast: "list_all P xs \<Longrightarrow> list_all P (butlast xs)"
  by (auto simp: list_all_iff dest: in_set_butlastD)

lemma fs_wf_create_dir_all:
  "fs_wf fs \<Longrightarrow> list_all name_ok p \<Longrightarrow> fs_wf (snd (create_dir_all flt p fs))"
proof (induction flt p fs rule: create_dir_all.induct)
  case (1 flt p fs)
  obtain r1 fs1 where mk: "sys_mkdir flt p fs = (r1, fs1)" by (cases "sys_mkdir flt p fs")
  with fs_wf_calls(1) [OF "1.prems", of flt] have wf1: "fs_wf fs1" by simp
  obtain r2 fs2 where rec: "create_dir_all flt (butlast p) fs1 = (r2, fs2)"
    by (cases "create_dir_all flt (butlast p) fs1")
  have wf2: "fs_wf fs2" if "r1 = Inl e" "io_kind e = KNotFound" "p \<noteq> []" for e
    using "1.IH" [OF mk [symmetric] that wf1 list_all_butlast [OF "1.prems"(2)]] rec by simp
  from fs_wf_calls(1) [OF _ "1.prems"(2), of fs2 flt] wf1 wf2 show ?case
    by (subst create_dir_all.simps) (auto simp: mk rec split: sum.splits prod.splits)
qed

section \<open>create_dir_all without faults\<close>

lemma sys_mkdir_quiet:
  assumes "file_at fs p = None"
  shows "dir_at fs p \<Longrightarrow> sys_mkdir no_faults p fs = (Inl (OsError EEXIST), fs)"
    and "p \<noteq> [] \<Longrightarrow> dir_at fs (butlast p) \<Longrightarrow> \<not> dir_at fs p \<Longrightarrow>
      sys_mkdir no_faults p fs = (Inr (), set_path p (Dir []) fs)"
proof -
  assume "dir_at fs p"
  moreover from this have "p \<noteq> [] \<Longrightarrow> dir_at fs (butlast p)"
    using node_at_prefix_dir [of fs "butlast p" "last p" "[]"] by (auto simp: dir_at_iff)
  ultimately show "sys_mkdir no_faults p fs = (Inl (OsError EEXIST), fs)"
    by (auto simp: sys_mkdir_def no_faults_def dir_at_iff lookup_at)
next
  assume "p \<noteq> []" "dir_at fs (butlast p)" "\<not> dir_at fs p"
  then show "sys_mkdir no_faults p fs = (Inr (), set_path p (Dir []) fs)"
    using assms node_at_None_iff [of fs p] by (auto simp: sys_mkdir_def no_faults_def dir_at_iff [of _ "butlast p"] lookup_at)
qed

lemma lookup_missing:
  "(\<And>q. prefix q p \<Longrightarrow> file_at n q = None) \<Longrightarrow> node_at n p = None \<Longrightarrow> lookup_path n p = Inl ENOENT"
proof (induction p arbitrary: n)
  case Nil
  then show ?case by simp
next
  case (Cons c p)
  from Cons.prems(1) [of "[]"] obtain es where n: "n = Dir es" by (cases n) auto
  show ?case
  proof (cases "map_of es c")
    case None
    with n show ?thesis by simp
  next
    case (Some m)
    with n Cons.prems(1) have "prefix q p \<Longrightarrow> file_at m q = None" for q
      by (metis Cons_prefix_Cons file_at_simps(4) option.simps(5))
    with Cons.IH [of m] Cons.prems(2) n Some show ?thesis by simp
  qed
qed

lemma dir_at_ancestor: "dir_at n (p @ q) \<Longrightarrow> dir_at n p"
  using node_at_prefix_dir [of n p "hd q" "tl q"] by (cases q) (auto simp: dir_at_iff)

lemma path_is_dir_quiet: "path_is_dir no_faults p fs \<longleftrightarrow> dir_at fs p"
  by (cases fs p rule: node_cases_at)
    (auto simp: path_is_dir_def sys_stat_def no_faults_def lookup_at dir_at_iff split: sum.splits node.splits)

lemma create_dir_deep:
  assumes p: "create_dir_all no_faults p fs = (Inr (), fs2)" "\<And>q. dir_at fs2 q \<longleftrightarrow> dir_at fs q \<or> prefix q p"
      "file_at fs2 = file_at fs"
    and deep: "\<not> dir_at fs p" and nofile: "\<And>q. prefix q (p @ [c]) \<Longrightarrow> file_at fs q = None"
  shows "create_dir_all no_faults (p @ [c]) fs = (Inr (), set_path (p @ [c]) (Dir []) fs2)"
    "node_at fs2 (p @ [c]) = None"
proof -
  have "lookup_path fs p = Inl ENOENT" using nofile deep by (intro lookup_missing) (auto simp: node_at_None_iff)
  then have m: "sys_mkdir no_faults (p @ [c]) fs = (Inl (OsError ENOENT), fs)" by (simp add: sys_mkdir_def no_faults_def)
  have "\<not> dir_at fs (p @ [c])" using deep dir_at_ancestor by blast
  then have nodir: "\<not> dir_at fs2 (p @ [c])" by (simp add: p(2))
  have none: "file_at fs2 (p @ [c]) = None" using nofile by (simp add: p(3))
  have "sys_mkdir no_faults (p @ [c]) fs2 = (Inr (), set_path (p @ [c]) (Dir []) fs2)"
    using sys_mkdir_quiet(2) [OF none] nodir p(2) [of p] by simp
  with m show "create_dir_all no_faults (p @ [c]) fs = (Inr (), set_path (p @ [c]) (Dir []) fs2)"
    by (subst create_dir_all.simps) (simp add: p(1) decode_errno_def)
  show "node_at fs2 (p @ [c]) = None" using nodir none by (simp add: node_at_None_iff)
qed

lemma create_dir_all_quiet:
  assumes "\<And>q. prefix q p \<Longrightarrow> file_at fs q = None"
  shows "\<exists>fs'. create_dir_all no_faults p fs = (Inr (), fs')
    \<and> (\<forall>q. dir_at fs' q \<longleftrightarrow> dir_at fs q \<or> prefix q p) \<and> file_at fs' = file_at fs"
  using assms
proof (induction p rule: rev_induct)
  case Nil
  then have root: "dir_at fs []" by (cases fs) auto
  have mk: "sys_mkdir no_faults [] fs = (Inl (OsError EEXIST), fs)" by (simp add: sys_mkdir_def no_faults_def)
  from root have "create_dir_all no_faults [] fs = (Inr (), fs)"
    using path_is_dir_quiet [of "[]" fs]
    by (subst create_dir_all.simps) (simp add: mk decode_errno_def errno_defs)
  with root show ?case by auto
next
  case (snoc c p)
  have IH: "\<exists>fs'. create_dir_all no_faults p fs = (Inr (), fs')
      \<and> (\<forall>q. dir_at fs' q \<longleftrightarrow> dir_at fs q \<or> prefix q p) \<and> file_at fs' = file_at fs"
    using snoc.prems by (intro snoc.IH) auto
  have nofile: "file_at fs (p @ [c]) = None" "file_at fs p = None" using snoc.prems by auto
  consider (there) "dir_at fs (p @ [c])" | (make) "dir_at fs p" "\<not> dir_at fs (p @ [c])" | (deep) "\<not> dir_at fs p"
    by blast
  then show ?case
  proof cases
    case there
    then have "create_dir_all no_faults (p @ [c]) fs = (Inr (), fs)"
      using sys_mkdir_quiet(1) [OF nofile(1)] path_is_dir_quiet [of "p @ [c]" fs]
      by (subst create_dir_all.simps) (simp add: decode_errno_def errno_defs)
    moreover have "dir_at fs q" if "prefix q (p @ [c])" for q
      using that there dir_at_ancestor [of fs q] by (auto simp: prefix_def)
    ultimately show ?thesis by auto
  next
    case make
    then have "create_dir_all no_faults (p @ [c]) fs = (Inr (), set_path (p @ [c]) (Dir []) fs)"
      using sys_mkdir_quiet(2) [OF nofile(1)] by (subst create_dir_all.simps) simp
    moreover have "dir_at fs q" if "prefix q p" for q
      using that make(1) dir_at_ancestor [of fs q] by (auto simp: prefix_def)
    moreover have "node_at fs (p @ [c]) = None" using make(2) nofile(1) by (simp add: node_at_None_iff)
    ultimately show ?thesis using make_dir [of "p @ [c]" fs] make(1) by auto
  next
    case deep
    from IH obtain fs2 where fs2: "create_dir_all no_faults p fs = (Inr (), fs2)"
        "\<And>q. dir_at fs2 q \<longleftrightarrow> dir_at fs q \<or> prefix q p" "file_at fs2 = file_at fs" by blast
    note all = create_dir_deep [OF fs2 deep snoc.prems]
    with make_dir [of "p @ [c]" fs2] fs2 show ?thesis by auto
  qed
qed

end
