(* ===== verification/Local_Store.thy ===== *)
theory Local_Store
  imports File_System Memory_Store "HOL-Library.Multiset"
begin

text \<open>
  \<open>src/src/local.rs\<close>: the file-system store. The configuration (root and size limit) is a record,
  the state the file tree of \<open>File_System\<close>. A call environment extends the one of the memory store
  with what the operating system and the \<open>tempfile\<close> crate contribute: the random suffix of the
  temporary file, the injected faults, the bytes a failing write left behind, the message texts, and
  \<open>to_string_lossy\<close>.
\<close>

record local_env = call_env +
  strerror :: "nat \<Rightarrow> string"
  tempfile_display :: "io_error \<Rightarrow> string"
  tmp_suffix :: string
  faults_of :: faults
  partial_write :: nat
  to_string_lossy :: "string \<Rightarrow> string"

record local_store =
  root :: path
  max_bytes :: "u64 option"

section \<open>Paths\<close>

text \<open>
  \<open>Path::components\<close> drops empty and \<open>.\<close> components; the kind of the last raw component is what the
  operating system sees of a trailing \<open>/\<close> or \<open>/.\<close>. \<open>Path::join\<close> with an absolute argument replaces.
\<close>

definition norm_components :: "string \<Rightarrow> path" where
  "norm_components s = filter (\<lambda>c. c \<noteq> [] \<and> c \<noteq> ''.'') (split_on (CHR ''/'') s)"

definition str_trail :: "string \<Rightarrow> trail" where
  "str_trail s = (let l = last (split_on (CHR ''/'') s) in
     if l = [] then TrailSlash else if l = ''.'' then TrailDot else Plain)"

definition path_join :: "path \<Rightarrow> string \<Rightarrow> fs_path" where
  "path_join base s =
     (if starts_with s ''/'' then FsPath (norm_components s) (str_trail s)
      else FsPath (base @ norm_components s) (str_trail s))"

definition path_parent :: "fs_path \<Rightarrow> path option" where
  "path_parent p = (if comps p = [] then None else Some (butlast (comps p)))"

definition strip_prefix :: "path \<Rightarrow> path \<Rightarrow> path option" where
  "strip_prefix base p = (if take (length base) p = base then Some (drop (length base) p) else None)"

definition path_string :: "path \<Rightarrow> string" where
  "path_string p = CHR ''/'' # join_with (CHR ''/'') p"

text \<open>The \<open>Display\<close> of \<open>root.join(key)\<close>: the text is joined as it is.\<close>

definition join_display :: "path \<Rightarrow> string \<Rightarrow> string" where
  "join_display base s =
     (if starts_with s ''/'' then s
      else if base = [] then CHR ''/'' # s
      else path_string base @ CHR ''/'' # s)"

section \<open>Construction\<close>

definition local_with_limits ::
  "local_env \<Rightarrow> path \<Rightarrow> u64 option \<Rightarrow> node \<Rightarrow> local_store result \<times> node" where
  "local_with_limits e r limit fs =
     (case create_dir_all (faults_of e) r fs of
        (Inl er, fs1) \<Rightarrow> (Inl (from_io er), fs1)
      | (Inr u, fs1) \<Rightarrow>
          (case sys_stat (faults_of e) (FsPath r Plain) fs1 of
             Inl er \<Rightarrow> (Inl (from_io er), fs1)
           | Inr (File d) \<Rightarrow> (Inl (Other (''not a directory: '' @ path_string r)), fs1)
           | Inr (Dir es) \<Rightarrow> (Inr \<lparr>root = r, max_bytes = limit\<rparr>, fs1)))"

definition local_new :: "local_env \<Rightarrow> path \<Rightarrow> node \<Rightarrow> local_store result \<times> node" where
  "local_new e r fs = local_with_limits e r None fs"

definition local_new_unchecked :: "path \<Rightarrow> local_store" where
  "local_new_unchecked r = \<lparr>root = r, max_bytes = None\<rparr>"

definition local_with_max_bytes :: "u64 option \<Rightarrow> local_store \<Rightarrow> local_store" where
  "local_with_max_bytes limit L = L\<lparr>max_bytes := limit\<rparr>"

section \<open>Operations\<close>

definition local_resolve :: "local_store \<Rightarrow> object_key \<Rightarrow> fs_path result" where
  "local_resolve L key =
     (let p = path_join (root L) (as_str key) in
      if str_contains (as_str key) ''..'' then Inl (invalid_key (''key contains '..'' @ [CHR 0x27]))
      else Inr p)"

definition local_ensure_parent :: "faults \<Rightarrow> fs_path \<Rightarrow> node \<Rightarrow> unit result \<times> node" where
  "local_ensure_parent flt p fs =
     (case path_parent p of
        Some parent \<Rightarrow> (let (r, fs1) = create_dir_all flt parent fs in (map_err from_io r, fs1))
      | None \<Rightarrow> (Inr (), fs))"

definition over_limit :: "u64 option \<Rightarrow> bytes \<Rightarrow> bool" where
  "over_limit limit data =
     (case limit of Some l \<Rightarrow> l < word_of_nat (length data) | None \<Rightarrow> False)"

text \<open>Dropping a \<open>NamedTempFile\<close> unlinks it and ignores the error.\<close>

definition drop_temp :: "faults \<Rightarrow> path \<Rightarrow> node \<Rightarrow> node" where
  "drop_temp flt tmp fs = snd (sys_unlink flt (FsPath tmp Plain) fs)"

text \<open>From the creation of the temporary file to the rename.\<close>

definition local_publish ::
  "local_env \<Rightarrow> path \<Rightarrow> fs_path \<Rightarrow> bytes \<Rightarrow> node \<Rightarrow> blob_id result \<times> node" where
  "local_publish e tmp dest data fs =
     (case sys_create_new (faults_of e) tmp fs of
        (Inl er, fs1) \<Rightarrow> (Inl (Other (''tempfile create: '' @ tempfile_display e er)), fs1)
      | (Inr u, fs1) \<Rightarrow>
     (case sys_write_all (faults_of e) (partial_write e) tmp data fs1 of
        (Inl er, fs2) \<Rightarrow>
          (Inl (Other (''tempfile write: '' @ tempfile_display e er)), drop_temp (faults_of e) tmp fs2)
      | (Inr u, fs2) \<Rightarrow>
     (case sys_flush (faults_of e) tmp of
        Inl er \<Rightarrow>
          (Inl (Other (''tempfile flush: '' @ tempfile_display e er)), drop_temp (faults_of e) tmp fs2)
      | Inr u \<Rightarrow>
     (case sys_sync_all (faults_of e) tmp of
        Inl er \<Rightarrow>
          (Inl (Other (''sync: '' @ io_display (strerror e) er)), drop_temp (faults_of e) tmp fs2)
      | Inr u \<Rightarrow>
     (case sys_rename (faults_of e) tmp dest fs2 of
        (Inl er, fs3) \<Rightarrow> (Inl (from_io er), drop_temp (faults_of e) tmp fs3)
      | (Inr u, fs3) \<Rightarrow> (Inr (blob_id_new (entropy e)), fs3))))))"

definition local_put ::
  "local_store \<Rightarrow> local_env \<Rightarrow> object_key \<Rightarrow> bytes \<Rightarrow> node \<Rightarrow> blob_id result \<times> node" where
  "local_put L e key data fs =
     (if over_limit (max_bytes L) data then (Inl StorageFull, fs)
      else case local_resolve L key of
          Inl err \<Rightarrow> (Inl err, fs)
        | Inr dest \<Rightarrow>
            (case local_ensure_parent (faults_of e) dest fs of
               (Inl err, fs1) \<Rightarrow> (Inl err, fs1)
             | (Inr u, fs1) \<Rightarrow>
                 (let parent = (case path_parent dest of Some p \<Rightarrow> p | None \<Rightarrow> root L);
                      tmp = parent @ [''.blobkit-'' @ tmp_suffix e]
                  in local_publish e tmp dest data fs1)))"

definition local_get :: "local_store \<Rightarrow> local_env \<Rightarrow> object_key \<Rightarrow> node \<Rightarrow> bytes result" where
  "local_get L e key fs = and_then (local_resolve L key) (\<lambda>p.
     case sys_read (faults_of e) p fs of
       Inr v \<Rightarrow> Inr v
     | Inl er \<Rightarrow> if io_kind er = KNotFound then Inl (not_found (as_str key)) else Inl (from_io er))"

definition local_delete ::
  "local_store \<Rightarrow> local_env \<Rightarrow> object_key \<Rightarrow> node \<Rightarrow> unit result \<times> node" where
  "local_delete L e key fs =
     (case local_resolve L key of
        Inl err \<Rightarrow> (Inl err, fs)
      | Inr p \<Rightarrow>
          (case sys_unlink (faults_of e) p fs of
             (Inr u, fs1) \<Rightarrow> (Inr (), fs1)
           | (Inl er, fs1) \<Rightarrow>
               (if io_kind er = KNotFound then Inl (not_found (as_str key)) else Inl (from_io er), fs1)))"

definition local_exists :: "local_store \<Rightarrow> local_env \<Rightarrow> object_key \<Rightarrow> node \<Rightarrow> bool result" where
  "local_exists L e key fs = and_then (local_resolve L key) (\<lambda>p.
     case sys_stat (faults_of e) p fs of
       Inr meta \<Rightarrow> Inr True
     | Inl er \<Rightarrow> if io_kind er = KNotFound then Inr False else Inl (from_io er))"

text \<open>The \<open>file://\<close> URL of the build without \<open>s3\<close>, and the one built with the \<open>url\<close> crate.\<close>

definition local_presigned_url ::
  "local_store \<Rightarrow> local_env \<Rightarrow> object_key \<Rightarrow> u64 \<Rightarrow> node \<Rightarrow> string result" where
  "local_presigned_url L e key expires fs = and_then (local_exists L e key fs) (\<lambda>ex.
     if \<not> ex then Inl (not_found (as_str key))
     else and_then (local_resolve L key) (\<lambda>p.
       Inr (''file://'' @ join_display (root L) (as_str key) @ ''?expires='' @ dec_of_nat (unat expires))))"

definition local_presigned_url_s3 ::
  "(string \<Rightarrow> 'url option) \<Rightarrow> (string \<Rightarrow> string \<Rightarrow> 'url \<Rightarrow> 'url) \<Rightarrow> local_store \<Rightarrow> local_env
     \<Rightarrow> object_key \<Rightarrow> u64 \<Rightarrow> node \<Rightarrow> 'url result" where
  "local_presigned_url_s3 from_file_path append_pair L e key expires fs =
     and_then (local_resolve L key) (\<lambda>p.
     and_then (local_exists L e key fs) (\<lambda>ex.
       if \<not> ex then Inl (not_found (as_str key))
       else case from_file_path (join_display (root L) (as_str key)) of
           None \<Rightarrow> Inl (Other ''failed to construct file URL'')
         | Some u \<Rightarrow> Inr (append_pair ''expires'' (dec_of_nat (unat expires)) u)))"

section \<open>Listing\<close>

text \<open>
  The walk keeps a stack of directories (its top is the head of the list) and the keys found so far.
  A subdirectory is entered only if its relative path and the prefix are comparable; a file is kept
  if its relative path is UTF-8, has the prefix and is a valid key.
\<close>

definition local_keep_dir :: "(string \<Rightarrow> string) \<Rightarrow> path \<Rightarrow> string \<Rightarrow> path \<Rightarrow> bool" where
  "local_keep_dir lossy r pre p =
     (case strip_prefix r p of
        Some relative \<Rightarrow>
          (let dir_prefix = lossy (join_with (CHR ''/'') relative) @ ''/''
           in pre = [] \<or> starts_with pre dir_prefix \<or> starts_with dir_prefix pre)
      | None \<Rightarrow> False)"

definition local_file_key :: "path \<Rightarrow> string \<Rightarrow> path \<Rightarrow> object_key option" where
  "local_file_key r pre p =
     (case strip_prefix r p of
        None \<Rightarrow> None
      | Some relative \<Rightarrow>
          (let rel = join_with (CHR ''/'') relative in
           if \<not> utf8_valid rel then None
           else if \<not> starts_with rel pre then None
           else (case key_new rel of Inr key \<Rightarrow> Some key | Inl err \<Rightarrow> None)))"

fun scan_entries ::
  "(string \<Rightarrow> string) \<Rightarrow> path \<Rightarrow> string \<Rightarrow> path \<Rightarrow> (string \<times> node) list
     \<Rightarrow> path list \<times> object_key list \<Rightarrow> path list \<times> object_key list" where
  "scan_entries lossy r pre dir [] (stack, out) = (stack, out)"
| "scan_entries lossy r pre dir ((name, Dir sub) # es) (stack, out) =
     scan_entries lossy r pre dir es
       (if local_keep_dir lossy r pre (dir @ [name]) then (dir @ [name]) # stack else stack, out)"
| "scan_entries lossy r pre dir ((name, File d) # es) (stack, out) =
     scan_entries lossy r pre dir es
       (stack, case local_file_key r pre (dir @ [name]) of Some key \<Rightarrow> out @ [key] | None \<Rightarrow> out)"

fun node_count :: "node \<Rightarrow> nat" where
  "node_count (File d) = 1"
| "node_count (Dir es) = Suc (sum_list (map (\<lambda>(c, n). node_count n) es))"

lemma node_count_entry: "(c, n) \<in> set es \<Longrightarrow> node_count n < node_count (Dir es)"
  using member_le_sum_list [of "node_count n" "map (\<lambda>(c, n). node_count n) es"] by force

definition weight :: "node \<Rightarrow> path \<Rightarrow> nat" where
  "weight fs p = (case node_at fs p of None \<Rightarrow> 0 | Some n \<Rightarrow> node_count n)"

lemma scan_stack:
  "fst (scan_entries lossy r pre dir es (stack, out)) =
     rev (map (\<lambda>(c, n). dir @ [c])
       (filter (\<lambda>(c, n). dir_at n [] \<and> local_keep_dir lossy r pre (dir @ [c])) es)) @ stack"
  by (induction lossy r pre dir es "(stack, out)" arbitrary: stack out rule: scan_entries.induct) auto

lemma scan_out:
  "snd (scan_entries lossy r pre dir es (stack, out)) =
     out @ List.map_filter (\<lambda>(c, n). if dir_at n [] then None else local_file_key r pre (dir @ [c])) es"
  by (induction lossy r pre dir es "(stack, out)" arbitrary: stack out rule: scan_entries.induct)
     (auto simp: List.map_filter_def split: option.splits)

lemma walk_decreases:
  assumes "node_at fs dir = Some (Dir es)"
  shows "(mset (map (weight fs) (fst (scan_entries lossy r pre dir es (stack, out)))),
          mset (map (weight fs) (dir # stack))) \<in> mult less_than"
proof -
  define new where "new = map (\<lambda>(c, n). dir @ [c])
       (filter (\<lambda>(c, n). dir_at n [] \<and> local_keep_dir lossy r pre (dir @ [c])) es)"
  have scan: "fst (scan_entries lossy r pre dir es (stack, out)) = rev new @ stack"
    by (simp only: scan_stack new_def)
  have "weight fs p < weight fs dir" if p: "p \<in> set new" for p
  proof -
    from p obtain c n where c: "p = dir @ [c]" "(c, n) \<in> set es"
      by (auto simp: new_def)
    then obtain m where "map_of es c = Some m" by (metis weak_map_of_SomeI)
    then have "node_at fs p = Some m" and "(c, m) \<in> set es"
      using assms c by (auto simp: node_at_append dest: map_of_SomeD)
    then show ?thesis using assms node_count_entry [of c m es] by (simp add: weight_def)
  qed
  then have "(mset (map (weight fs) stack) + mset (map (weight fs) new),
      mset (map (weight fs) stack) + {#weight fs dir#}) \<in> mult less_than"
    by (intro one_step_implies_mult) auto
  then show ?thesis by (simp add: scan add.commute)
qed

function local_walk ::
  "faults \<Rightarrow> (string \<Rightarrow> string) \<Rightarrow> path \<Rightarrow> string \<Rightarrow> node \<Rightarrow> path list \<Rightarrow> object_key list
     \<Rightarrow> object_key list result" where
  "local_walk flt lossy r pre fs [] out = Inr out"
| "local_walk flt lossy r pre fs (dir # stack) out =
     (case sys_read_dir flt dir fs of
        Inl er \<Rightarrow> Inl (from_io er)
      | Inr es \<Rightarrow>
          local_walk flt lossy r pre fs
            (fst (scan_entries lossy r pre dir es (stack, out)))
            (snd (scan_entries lossy r pre dir es (stack, out))))"
  by pat_completeness auto
termination
proof (relation "inv_image (mult less_than) (\<lambda>(flt, lossy, r, pre, fs, stack, out).
    mset (map (weight fs) stack))", goal_cases)
  case 1
  show ?case by (simp add: wf_mult)
next
  case (2 flt lossy r pre fs dir stack out es)
  then have "node_at fs dir = Some (Dir es)"
    by (auto simp: sys_read_dir_def split: option.splits sum.splits node.splits)
  from walk_decreases [OF this] show ?case by (simp add: case_prod_beta)
qed

definition local_list :: "local_store \<Rightarrow> local_env \<Rightarrow> string \<Rightarrow> node \<Rightarrow> object_key list result" where
  "local_list L e pre fs =
     and_then (local_walk (faults_of e) (to_string_lossy e) (root L) pre fs [root L] [])
       (\<lambda>out. Inr (sort out))"

definition local_ops :: "local_store \<Rightarrow> (local_env, node) blob_ops" where
  "local_ops L =
     \<lparr>op_put = local_put L,
      op_get = local_get L,
      op_delete = local_delete L,
      op_exists = local_exists L,
      op_list = local_list L,
      op_presigned_url = local_presigned_url L\<rparr>"

text \<open>Without \<open>std\<close> the store is a stub.\<close>

definition local_nostd_ops :: "('e, unit) blob_ops" where
  "local_nostd_ops =
     \<lparr>op_put = (\<lambda>e key data s. (Inl (unsupported ''LocalStore requires std feature''), s)),
      op_get = (\<lambda>e key s. Inl (unsupported ''LocalStore requires std feature'')),
      op_delete = (\<lambda>e key s. (Inl (unsupported ''LocalStore requires std feature''), s)),
      op_exists = (\<lambda>e key s. Inl (unsupported ''LocalStore requires std feature'')),
      op_list = default_list,
      op_presigned_url = (\<lambda>e key expires s. Inl (unsupported ''LocalStore requires std feature''))\<rparr>"

end
