(* ===== verification/Local_Laws.thy ===== *)
theory Local_Laws
  imports Local_Store
begin

text \<open>
  What the operations of the file-system store change, in terms of the map \<^const>\<open>file_at\<close>, and the
  contract \<^const>\<open>blob_store\<close> for them. Every law holds under arbitrary injected faults; the ones about
  calls that must succeed ask for none.
\<close>

section \<open>Publishing a payload\<close>

lemma drop_temp_effect:
  assumes "file_at fs tmp = Some x" "tmp \<noteq> []"
  shows "(\<forall>q. q \<noteq> tmp \<longrightarrow> file_at (drop_temp flt tmp fs) q = file_at fs q)
    \<and> dir_at (drop_temp flt tmp fs) = dir_at fs
    \<and> (flt (SysUnlink (FsPath tmp Plain)) = None \<longrightarrow> file_at (drop_temp flt tmp fs) tmp = None)"
proof -
  obtain r fs' where u: "sys_unlink flt (FsPath tmp Plain) fs = (r, fs')"
    by (cases "sys_unlink flt (FsPath tmp Plain) fs")
  have "is_ok r" if "flt (SysUnlink (FsPath tmp Plain)) = None"
    using u assms that by (auto simp: sys_unlink_def file_at_iff lookup_at)
  then show ?thesis
    using sys_unlink_effect(1,2) [OF u] by (auto simp: drop_temp_def u)
qed

lemma local_publish_effect:
  assumes "local_publish e tmp dest d fs = (r, fs')" "tmp \<noteq> comps dest"
  shows "(\<forall>q. q \<noteq> tmp \<longrightarrow> file_at fs' q = (if is_ok r \<and> q = comps dest then Some d else file_at fs q))
    \<and> dir_at fs' = dir_at fs
    \<and> (faults_of e (SysUnlink (FsPath tmp Plain)) = None \<longrightarrow> file_at fs' tmp = file_at fs tmp)
    \<and> (is_ok r \<longrightarrow> trail dest = Plain \<and> file_at fs' tmp = None \<and> file_at fs tmp = None)"
proof -
  let ?flt = "faults_of e"
  obtain r1 fs1 where mk: "sys_create_new ?flt tmp fs = (r1, fs1)" by (cases "sys_create_new ?flt tmp fs")
  show ?thesis
  proof (cases r1)
    case (Inl er)
    with assms(1) mk sys_create_new_fail [of ?flt tmp fs] show ?thesis by (auto simp: local_publish_def)
  next
    case (Inr u)
    note c = sys_create_new_effect [OF mk [unfolded Inr]]
    obtain r2 fs2 where wr: "sys_write_all ?flt (partial_write e) tmp d fs1 = (r2, fs2)"
      by (cases "sys_write_all ?flt (partial_write e) tmp d fs1")
    note w = sys_write_all_effect [OF wr _ c(1), unfolded c(3), simplified]
    obtain r3 fs3 where rn: "sys_rename ?flt tmp dest fs2 = (r3, fs3)" by (cases "sys_rename ?flt tmp dest fs2")
    have tmp2: "file_at fs2 tmp = Some (if is_ok r2 then d else take (partial_write e) d)" by (simp add: w)
    note n = sys_rename_effect [OF rn tmp2 c(1) assms(2)]
    have old: "file_at fs tmp = None" using c(2) by (simp add: node_at_None_iff)
    note drop2 = drop_temp_effect [OF tmp2 c(1), of ?flt]
    from assms mk Inr wr rn w n c old drop2 show ?thesis
      by (auto simp: local_publish_def fun_eq_iff split: sum.splits if_splits)
  qed
qed

section \<open>Storable keys\<close>

text \<open>
  The keys the store can hold without ambiguity: valid, no \<open>..\<close> anywhere (\<open>resolve\<close> rejects it), no
  \<open>.\<close> component (the file system drops it) and a last component that cannot be a temporary file's.
  Rust strings are UTF-8.
\<close>

definition local_ok_key :: "object_key \<Rightarrow> bool" where
  "local_ok_key k \<longleftrightarrow> key_wf k \<and> \<not> str_contains (as_str k) ''..'' \<and> ''.'' \<notin> set (key_components k)
     \<and> \<not> starts_with (last (key_components k)) ''.blobkit-'' \<and> utf8_valid (as_str k)"

definition local_env_ok :: "local_env \<Rightarrow> bool" where
  "local_env_ok e \<longleftrightarrow> CHR ''/'' \<notin> set (tmp_suffix e)
     \<and> (\<forall>s. utf8_valid s \<longrightarrow> to_string_lossy e s = s)
     \<and> (\<forall>c er. faults_of e c = Some er \<longrightarrow> io_kind er \<noteq> KNotFound)"

definition local_quiet :: "local_env \<Rightarrow> bool" where
  "local_quiet e \<longleftrightarrow> faults_of e = no_faults"

definition key_path :: "local_store \<Rightarrow> object_key \<Rightarrow> path" where
  "key_path L k = root L @ key_components k"

definition tmp_path :: "local_store \<Rightarrow> local_env \<Rightarrow> object_key \<Rightarrow> path" where
  "tmp_path L e k = butlast (key_path L k) @ [''.blobkit-'' @ tmp_suffix e]"

definition local_view :: "local_store \<Rightarrow> node \<Rightarrow> object_key \<Rightarrow> bytes option" where
  "local_view L fs k = file_at fs (key_path L k)"

definition local_invar :: "local_store \<Rightarrow> node \<Rightarrow> bool" where
  "local_invar L fs \<longleftrightarrow> fs_wf fs \<and> list_all name_ok (root L)"

lemma key_path_neq_Nil [simp]: "key_path L k \<noteq> []"
  by (simp add: key_path_def)

lemma key_path_inj [simp]: "key_path L j = key_path L k \<longleftrightarrow> j = k"
  by (simp add: key_path_def key_components_inj)

lemma ok_key_names:
  assumes "local_ok_key k"
  shows "list_all name_ok (key_components k)"
  using assms key_wf_components [of k] by (auto simp: list_all_iff name_ok_def local_ok_key_def)

lemma ok_key_resolve:
  assumes "local_ok_key k"
  shows "local_resolve L k = Inr (FsPath (key_path L k) Plain)"
proof -
  have names: "list_all name_ok (key_components k)" by (rule ok_key_names [OF assms])
  then have "name_ok (last (key_components k))" by (simp add: list_all_iff)
  moreover have "norm_components (as_str k) = key_components k"
    using names by (auto simp: norm_components_def key_components_def list_all_iff name_ok_def intro!: filter_True)
  moreover have "\<not> starts_with (as_str k) ''/''"
    using assms empty_piece_iff [of "as_str k" "CHR ''/''"] by (auto simp: local_ok_key_def key_wf_def key_str_wf_def)
  ultimately show ?thesis
    using assms by (simp add: local_resolve_def path_join_def str_trail_def key_path_def Let_def name_ok_def
        local_ok_key_def key_components_def)
qed

lemma tmp_not_key:
  assumes "local_ok_key j"
  shows "key_path L j \<noteq> tmp_path L e k"
proof
  assume "key_path L j = tmp_path L e k"
  then have "last (key_path L j) = ''.blobkit-'' @ tmp_suffix e" by (simp add: tmp_path_def)
  then have "last (key_components j) = ''.blobkit-'' @ tmp_suffix e" by (simp add: key_path_def)
  with assms show False by (simp add: local_ok_key_def str_simps)
qed

section \<open>The effect of put\<close>

lemma local_put_effect:
  assumes "local_ok_key k" "local_put L e k d fs = (r, fs')"
  shows "(\<forall>q. q \<noteq> tmp_path L e k \<longrightarrow> file_at fs' q = (if is_ok r \<and> q = key_path L k then Some d else file_at fs q))
    \<and> (\<forall>q. dir_at fs q \<longrightarrow> dir_at fs' q)
    \<and> (faults_of e (SysUnlink (FsPath (tmp_path L e k) Plain)) = None \<longrightarrow>
        file_at fs' (tmp_path L e k) = file_at fs (tmp_path L e k))"
proof (cases "over_limit (max_bytes L) d")
  case True
  with assms(2) show ?thesis by (auto simp: local_put_def)
next
  case False
  let ?dest = "FsPath (key_path L k) Plain"
  obtain r1 fs1 where dirs: "create_dir_all (faults_of e) (butlast (key_path L k)) fs = (r1, fs1)"
    by (cases "create_dir_all (faults_of e) (butlast (key_path L k)) fs")
  note c = create_dir_all_effect [OF dirs]
  obtain r2 fs2 where pub: "local_publish e (tmp_path L e k) ?dest d fs1 = (r2, fs2)"
    by (cases "local_publish e (tmp_path L e k) ?dest d fs1")
  have "tmp_path L e k \<noteq> comps ?dest" using tmp_not_key [OF assms(1), of L e k] by simp
  note p = local_publish_effect [OF pub this]
  from assms(2) False dirs pub c p show ?thesis
    by (auto simp: local_put_def ok_key_resolve [OF assms(1)] local_ensure_parent_def path_parent_def Let_def
        tmp_path_def split: sum.splits)
qed

section \<open>The effect of delete, get and exists\<close>

lemma local_delete_effect:
  assumes "local_ok_key k" "local_delete L e k fs = (r, fs')"
  shows "file_at fs' = (if is_ok r then (file_at fs)(key_path L k := None) else file_at fs)
    \<and> dir_at fs' = dir_at fs \<and> (is_ok r \<longrightarrow> local_view L fs k \<noteq> None)"
proof -
  obtain r1 fs1 where u: "sys_unlink (faults_of e) (FsPath (key_path L k) Plain) fs = (r1, fs1)"
    by (cases "sys_unlink (faults_of e) (FsPath (key_path L k) Plain) fs")
  note eff = sys_unlink_effect [OF u]
  from assms(2) u eff show ?thesis
    by (cases r1) (auto simp: local_delete_def ok_key_resolve [OF assms(1)] local_view_def split: if_splits)
qed

lemma local_get_view: "local_ok_key k \<Longrightarrow> local_get L e k fs = Inr d \<Longrightarrow> local_view L fs k = Some d"
  by (auto simp: local_get_def ok_key_resolve sys_read_def local_view_def file_at_iff
      split: option.splits sum.splits node.splits if_splits)

lemma local_get_quiet:
  "local_ok_key k \<Longrightarrow> local_quiet e \<Longrightarrow> local_view L fs k = Some d \<Longrightarrow> local_get L e k fs = Inr d"
  by (auto simp: local_get_def ok_key_resolve sys_read_def local_view_def file_at_iff local_quiet_def
      no_faults_def lookup_at)

lemma local_exists_stored:
  "local_ok_key k \<Longrightarrow> local_quiet e \<Longrightarrow> local_view L fs k = Some d \<Longrightarrow> local_exists L e k fs = Inr True"
  by (auto simp: local_exists_def ok_key_resolve sys_stat_def local_view_def file_at_iff local_quiet_def
      no_faults_def lookup_at)

lemma local_exists_False:
  assumes "local_ok_key k" "local_env_ok e" "local_exists L e k fs = Inr False"
  shows "local_view L fs k = None"
  using assms by (cases fs "key_path L k" rule: node_cases_at)
    (auto simp: local_exists_def ok_key_resolve sys_stat_def local_view_def local_env_ok_def lookup_at
      split: option.splits sum.splits if_splits)

section \<open>Well-formed trees\<close>

lemma local_publish_wf:
  assumes "fs_wf fs" "list_all name_ok tmp" "list_all name_ok (comps dest)"
  shows "fs_wf (snd (local_publish e tmp dest d fs))"
proof -
  let ?flt = "faults_of e"
  obtain r1 fs1 where mk: "sys_create_new ?flt tmp fs = (r1, fs1)" by (cases "sys_create_new ?flt tmp fs")
  obtain r2 fs2 where wr: "sys_write_all ?flt (partial_write e) tmp d fs1 = (r2, fs2)"
    by (cases "sys_write_all ?flt (partial_write e) tmp d fs1")
  obtain r3 fs3 where rn: "sys_rename ?flt tmp dest fs2 = (r3, fs3)" by (cases "sys_rename ?flt tmp dest fs2")
  have "fs_wf fs1" using fs_wf_calls(2) [OF assms(1,2), of ?flt] mk by simp
  moreover from this have "fs_wf fs2" using fs_wf_calls(3) [OF _ assms(2), of fs1 ?flt "partial_write e" d] wr by simp
  moreover from this have "fs_wf fs3" using fs_wf_calls(5) [OF _ assms(3), of fs2 ?flt tmp] rn by simp
  ultimately show ?thesis
    by (auto simp: local_publish_def mk wr rn drop_temp_def fs_wf_calls(4) split: sum.splits)
qed

lemma tmp_name_ok: "local_env_ok e \<Longrightarrow> name_ok (''.blobkit-'' @ tmp_suffix e)"
  by (auto simp: name_ok_def local_env_ok_def)

lemma key_path_names: "local_ok_key k \<Longrightarrow> list_all name_ok (root L) \<Longrightarrow> list_all name_ok (key_path L k)"
  by (simp add: key_path_def ok_key_names)

lemma local_put_wf:
  assumes "local_invar L fs" "local_env_ok e" "local_ok_key k"
  shows "fs_wf (snd (local_put L e k d fs))"
proof -
  have names: "list_all name_ok (key_path L k)" "list_all name_ok (butlast (key_path L k))"
    using assms key_path_names [of k L] by (auto simp: local_invar_def list_all_butlast)
  obtain r1 fs1 where dirs: "create_dir_all (faults_of e) (butlast (key_path L k)) fs = (r1, fs1)"
    by (cases "create_dir_all (faults_of e) (butlast (key_path L k)) fs")
  have "fs_wf fs" using assms(1) by (simp add: local_invar_def)
  moreover from this have "fs_wf fs1" using fs_wf_create_dir_all [OF _ names(2), of fs "faults_of e"] dirs by simp
  moreover from this have "fs_wf (snd (local_publish e (tmp_path L e k) (FsPath (key_path L k) Plain) d fs1))"
    using local_publish_wf names tmp_name_ok [OF assms(2)] by (simp add: tmp_path_def)
  ultimately show ?thesis
    by (auto simp: local_put_def ok_key_resolve [OF assms(3)] local_ensure_parent_def path_parent_def
        dirs tmp_path_def Let_def split: sum.splits)
qed

lemma local_delete_wf: "fs_wf fs \<Longrightarrow> fs_wf (snd (local_delete L e k fs))"
  using fs_wf_calls(4) [of fs "faults_of e"]
  by (auto simp: local_delete_def split: sum.splits prod.splits) (metis snd_conv)+

section \<open>A put that must succeed\<close>

lemma local_publish_quiet:
  assumes "faults_of e = no_faults" "tmp \<noteq> []" "dir_at fs (butlast tmp)" "node_at fs tmp = None"
    and "p \<noteq> []" "butlast p = butlast tmp" "\<not> dir_at fs p" "p \<noteq> tmp"
  shows "\<exists>fs'. local_publish e tmp (FsPath p Plain) d fs = (Inr (blob_id_new (entropy e)), fs')"
proof -
  let ?flt = "faults_of e"
  obtain fs1 where mk: "sys_create_new ?flt tmp fs = (Inr (), fs1)"
    using assms(1-4) by (auto simp: sys_create_new_def no_faults_def dir_at_iff lookup_at)
  note c = sys_create_new_effect [OF mk]
  obtain fs2 where wr: "sys_write_all ?flt (partial_write e) tmp d fs1 = (Inr (), fs2)"
    using assms(1) by (auto simp: sys_write_all_def no_faults_def)
  have fs2: "file_at fs2 tmp = Some d" "dir_at fs2 = dir_at fs"
    using sys_write_all_effect [OF wr _ c(1), unfolded c(3), simplified] c(4) by (auto simp: fun_eq_iff)
  obtain fs3 where rn: "sys_rename ?flt tmp (FsPath p Plain) fs2 = (Inr (), fs3)"
  proof -
    have "dir_at fs2 (butlast p)" using fs2(2) assms(3,6) by simp
    then obtain es where "node_at fs2 (butlast p) = Some (Dir es)" by (auto simp: dir_at_iff)
    then show ?thesis
      using that assms(1,5,7) fs2 by (auto simp: sys_rename_def no_faults_def lookup_at)
  qed
  have "sys_flush ?flt tmp = Inr ()" "sys_sync_all ?flt tmp = Inr ()"
    using assms(1) by (simp_all add: sys_flush_def sys_sync_all_def no_faults_def)
  with mk wr rn show ?thesis by (simp add: local_publish_def)
qed

lemma strict_prefix_butlast:
  assumes "prefix q (butlast xs)" "xs \<noteq> []"
  shows "strict_prefix q xs"
proof -
  have "prefix q xs" using assms(1) prefixeq_butlast [of xs] by (rule prefix_order.trans)
  moreover have "length q < length xs" using prefix_length_le [OF assms(1)] length_greater_0_conv [of xs] assms(2) unfolding length_butlast by linarith
  ultimately show ?thesis by (auto simp: strict_prefix_def)
qed

lemma local_put_quiet:
  assumes "local_ok_key k" "local_quiet e" "\<not> over_limit (max_bytes L) d"
    and "\<And>q. strict_prefix q (key_path L k) \<Longrightarrow> file_at fs q = None"
    and "\<not> dir_at fs (key_path L k)" "node_at fs (tmp_path L e k) = None"
  shows "\<exists>fs'. local_put L e k d fs = (Inr (blob_id_new (entropy e)), fs')
    \<and> file_at fs' = (file_at fs)(key_path L k \<mapsto> d)
    \<and> (\<forall>q. dir_at fs' q \<longleftrightarrow> dir_at fs q \<or> prefix q (butlast (key_path L k)))"
proof -
  let ?par = "butlast (key_path L k)"
  have "prefix q ?par \<Longrightarrow> file_at fs q = None" for q
    using assms(4) [of q] strict_prefix_butlast [of q "key_path L k"] by simp
  from create_dir_all_quiet [OF this] obtain fs1 where dirs: "create_dir_all no_faults ?par fs = (Inr (), fs1)"
      "\<And>q. dir_at fs1 q \<longleftrightarrow> dir_at fs q \<or> prefix q ?par" "file_at fs1 = file_at fs" by blast
  have np: "\<not> prefix (key_path L k) ?par" using strict_prefix_butlast [of "key_path L k" "key_path L k"] by auto
  have longer: "\<not> prefix (?par @ [x]) ?par" for x by (simp add: prefix_def)
  have "\<not> dir_at fs1 (key_path L k)" using dirs(2) [of "key_path L k"] assms(5) np by blast
  moreover have "node_at fs1 (tmp_path L e k) = None"
    using assms(6) dirs(2,3) longer by (simp add: node_at_None_iff tmp_path_def)
  ultimately have "\<exists>fs'. local_publish e (tmp_path L e k) (FsPath (key_path L k) Plain) d fs1
      = (Inr (blob_id_new (entropy e)), fs')"
  proof (intro local_publish_quiet)
    show "faults_of e = no_faults" using assms(2) by (simp add: local_quiet_def)
    show "tmp_path L e k \<noteq> []" "butlast (key_path L k) = butlast (tmp_path L e k)"
      by (simp_all add: tmp_path_def)
    show "dir_at fs1 (butlast (tmp_path L e k))" using dirs(2) by (simp add: tmp_path_def)
    show "key_path L k \<noteq> tmp_path L e k" by (rule tmp_not_key [OF assms(1)])
  qed auto
  then obtain fs2 where pub: "local_publish e (tmp_path L e k) (FsPath (key_path L k) Plain) d fs1
      = (Inr (blob_id_new (entropy e)), fs2)" by blast
  with assms(2,3) dirs(1) have put: "local_put L e k d fs = (Inr (blob_id_new (entropy e)), fs2)"
    by (simp add: local_put_def ok_key_resolve [OF assms(1)] local_ensure_parent_def path_parent_def
        local_quiet_def tmp_path_def Let_def)
  have upd: "file_at fs2 q = ((file_at fs)(key_path L k \<mapsto> d)) q" for q
    using local_put_effect [OF assms(1) put] assms(2) tmp_not_key [OF assms(1), of L e k]
    by (cases "q = tmp_path L e k") (auto simp: local_quiet_def no_faults_def)
  have "dir_at fs2 = dir_at fs1"
    using local_publish_effect [OF pub] tmp_not_key [OF assms(1), of L e k] by simp
  moreover from upd have "file_at fs2 = (file_at fs)(key_path L k \<mapsto> d)" by (rule ext)
  ultimately show ?thesis using put dirs(2) by auto
qed

end
