(* ===== verification/Local_Walk.thy ===== *)
theory Local_Walk
  imports Local_Laws
begin

text \<open>
  The listing of the file-system store against a specification: the keys of all files below the
  root, by recursion over the tree. The iterative walk with its pruning by prefix finds the same
  multiset of keys, whatever the order of the directory entries.
\<close>

fun tree_files :: "node \<Rightarrow> path list" where
  "tree_files (File d) = [[]]"
| "tree_files (Dir es) = concat (map (\<lambda>(c, n). map ((#) c) (tree_files n)) es)"

definition keys_below :: "path \<Rightarrow> string \<Rightarrow> path \<Rightarrow> node \<Rightarrow> object_key multiset" where
  "keys_below r pre p n = mset (List.map_filter (\<lambda>q. local_file_key r pre (p @ q)) (tree_files n))"

section \<open>Files of a tree\<close>

lemma fs_wf_node_at: "fs_wf n \<Longrightarrow> node_at n p = Some m \<Longrightarrow> fs_wf m"
proof (induction p arbitrary: n)
  case Nil
  then show ?case by simp
next
  case (Cons c p)
  then show ?case
    by (cases n) (auto simp del: fs_wf.simps split: option.splits dest: fs_wf_map_of)
qed

lemma wf_entry: "fs_wf (Dir es) \<Longrightarrow> (c, n) \<in> set es \<Longrightarrow> map_of es c = Some n \<and> name_ok c \<and> fs_wf n"
  by auto

lemma tree_files_file_at: "fs_wf n \<Longrightarrow> q \<in> set (tree_files n) \<longleftrightarrow> file_at n q \<noteq> None"
proof (induction n arbitrary: q rule: tree_files.induct)
  case (1 d)
  then show ?case by (cases q) auto
next
  case (2 es)
  have "q \<in> set (tree_files (Dir es)) \<longleftrightarrow> (\<exists>c n qs. (c, n) \<in> set es \<and> q = c # qs \<and> qs \<in> set (tree_files n))"
    by auto
  also have "\<dots> \<longleftrightarrow> (\<exists>c n qs. map_of es c = Some n \<and> q = c # qs \<and> file_at n qs \<noteq> None)"
    using "2.IH" wf_entry [OF "2.prems"] by (metis map_of_SomeD case_prod_conv)
  also have "\<dots> \<longleftrightarrow> file_at (Dir es) q \<noteq> None"
    by (cases q) (auto split: option.splits)
  finally show ?case .
qed

lemma tree_files_distinct: "fs_wf n \<Longrightarrow> distinct (tree_files n)"
proof (induction n rule: tree_files.induct)
  case (1 d)
  then show ?case by simp
next
  case (2 es)
  from "2.prems" "2.IH" show ?case
  proof (induction es)
    case Nil
    then show ?case by simp
  next
    case (Cons p es)
    obtain c n where p: "p = (c, n)" by (cases p)
    with Cons have "distinct (tree_files n)" "c \<notin> fst ` set es" "distinct (tree_files (Dir es))" by auto
    then show ?case by (force simp: p distinct_map)
  qed
qed

lemma tree_files_names: "fs_wf n \<Longrightarrow> q \<in> set (tree_files n) \<Longrightarrow> list_all name_ok q"
proof (induction n arbitrary: q rule: tree_files.induct)
  case (2 es)
  then obtain c n qs where q: "q = c # qs" "(c, n) \<in> set es" "qs \<in> set (tree_files n)" by auto
  with wf_entry [OF "2.prems"(1) q(2)] "2.IH" show ?case by auto
qed simp

section \<open>The key of a file\<close>

lemma strip_prefix_append [simp]: "strip_prefix r (r @ q) = Some q"
  by (simp add: strip_prefix_def)

lemma local_file_key_new:
  "local_file_key r pre (r @ q) = Some k \<longleftrightarrow> utf8_valid (join_with (CHR ''/'') q)
     \<and> starts_with (join_with (CHR ''/'') q) pre \<and> key_new (join_with (CHR ''/'') q) = Inr k"
  by (auto simp: local_file_key_def Let_def split: sum.splits)

lemma components_of_join:
  assumes "list_all name_ok q" "q \<noteq> []"
  shows "key_components (ObjectKey (join_with (CHR ''/'') q)) = q"
  using assms split_join [of q "CHR ''/''"] by (simp add: key_components_def list_all_iff name_ok_def)

lemma local_file_key_iff:
  assumes "list_all name_ok q"
  shows "local_file_key r pre (r @ q) = Some k \<longleftrightarrow>
    key_wf k \<and> utf8_valid (as_str k) \<and> starts_with (as_str k) pre \<and> q = key_components k"
    (is "_ \<longleftrightarrow> ?R")
proof
  assume "local_file_key r pre (r @ q) = Some k"
  then have k: "k = ObjectKey (join_with (CHR ''/'') q)" "key_str_wf (as_str k)" "utf8_valid (as_str k)"
      "starts_with (as_str k) pre"
    by (auto simp: local_file_key_new key_new_Inr)
  moreover have "q \<noteq> []"
  proof
    assume "q = []"
    with k(1,2) show False by (simp add: key_str_wf_def)
  qed
  ultimately show ?R using components_of_join [OF assms] by (simp add: key_wf_def)
next
  assume ?R
  then show "local_file_key r pre (r @ q) = Some k"
    by (simp add: local_file_key_new key_new_Inr key_wf_def)
qed

section \<open>Pruning loses nothing\<close>

lemma pruned_empty:
  assumes "\<not> local_keep_dir lossy r pre (r @ d)" "\<And>s. utf8_valid s \<Longrightarrow> lossy s = s" "q \<noteq> []" "d \<noteq> []"
  shows "local_file_key r pre (r @ d @ q) = None"
proof (rule ccontr)
  assume "local_file_key r pre (r @ d @ q) \<noteq> None"
  then have below: "utf8_valid (join_with (CHR ''/'') (d @ q))" "starts_with (join_with (CHR ''/'') (d @ q)) pre"
    using local_file_key_new [of r pre "d @ q"] by auto
  let ?dp = "join_with (CHR ''/'') d @ ''/''"
  have join: "join_with (CHR ''/'') (d @ q) = ?dp @ join_with (CHR ''/'') q"
    using assms(3,4) by (simp add: join_with_append)
  have "utf8_valid (join_with (CHR ''/'') d)"
    using below(1) by (simp add: utf8_valid_join)
  then have "\<not> prefix ?dp pre" "\<not> prefix pre ?dp"
    using assms(1,2) by (auto simp: local_keep_dir_def Let_def str_simps)
  moreover have "prefix pre (?dp @ join_with (CHR ''/'') q)" "prefix ?dp (?dp @ join_with (CHR ''/'') q)"
    using below(2) by (auto simp: join str_simps)
  ultimately show False using prefix_same_cases by blast
qed

lemma map_filter_empty: "(\<And>x. x \<in> set xs \<Longrightarrow> f x = None) \<Longrightarrow> List.map_filter f xs = []"
  by (induction xs) (auto simp: List.map_filter_def)

lemma keys_below_pruned:
  assumes "\<not> local_keep_dir lossy r pre (r @ d)" "\<And>s. utf8_valid s \<Longrightarrow> lossy s = s" "d \<noteq> []"
  shows "keys_below r pre (r @ d) (Dir es) = {#}"
  using pruned_empty [OF assms(1,2) _ assms(3)] by (auto simp: keys_below_def intro!: map_filter_empty)

lemma set_map_filter_iff: "y \<in> set (List.map_filter f xs) \<longleftrightarrow> (\<exists>x \<in> set xs. f x = Some y)"
  by (induction xs) (auto simp: List.map_filter_def split: option.splits)

lemma map_filter_distinct:
  "distinct xs \<Longrightarrow> (\<And>x y z. x \<in> set xs \<Longrightarrow> y \<in> set xs \<Longrightarrow> f x = Some z \<Longrightarrow> f y = Some z \<Longrightarrow> x = y)
    \<Longrightarrow> distinct (List.map_filter f xs)"
proof (induction xs)
  case Nil
  then show ?case by (simp add: List.map_filter_def)
next
  case (Cons x xs)
  have IH: "distinct (List.map_filter f xs)"
    using Cons.prems by (intro Cons.IH) auto
  show ?case
  proof (cases "f x")
    case None
    with IH show ?thesis by (simp add: List.map_filter_def)
  next
    case (Some z)
    with Cons.prems have "z \<notin> set (List.map_filter f xs)"
      by (auto simp: set_map_filter_iff)
    with IH Some show ?thesis by (simp add: List.map_filter_def)
  qed
qed

section \<open>The walk finds exactly the keys below the root\<close>

lemma map_filter_append [simp]: "List.map_filter f (xs @ ys) = List.map_filter f xs @ List.map_filter f ys"
  by (simp add: List.map_filter_def)

lemma keys_below_Dir: "keys_below r pre p (Dir es) = (\<Sum>(c, n) \<leftarrow> es. keys_below r pre (p @ [c]) n)"
proof (induction es)
  case Nil
  then show ?case by (simp add: keys_below_def)
next
  case (Cons x es)
  obtain c n where x: "x = (c, n)" by (cases x)
  have "List.map_filter (\<lambda>q. local_file_key r pre (p @ q)) (map ((#) c) (tree_files n))
      = List.map_filter (\<lambda>q. local_file_key r pre ((p @ [c]) @ q)) (tree_files n)"
    by (simp add: List.map_filter_def comp_def filter_map)
  with Cons show ?case by (simp add: x keys_below_def)
qed

definition pending :: "path \<Rightarrow> string \<Rightarrow> node \<Rightarrow> path \<Rightarrow> object_key multiset" where
  "pending r pre fs p = (case node_at fs p of Some n \<Rightarrow> keys_below r pre p n | None \<Rightarrow> {#})"

lemma keys_below_File:
  "keys_below r pre p (File d) = (case local_file_key r pre p of Some k \<Rightarrow> {#k#} | None \<Rightarrow> {#})"
  by (simp add: keys_below_def List.map_filter_def split: option.splits)

lemma scan_total:
  assumes "\<And>s. utf8_valid s \<Longrightarrow> lossy s = s"
    and "\<forall>(c, n) \<in> set es. node_at fs ((r @ d) @ [c]) = Some n"
  shows "(\<Sum>p \<leftarrow> fst (scan_entries lossy r pre (r @ d) es (stack, out)). pending r pre fs p)
      + mset (snd (scan_entries lossy r pre (r @ d) es (stack, out)))
    = (\<Sum>p \<leftarrow> stack. pending r pre fs p) + mset out
      + (\<Sum>(c, n) \<leftarrow> es. keys_below r pre ((r @ d) @ [c]) n)"
  using assms
proof (induction lossy r pre "r @ d" es "(stack, out)" arbitrary: stack out rule: scan_entries.induct)
  case 1
  then show ?case by simp
next
  case (2 lossy r pre name sub es stack out)
  have "keys_below r pre ((r @ d) @ [name]) (Dir sub) = {#}"
    if "\<not> local_keep_dir lossy r pre ((r @ d) @ [name])"
    using keys_below_pruned [of lossy r pre "d @ [name]", OF _ "2.prems"(1)] that by simp
  with 2 show ?case by (auto simp: pending_def)
next
  case (3 lossy r pre name x es stack out)
  then show ?case by (auto simp: keys_below_File split: option.splits)
qed

lemma scan_below:
  "\<forall>p \<in> set stack. prefix r p \<Longrightarrow> prefix r dir \<Longrightarrow>
    \<forall>p \<in> set (fst (scan_entries lossy r pre dir es (stack, out))). prefix r p"
  by (auto simp: scan_stack prefix_def)

lemma local_walk_total:
  assumes "local_walk flt lossy r pre fs stack out = Inr res"
    and "\<And>s. utf8_valid s \<Longrightarrow> lossy s = s" and "fs_wf fs" and "\<forall>p \<in> set stack. prefix r p"
  shows "mset res = mset out + (\<Sum>p \<leftarrow> stack. pending r pre fs p)"
  using assms
proof (induction flt lossy r pre fs stack out rule: local_walk.induct)
  case 1
  then show ?case by simp
next
  case (2 flt lossy r pre fs dir stack out)
  from "2.prems"(1) obtain es where rd: "sys_read_dir flt dir fs = Inr es"
    by (auto split: sum.splits)
  then have at: "node_at fs dir = Some (Dir es)"
    by (auto simp: sys_read_dir_def split: option.splits sum.splits node.splits)
  from "2.prems"(4) obtain d where d: "dir = r @ d" by (auto simp: prefix_def)
  have entries: "\<forall>(c, n) \<in> set es. node_at fs (dir @ [c]) = Some n"
    using wf_entry [OF fs_wf_node_at [OF "2.prems"(3) at]] by (auto simp: node_at_append at)
  have walk: "local_walk flt lossy r pre fs (fst (scan_entries lossy r pre dir es (stack, out)))
      (snd (scan_entries lossy r pre dir es (stack, out))) = Inr res"
    using "2.prems"(1) by (simp add: rd)
  have "\<forall>p \<in> set (fst (scan_entries lossy r pre dir es (stack, out))). prefix r p"
    using "2.prems"(4) by (intro scan_below) auto
  note "2.IH" [OF rd walk "2.prems"(2,3) this]
  with scan_total [OF "2.prems"(2) entries [unfolded d], of pre stack out] show ?case
    by (simp add: d [symmetric] add.commute pending_def at keys_below_Dir)
qed

text \<open>The sorted listing: every stored key with the prefix, once.\<close>

lemma local_list_exact:
  assumes "local_list L e pre fs = Inr ks" "local_invar L fs" "local_env_ok e"
  shows "sorted ks \<and> distinct ks \<and>
    (\<forall>k. k \<in> set ks \<longleftrightarrow>
      key_wf k \<and> utf8_valid (as_str k) \<and> starts_with (as_str k) pre \<and> local_view L fs k \<noteq> None)"
proof -
  let ?r = "root L"
  from assms(1) obtain out where walk: "local_walk (faults_of e) (to_string_lossy e) ?r pre fs [?r] [] = Inr out"
      and ks: "ks = sort out"
    by (auto simp: local_list_def res_simps)
  have wf: "fs_wf fs" and lossy: "\<And>s. utf8_valid s \<Longrightarrow> to_string_lossy e s = s"
    using assms(2,3) by (auto simp: local_invar_def local_env_ok_def)
  from local_walk_total [OF walk lossy wf] have out: "mset out = pending ?r pre fs ?r" by simp
  show ?thesis
  proof (cases "node_at fs ?r")
    case None
    with walk show ?thesis by (auto simp: sys_read_dir_def node_at_def split: option.splits sum.splits)
  next
    case (Some n)
    define f where "f = (\<lambda>q. local_file_key ?r pre (?r @ q))"
    have wfn: "fs_wf n" by (rule fs_wf_node_at [OF wf Some])
    have mk: "mset out = mset (List.map_filter f (tree_files n))"
      by (simp add: out pending_def Some keys_below_def f_def)
    have f: "f q = Some k \<longleftrightarrow> key_wf k \<and> utf8_valid (as_str k) \<and> starts_with (as_str k) pre \<and> q = key_components k"
      if "q \<in> set (tree_files n)" for q k
      using local_file_key_iff [OF tree_files_names [OF wfn that]] by (simp add: f_def)
    have "distinct (List.map_filter f (tree_files n))"
      using tree_files_distinct [OF wfn] f by (intro map_filter_distinct) auto
    moreover have "k \<in> set (List.map_filter f (tree_files n)) \<longleftrightarrow>
        key_wf k \<and> utf8_valid (as_str k) \<and> starts_with (as_str k) pre \<and> file_at n (key_components k) \<noteq> None" for k
      using f tree_files_file_at [OF wfn] by (auto simp: set_map_filter_iff)
    moreover have "file_at n q = file_at fs (?r @ q)" for q
      by (simp add: file_at_def node_at_append Some)
    ultimately show ?thesis
      using mset_eq_setD [OF mk] mset_eq_imp_distinct_iff [OF mk]
      by (simp add: ks local_view_def key_path_def)
  qed
qed

end
