(* ===== verification/Local_Correct.thy ===== *)
theory Local_Correct
  imports Local_Walk
begin

text \<open>
  The file-system store meets the contract of the trait, for the keys of \<^const>\<open>local_ok_key\<close>, and the
  properties of the store.
\<close>

interpretation lstore: blob_store "local_ops L" "local_view L" "local_invar L" local_ok_key local_env_ok local_quiet
  for L
proof (unfold_locales, goal_cases)
  case (1 s e k d r s')
  then have put: "local_put L e k d s = (r, s')" by (simp add: local_ops_def)
  have "local_invar L s'" using local_put_wf [OF 1(1-3), of d] put 1(1) by (simp add: local_invar_def)
  then show ?case
    using local_put_effect [OF 1(3) put] tmp_not_key by (simp add: local_view_def)
next
  case (2 s e k q s')
  then have del: "local_delete L e k s = (q, s')" by (simp add: local_ops_def)
  have "local_invar L s'" using local_delete_wf [of s L e k] del 2(1) by (simp add: local_invar_def)
  then show ?case using local_delete_effect [OF 2(3) del] by (simp add: local_view_def)
next
  case (3 s e k u s')
  then show ?case using local_delete_effect [OF 3(3), of L e s] by (auto simp: local_ops_def)
next
  case (4 s k e d)
  then show ?case by (simp add: local_ops_def local_get_view)
next
  case (5 s k e d)
  then show ?case by (simp add: local_ops_def local_get_quiet)
next
  case (6 s k e d)
  then show ?case by (simp add: local_ops_def local_exists_stored)
next
  case (7 s e k)
  then show ?case using local_exists_False by (simp add: local_ops_def)
next
  case (8 s e p ks)
  then show ?case using local_list_exact [of L e p s ks] by (auto simp: local_ops_def local_ok_key_def)
qed

section \<open>Helpers for the properties\<close>

lemma over_limit_iff: "over_limit limit d \<longleftrightarrow> (\<exists>l. limit = Some l \<and> unat l < length d mod 2 ^ 64)"
  by (auto simp: over_limit_def word_less_nat_alt unat_of_nat split: option.splits)

lemma local_publish_errors: "local_publish e tmp dest d fs = (Inl err, fs') \<Longrightarrow> err \<noteq> StorageFull"
  by (auto simp: local_publish_def split: sum.splits prod.splits)

lemma local_put_errors:
  assumes "local_put L e k d fs = (Inl StorageFull, fs')"
  shows "over_limit (max_bytes L) d"
proof (rule ccontr)
  assume "\<not> ?thesis"
  with assms show False
    by (auto simp: local_put_def local_resolve_def local_ensure_parent_def map_err_eq_Inl Let_def
        dest: local_publish_errors split: sum.splits prod.splits option.splits if_splits)
qed

lemma resolve_components:
  assumes "key_wf k" "local_resolve L k = Inr p"
  shows "comps p = root L @ filter (\<lambda>c. c \<noteq> ''.'') (key_components k)"
proof -
  have "\<not> starts_with (as_str k) ''/''"
    using assms(1) empty_piece_iff [of "as_str k" "CHR ''/''"] by (auto simp: key_wf_def key_str_wf_def)
  moreover have "norm_components (as_str k) = filter (\<lambda>c. c \<noteq> ''.'') (key_components k)"
    using key_wf_components [OF assms(1)] by (auto simp: norm_components_def key_components_def intro: filter_cong)
  ultimately show ?thesis
    using assms(2) by (auto simp: local_resolve_def path_join_def Let_def split: if_splits)
qed

lemma scan_dirs:
  assumes "fs_wf fs" "node_at fs dir = Some (Dir es)" "\<forall>p \<in> set stack. dir_at fs p"
  shows "\<forall>p \<in> set (fst (scan_entries lossy r pre dir es (stack, out))). dir_at fs p"
  using assms(3) wf_entry [OF fs_wf_node_at [OF assms(1,2)]]
  by (auto simp: scan_stack dir_at_def node_at_append assms(2) split: node.splits)

lemma local_walk_ok:
  assumes "flt = no_faults" "fs_wf fs" "\<forall>p \<in> set stack. dir_at fs p"
  shows "\<exists>res. local_walk flt lossy r pre fs stack out = Inr res"
  using assms
proof (induction flt lossy r pre fs stack out rule: local_walk.induct)
  case 1
  then show ?case by simp
next
  case (2 flt lossy r pre fs dir stack out)
  from "2.prems"(3) obtain es where es: "node_at fs dir = Some (Dir es)" by (auto simp: dir_at_iff)
  then have rd: "sys_read_dir flt dir fs = Inr es"
    using "2.prems"(1) by (simp add: sys_read_dir_def no_faults_def lookup_at)
  from "2.IH" [OF rd "2.prems"(1,2) scan_dirs [OF "2.prems"(2) es]] "2.prems"(3) rd show ?case by simp
qed

text \<open>A store rooted at \<open>/r\<close>, an environment without faults and a small tree, for the examples.\<close>

definition calm :: local_env where
  "calm = \<lparr>entropy = 1, crates_of = \<lparr>mime_guess = None, sha256_digest = None, clock_now = None\<rparr>,
     strerror = (\<lambda>n. ''error''), tempfile_display = (\<lambda>er. ''error''), tmp_suffix = ''x1'',
     faults_of = no_faults, partial_write = 0, to_string_lossy = (\<lambda>s. s)\<rparr>"

definition store_r :: local_store where
  "store_r = \<lparr>root = [''r''], max_bytes = Some 4\<rparr>"

definition tree_r :: node where
  "tree_r = Dir [(''r'', Dir [(''d'', Dir [(''f'', File [1])]), (''a..b'', File [2]), (''f'', File [3])])]"

lemma calm_simps [simp]: "faults_of calm = no_faults" "tmp_suffix calm = ''x1''" "local_env_ok calm" "local_quiet calm"
  "entropy calm = 1"
  by (simp_all add: calm_def local_env_ok_def local_quiet_def no_faults_def)

lemma store_r_simps [simp]: "root store_r = [''r'']" "max_bytes store_r = Some 4" "local_invar store_r tree_r"
  by (simp_all add: store_r_def local_invar_def tree_r_def name_ok_def)

lemma key_g: "local_ok_key (ObjectKey ''d/g'')"
  by (simp add: local_ok_key_def key_wf_def key_str_wf_def max_key_len_def key_components_def utf8_valid_ascii)

section \<open>Properties\<close>

text \<open>C2. Atomic writes under any faults. Whatever calls of a put fail, at whatever point, no file but
  the temporary one is ever seen half-written: the destination holds the whole new payload exactly
  when the put returned \<open>Ok\<close>, every other file and every directory is kept, and the temporary file is
  gone unless its removal failed too. (A crash between two calls leaves the tree of the run in which
  the next call and the removal fail, so it is covered.)\<close>

theorem local_put_atomic:
  assumes "local_ok_key k" "local_put L e k d fs = (r, fs')"
  shows "(\<forall>q. q \<noteq> tmp_path L e k \<longrightarrow> file_at fs' q = (if is_ok r \<and> q = key_path L k then Some d else file_at fs q))
    \<and> (\<forall>q. dir_at fs q \<longrightarrow> dir_at fs' q)
    \<and> (faults_of e (SysUnlink (FsPath (tmp_path L e k) Plain)) = None \<longrightarrow>
        file_at fs' (tmp_path L e k) = file_at fs (tmp_path L e k))"
  by (rule local_put_effect [OF assms])

theorem local_put_atomic_witness:
  "file_at (snd (local_put store_r (calm\<lparr>faults_of := (\<lambda>c. case c of SysSync p \<Rightarrow> Some (OsError ENOSPC) | _ \<Rightarrow> None)\<rparr>)
     (ObjectKey ''d/g'') [9] tree_r)) [''r'', ''d'', ''f''] = Some [1]"
  using local_put_atomic [OF key_g surjective_pairing, of store_r
      "calm\<lparr>faults_of := (\<lambda>c. case c of SysSync p \<Rightarrow> Some (OsError ENOSPC) | _ \<Rightarrow> None)\<rparr>" "[9]" tree_r]
  by (simp add: tmp_path_def key_path_def key_components_def tree_r_def calm_def)

text \<open>C26. A put that must succeed: without faults, for a payload within the limit, if no file is in the
  way on the path, the key is not a directory and the temporary name is free, the put returns \<open>Ok\<close>,
  and a get then returns the payload.\<close>

theorem local_put_succeeds:
  assumes "local_invar L fs" "local_ok_key k" "local_env_ok e" "local_quiet e" "\<not> over_limit (max_bytes L) d"
    and "\<And>q. strict_prefix q (key_path L k) \<Longrightarrow> file_at fs q = None"
    and "\<not> dir_at fs (key_path L k)" "node_at fs (tmp_path L e k) = None"
  shows "fst (local_put L e k d fs) = Inr (blob_id_new (entropy e))
    \<and> local_get L e k (snd (local_put L e k d fs)) = Inr d"
proof -
  from local_put_quiet [OF assms(2,4-8)] obtain fs'
    where put: "local_put L e k d fs = (Inr (blob_id_new (entropy e)), fs')" by blast
  then show ?thesis
    using lstore.put_get [of L fs e k d _ fs' e] assms(1-4) by (simp add: local_ops_def)
qed

theorem local_put_succeeds_witness:
  "local_get store_r calm (ObjectKey ''d/g'') (snd (local_put store_r calm (ObjectKey ''d/g'') [7, 8] tree_r))
     = Inr [7, 8]"
proof -
  have kp: "key_path store_r (ObjectKey ''d/g'') = [''r'', ''d'', ''g'']"
    by (simp add: key_path_def key_components_def)
  have "file_at tree_r q = None" if "strict_prefix q [''r'', ''d'', ''g'']" for q
    using that by (auto simp: strict_prefix_def prefix_Cons tree_r_def)
  moreover have "\<not> dir_at tree_r [''r'', ''d'', ''g'']" "node_at tree_r [''r'', ''d'', ''.blobkit-x1''] = None"
    by (simp_all add: tree_r_def)
  ultimately show ?thesis
    using local_put_succeeds [of store_r tree_r "ObjectKey ''d/g''" calm "[7, 8]"] key_g
    by (simp add: kp tmp_path_def over_limit_def)
qed

text \<open>C36. The size limit is checked first: a put reports \<open>StorageFull\<close> exactly for a payload longer
  (as a 64-bit length) than the limit, whatever the key, and then the tree is untouched.\<close>

theorem local_put_quota:
  "(fst (local_put L e k d fs) = Inl StorageFull \<longleftrightarrow> (\<exists>l. max_bytes L = Some l \<and> unat l < length d mod 2 ^ 64))
   \<and> ((\<exists>l. max_bytes L = Some l \<and> unat l < length d mod 2 ^ 64) \<longrightarrow> local_put L e k d fs = (Inl StorageFull, fs))"
proof -
  have "over_limit (max_bytes L) d \<Longrightarrow> local_put L e k d fs = (Inl StorageFull, fs)"
    by (simp add: local_put_def)
  then show ?thesis
    using local_put_errors [of L e k d fs] over_limit_iff [of "max_bytes L" d]
    by (cases "local_put L e k d fs") auto
qed

theorem local_put_quota_witness:
  "local_put store_r calm (ObjectKey ''d/g'') [1, 2, 3, 4, 5] tree_r = (Inl StorageFull, tree_r)"
  using local_put_quota [of store_r calm "ObjectKey ''d/g''" "[1, 2, 3, 4, 5]" tree_r] by simp

text \<open>C37. Containment: a validated key resolves, if at all, below the root, to the root followed by its
  components without the \<open>.\<close> ones and with no \<open>..\<close>; and it is rejected exactly when its text contains
  two consecutive dots anywhere, even inside a name. A key that was deserialised and not validated
  may be absolute, and then it resolves outside every root.\<close>

theorem local_resolve_contained:
  assumes "key_wf k"
  shows "(local_resolve L k = Inl (InvalidKey (''key contains '..'' @ [CHR 0x27])) \<and> str_contains (as_str k) ''..''
      \<or> (\<exists>p. local_resolve L k = Inr p \<and> \<not> str_contains (as_str k) ''..''
          \<and> comps p = root L @ filter (\<lambda>c. c \<noteq> ''.'') (key_components k)
          \<and> (\<forall>c \<in> set (key_components k). c \<noteq> ''..'')))
    \<and> local_resolve L (key_deserialize ''/etc/passwd'') = Inr (FsPath [''etc'', ''passwd''] Plain)"
proof -
  have "local_resolve L (key_deserialize ''/etc/passwd'') = Inr (FsPath [''etc'', ''passwd''] Plain)"
    by (simp add: local_resolve_def key_deserialize_def path_join_def norm_components_def str_trail_def Let_def)
  moreover have "\<forall>c \<in> set (key_components k). c \<noteq> ''..''" using key_wf_components [OF assms] by blast
  moreover have "\<not> str_contains (as_str k) ''..'' \<Longrightarrow> \<exists>p. local_resolve L k = Inr p"
    by (simp add: local_resolve_def Let_def)
  moreover have "str_contains (as_str k) ''..'' \<Longrightarrow>
      local_resolve L k = Inl (InvalidKey (''key contains '..'' @ [CHR 0x27]))"
    by (simp add: local_resolve_def Let_def)
  ultimately show ?thesis using resolve_components [OF assms, of L] by blast
qed

theorem local_resolve_contained_witness:
  "\<exists>p. local_resolve store_r (ObjectKey ''a/./b'') = Inr p \<and> comps p = [''r'', ''a'', ''b'']"
proof -
  have "key_wf (ObjectKey ''a/./b'')" by (simp add: key_wf_def key_str_wf_def max_key_len_def)
  from local_resolve_contained [OF this, of store_r] show ?thesis by (auto simp: key_components_def)
qed

text \<open>C15. Listing is exact for every key, storable or not: an \<open>Ok\<close> result is sorted, has no duplicate
  and holds exactly the valid UTF-8 keys with the prefix that name a file below the root; the walk
  with its pruned directories and its stack loses and invents nothing, in whatever order the
  directories are read. Without faults and with the root a directory the result is \<open>Ok\<close>.\<close>

theorem local_list_correct:
  assumes "local_invar L fs" "local_env_ok e"
  shows "(\<forall>ks. local_list L e pre fs = Inr ks \<longrightarrow> sorted ks \<and> distinct ks
      \<and> (\<forall>k. k \<in> set ks \<longleftrightarrow> key_wf k \<and> utf8_valid (as_str k) \<and> starts_with (as_str k) pre
            \<and> file_at fs (key_path L k) \<noteq> None))
    \<and> (local_quiet e \<and> dir_at fs (root L) \<longrightarrow> is_ok (local_list L e pre fs))"
proof -
  have "is_ok (local_list L e pre fs)" if "local_quiet e" "dir_at fs (root L)"
    using local_walk_ok [of "faults_of e" fs "[root L]" "to_string_lossy e" "root L" pre "[]"] that assms(1)
    by (auto simp: local_list_def local_quiet_def local_invar_def)
  then show ?thesis
    using local_list_exact [OF _ assms, of pre] by (auto simp: local_view_def)
qed

theorem local_list_correct_witness:
  "\<exists>ks. local_list store_r calm ''d/'' tree_r = Inr ks \<and> ObjectKey ''d/f'' \<in> set ks \<and> ObjectKey ''f'' \<notin> set ks"
proof -
  have "dir_at tree_r (root store_r)" "file_at tree_r (key_path store_r (ObjectKey ''d/f'')) \<noteq> None"
    by (simp_all add: tree_r_def key_path_def key_components_def)
  moreover have "key_wf (ObjectKey ''d/f'')" by (simp add: key_wf_def key_str_wf_def max_key_len_def)
  ultimately show ?thesis
    using local_list_correct [of store_r tree_r calm "''d/''"]
    by (cases "local_list store_r calm ''d/'' tree_r") (auto simp: utf8_valid_ascii)
qed

text \<open>A listed key need not be readable: the walk accepts any valid key, but \<open>resolve\<close> rejects a
  key with two dots in a name, so \<open>list\<close> returns \<open>a..b\<close> while get, delete and exists call it invalid.\<close>

theorem local_list_get_disagree:
  "local_list store_r calm [] tree_r = Inr [ObjectKey ''a..b'', ObjectKey ''d/f'', ObjectKey ''f'']
   \<and> local_get store_r calm (ObjectKey ''a..b'') tree_r = Inl (InvalidKey (''key contains '..'' @ [CHR 0x27]))
   \<and> fst (local_delete store_r calm (ObjectKey ''a..b'') tree_r) = Inl (InvalidKey (''key contains '..'' @ [CHR 0x27]))"
  by code_simp

text \<open>C8. Sequences: after any list of puts and deletes of storable keys, each under any faults, a
  fault-free get of a storable key returns exactly what the map gets by applying the calls that
  reported \<open>Ok\<close>, in order; the failed ones left no trace.\<close>

theorem local_run_refines:
  assumes "local_invar L fs" "\<forall>(e, x) \<in> set xs. local_env_ok e \<and> local_ok_key (op_key x)"
    and "run_ops (local_ops L) xs fs = (oks, fs')" "local_ok_key k" "local_quiet e'"
  shows "local_get L e' k fs' = Inr d \<longleftrightarrow> abs_run xs oks (local_view L fs) k = Some d"
  using lstore.run_ops_refines [OF assms(1-5)] by (simp add: local_ops_def)

theorem local_run_refines_witness:
  "local_get store_r calm (ObjectKey ''f'') (snd (run_ops (local_ops store_r)
      [(calm\<lparr>faults_of := (\<lambda>c. Some (OsError ENOSPC))\<rparr>, DeleteOp (ObjectKey ''f'')),
       (calm, DeleteOp (ObjectKey ''d/f''))] tree_r)) = Inr [3]"
proof -
  let ?bad = "calm\<lparr>faults_of := (\<lambda>c. Some (OsError ENOSPC))\<rparr>"
  let ?xs = "[(?bad, DeleteOp (ObjectKey ''f'')), (calm, DeleteOp (ObjectKey ''d/f''))]"
  have keys: "local_ok_key (ObjectKey ''f'')" "local_ok_key (ObjectKey ''d/f'')"
    by (simp_all add: local_ok_key_def key_wf_def key_str_wf_def max_key_len_def key_components_def utf8_valid_ascii)
  have env: "local_env_ok ?bad"
    by (simp add: local_env_ok_def calm_def decode_errno_def errno_defs)
  have run: "fst (run_ops (local_ops store_r) ?xs tree_r) = [False, True]"
    by (simp add: local_ops_def local_delete_def ok_key_resolve keys sys_unlink_def decode_errno_def errno_defs
        key_path_def key_components_def tree_r_def no_faults_def)
  have "local_view store_r tree_r (ObjectKey ''f'') = Some [3]"
    by (simp add: local_view_def key_path_def key_components_def tree_r_def)
  then show ?thesis
    using local_run_refines [OF store_r_simps(3) _ surjective_pairing [of "run_ops (local_ops store_r) ?xs tree_r"] keys(1)
        calm_simps(4), of "[3]"] keys env
    by (simp add: run del: run_ops.simps)
qed

text \<open>The reading operations on every branch, without faults, for a storable key: a file is read;
  a missing name is \<open>NotFound\<close> or absent; below a file every operation is the I/O error
  \<open>ENOTDIR\<close>, not \<open>NotFound\<close>; and a directory exists as a key although it can be neither read nor deleted.\<close>

theorem local_read_branches:
  assumes "local_ok_key k" "local_quiet e"
  shows "(file_at fs (key_path L k) = Some d \<longrightarrow>
        local_get L e k fs = Inr d \<and> local_exists L e k fs = Inr True \<and> fst (local_delete L e k fs) = Inr ())
    \<and> (lookup_path fs (key_path L k) = Inl ENOENT \<longrightarrow>
        local_get L e k fs = Inl (NotFound (as_str k)) \<and> local_exists L e k fs = Inr False
        \<and> local_delete L e k fs = (Inl (NotFound (as_str k)), fs))
    \<and> (lookup_path fs (key_path L k) = Inl ENOTDIR \<longrightarrow>
        local_get L e k fs = Inl (Io (OsError ENOTDIR)) \<and> local_exists L e k fs = Inl (Io (OsError ENOTDIR))
        \<and> local_delete L e k fs = (Inl (Io (OsError ENOTDIR)), fs))
    \<and> (dir_at fs (key_path L k) \<longrightarrow>
        local_get L e k fs = Inl (Io (OsError EISDIR)) \<and> local_exists L e k fs = Inr True
        \<and> local_delete L e k fs = (Inl (Io (OsError EISDIR)), fs))"
  using assms
  by (auto simp: local_get_def local_exists_def local_delete_def ok_key_resolve sys_read_def sys_stat_def
      sys_unlink_def local_quiet_def no_faults_def file_at_iff dir_at_iff lookup_at decode_errno_def errno_defs)

theorem local_read_branches_witness:
  "local_exists store_r calm (ObjectKey ''d'') tree_r = Inr True
   \<and> local_get store_r calm (ObjectKey ''d'') tree_r = Inl (Io (OsError EISDIR))"
proof -
  have "local_ok_key (ObjectKey ''d'')"
    by (simp add: local_ok_key_def key_wf_def key_str_wf_def max_key_len_def key_components_def utf8_valid_ascii)
  moreover have "dir_at tree_r (key_path store_r (ObjectKey ''d''))"
    by (simp add: tree_r_def key_path_def key_components_def)
  ultimately show ?thesis using local_read_branches [of "ObjectKey ''d''" calm tree_r store_r] by simp
qed

text \<open>Opening a store only adds directories: it never changes a file, an \<open>Ok\<close> store is rooted at an
  existing directory with the given limit, every failure is an \<open>Io\<close> error (the branch \<open>not a
  directory\<close> cannot be reached), and without faults and with no file on the path it succeeds.\<close>

theorem local_open_correct:
  "(\<forall>q fs'. local_with_limits e r limit fs = (q, fs') \<longrightarrow>
      file_at fs' = file_at fs \<and> (\<forall>p. dir_at fs p \<longrightarrow> dir_at fs' p)
      \<and> (\<forall>L. q = Inr L \<longrightarrow> L = \<lparr>root = r, max_bytes = limit\<rparr> \<and> dir_at fs' r)
      \<and> (\<forall>err. q = Inl err \<longrightarrow> (\<exists>er. err = Io er)))
   \<and> (local_quiet e \<and> (\<forall>p. prefix p r \<longrightarrow> file_at fs p = None) \<longrightarrow> is_ok (fst (local_with_limits e r limit fs)))"
proof -
  obtain r1 fs1 where mk: "create_dir_all (faults_of e) r fs = (r1, fs1)" by (cases "create_dir_all (faults_of e) r fs")
  note eff = create_dir_all_effect [OF mk]
  have stat: "sys_stat (faults_of e) (FsPath r Plain) fs1 = Inr n \<Longrightarrow> is_ok r1 \<Longrightarrow> \<exists>es. n = Dir es" for n
    using eff by (auto simp: sys_stat_def dir_at_iff lookup_at split: option.splits)
  have st: "\<exists>es. sys_stat (faults_of e) (FsPath r Plain) fs1 = Inr (Dir es)" if "local_quiet e" "is_ok r1"
    using eff that by (auto simp: sys_stat_def local_quiet_def no_faults_def dir_at_iff lookup_at)
  have "is_ok (fst (local_with_limits e r limit fs))" if "local_quiet e" "is_ok r1"
    using st [OF that] that(2) by (cases r1) (auto simp: local_with_limits_def mk)
  moreover have "local_quiet e \<Longrightarrow> \<forall>p. prefix p r \<longrightarrow> file_at fs p = None \<Longrightarrow> is_ok r1"
    using create_dir_all_quiet [of r fs] mk by (auto simp: local_quiet_def)
  ultimately show ?thesis
    using eff stat by (auto simp: local_with_limits_def mk split: sum.splits node.splits)
qed

theorem local_open_correct_witness:
  "\<exists>L. fst (local_with_limits calm [''new'', ''root''] None tree_r) = Inr L \<and> root L = [''new'', ''root'']"
proof -
  have "file_at tree_r p = None" if "prefix p [''new'', ''root'']" for p
    using that by (auto simp: prefix_Cons tree_r_def)
  then show ?thesis
    using local_open_correct [of calm "[''new'', ''root'']" None tree_r]
    by (cases "local_with_limits calm [''new'', ''root''] None tree_r") (auto simp: is_ok_iff)
qed

text \<open>A \<open>file://\<close> URL is issued exactly for a key that exists: the URL is the joined path and the
  number of seconds, a key that does not exist is \<open>NotFound\<close>, and an error of the check is passed on.\<close>

theorem local_presign_existing:
  "(local_presigned_url L e k x fs = Inr u \<longleftrightarrow>
      local_exists L e k fs = Inr True
      \<and> u = ''file://'' @ join_display (root L) (as_str k) @ ''?expires='' @ dec_of_nat (unat x))
   \<and> (local_exists L e k fs = Inr False \<longrightarrow> local_presigned_url L e k x fs = Inl (NotFound (as_str k)))
   \<and> (\<forall>err. local_exists L e k fs = Inl err \<longrightarrow> local_presigned_url L e k x fs = Inl err)"
proof (cases "local_exists L e k fs")
  case (Inl err)
  then show ?thesis by (simp add: local_presigned_url_def)
next
  case (Inr b)
  then obtain p where "local_resolve L k = Inr p" by (auto simp: local_exists_def res_simps)
  with Inr show ?thesis by (cases b) (auto simp: local_presigned_url_def)
qed

theorem local_presign_existing_witness:
  "local_presigned_url store_r calm (ObjectKey ''f'') 60 tree_r = Inr ''file:///r/f?expires=60''"
proof -
  have "local_exists store_r calm (ObjectKey ''f'') tree_r = Inr True" by code_simp
  moreover have "''file://'' @ join_display (root store_r) (as_str (ObjectKey ''f'')) @ ''?expires='' @ dec_of_nat (unat (60 :: u64))
      = ''file:///r/f?expires=60''" by code_simp
  ultimately show ?thesis
    using local_presign_existing [of store_r calm "ObjectKey ''f''" 60 tree_r] by simp
qed

end
