(* ===== verification/Local_Tasks.thy ===== *)
theory Local_Tasks
  imports Local_Correct
begin

text \<open>
  The operations of \<open>src/src/local.rs\<close> as tasks that run concurrently on one tree. A task is the point an
  operation has reached, with the variables alive there; one step performs at most one system call, so
  other tasks may run between any two of them. With the tree goes what a power failure could leave of
  every path.
\<close>

section \<open>create_dir_all, call by call\<close>

text \<open>
  \<open>MkTry p ps\<close> is about to call \<open>mkdir p\<close> for the first time, \<open>MkRetry p ps\<close> after the parent was made,
  \<open>MkCheck p e ps\<close> to ask whether \<open>p\<close> is a directory after the error \<open>e\<close>. The callers' paths are \<open>ps\<close>.
\<close>

datatype mk_pc =
    MkTry path "path list"
  | MkRetry path "path list"
  | MkCheck path io_error "path list"
  | MkDone "io_error + unit"

fun mk_return :: "path list \<Rightarrow> mk_pc" where
  "mk_return [] = MkDone (Inr ())"
| "mk_return (p # ps) = MkRetry p ps"

fun mk_step :: "faults \<Rightarrow> mk_pc \<Rightarrow> node \<Rightarrow> mk_pc \<times> node" where
  "mk_step flt (MkTry p ps) fs =
     (case sys_mkdir flt p fs of
        (Inr u, fs1) \<Rightarrow> (mk_return ps, fs1)
      | (Inl e, fs1) \<Rightarrow>
          if io_kind e = KNotFound then
            (if p = [] then MkDone (Inl (CustomError KOther ''failed to create whole tree''))
             else MkTry (butlast p) (p # ps), fs1)
          else (MkCheck p e ps, fs1))"
| "mk_step flt (MkRetry p ps) fs =
     (case sys_mkdir flt p fs of
        (Inr u, fs1) \<Rightarrow> (mk_return ps, fs1)
      | (Inl e, fs1) \<Rightarrow> (MkCheck p e ps, fs1))"
| "mk_step flt (MkCheck p e ps) fs =
     (if path_is_dir flt p fs then mk_return ps else MkDone (Inl e), fs)"
| "mk_step flt (MkDone r) fs = (MkDone r, fs)"

fun mk_result :: "mk_pc \<Rightarrow> (io_error + unit) option" where
  "mk_result (MkDone r) = Some r"
| "mk_result m = None"

fun mk_left :: "mk_pc \<Rightarrow> nat" where
  "mk_left (MkTry p ps) = 3 * length p + 2 * length ps + 2"
| "mk_left (MkRetry p ps) = 2 * length ps + 2"
| "mk_left (MkCheck p e ps) = 2 * length ps + 1"
| "mk_left (MkDone r) = 0"

text \<open>The machine alone is \<open>create_dir_all\<close>.\<close>

lemma mk_left_return [simp]: "mk_left (mk_return ps) = 2 * length ps"
  by (cases ps) auto

lemma mk_step_left: "mk_result m = None \<Longrightarrow> mk_step flt m fs = (m', fs') \<Longrightarrow> mk_left m' < mk_left m"
proof (cases m)
  case (MkTry p ps)
  moreover assume "mk_step flt m fs = (m', fs')"
  ultimately show ?thesis by (cases p rule: rev_cases) (auto split: prod.splits sum.splits if_splits)
qed (auto split: prod.splits sum.splits if_splits)

function mk_run :: "faults \<Rightarrow> mk_pc \<Rightarrow> node \<Rightarrow> (io_error + unit) \<times> node" where
  "mk_run flt m fs =
     (case mk_result m of
        Some r \<Rightarrow> (r, fs)
      | None \<Rightarrow> (case mk_step flt m fs of (m', fs1) \<Rightarrow> mk_run flt m' fs1))"
  by pat_completeness auto
termination
  by (relation "measure (\<lambda>(flt, m, fs). mk_left m)") (auto intro: mk_step_left split: prod.splits)

declare mk_run.simps [simp del]

lemma mk_run_done [simp]: "mk_run flt (MkDone r) fs = (r, fs)"
  by (simp add: mk_run.simps)

lemma mk_run_step: "mk_result m = None \<Longrightarrow> mk_step flt m fs = (m', fs') \<Longrightarrow> mk_run flt m fs = mk_run flt m' fs'"
  by (subst mk_run.simps) simp

lemma mk_run_check:
  "mk_run flt (MkCheck p er ps) fs = (if path_is_dir flt p fs then mk_run flt (mk_return ps) fs else (Inl er, fs))"
  by (simp add: mk_run_step)

lemma mk_run_try:
  "mk_run flt (MkTry p ps) fs =
     (case create_dir_all flt p fs of
        (Inr u, fs1) \<Rightarrow> mk_run flt (mk_return ps) fs1
      | (Inl er, fs1) \<Rightarrow> (Inl er, fs1))"
proof (induction flt p fs arbitrary: ps rule: create_dir_all.induct)
  case (1 flt p fs)
  obtain r1 fs1 where mk: "sys_mkdir flt p fs = (r1, fs1)" by (cases "sys_mkdir flt p fs")
  show ?case
  proof (cases r1)
    case (Inr u)
    then show ?thesis by (subst create_dir_all.simps) (simp add: mk mk_run_step)
  next
    case (Inl er)
    show ?thesis
    proof (cases "io_kind er = KNotFound \<and> p \<noteq> []")
      case False
      have "mk_run flt (MkTry p ps) fs = mk_run flt
          (if io_kind er = KNotFound then MkDone (Inl (CustomError KOther ''failed to create whole tree''))
           else MkCheck p er ps) fs1"
        using False by (intro mk_run_step) (auto simp: mk Inl)
      with False show ?thesis by (subst create_dir_all.simps) (auto simp: mk Inl mk_run_check)
    next
      case True
      then have "mk_run flt (MkTry p ps) fs = mk_run flt (MkTry (butlast p) (p # ps)) fs1"
        by (intro mk_run_step) (simp_all add: mk Inl)
      moreover note "1" [OF mk [symmetric] Inl, of "p # ps"]
      moreover have "mk_run flt (MkRetry p ps) fs2 =
          (case sys_mkdir flt p fs2 of
             (Inr u, fs3) \<Rightarrow> mk_run flt (mk_return ps) fs3
           | (Inl er', fs3) \<Rightarrow> mk_run flt (MkCheck p er' ps) fs3)" for fs2
        by (simp add: mk_run_step split: prod.splits sum.splits)
      ultimately show ?thesis using True
        by (subst create_dir_all.simps)
          (auto simp: mk Inl mk_run_check split: prod.splits sum.splits)
    qed
  qed
qed

lemma mk_run_create_dir_all: "mk_run flt (MkTry p []) fs = create_dir_all flt p fs"
  by (auto simp: mk_run_try split: prod.splits sum.splits)

section \<open>What survives a power failure\<close>

text \<open>
  A path's history: what a directory entry of that name may show after a failure, the latest first. An
  entry is durable only after its directory was synced, which the code never does, so no older one is
  ever ruled out. The content of a file is arbitrary until it is synced.
\<close>

datatype durable = Absent | Torn | Whole bytes

type_synonym histories = "path \<Rightarrow> durable list"

datatype effect =
    NoEffect
  | Created path
  | Written path
  | Synced path bytes
  | Renamed path path
  | Unlinked path

fun persist :: "effect \<Rightarrow> histories \<Rightarrow> histories" where
  "persist NoEffect h = h"
| "persist (Created p) h = h(p := Torn # h p)"
| "persist (Written p) h = h(p := Torn # tl (h p))"
| "persist (Synced p d) h = h(p := Whole d # tl (h p))"
| "persist (Renamed p q) h = h(p := Absent # h p, q := hd (h p) # h q)"
| "persist (Unlinked p) h = h(p := Absent # h p)"

section \<open>Tasks\<close>

datatype task =
    PutStart object_key bytes
  | PutDirs object_key bytes fs_path mk_pc
  | PutTemp object_key bytes fs_path
  | PutWrite object_key bytes fs_path path
  | PutFlush object_key bytes fs_path path
  | PutSync object_key bytes fs_path path
  | PutPersist object_key bytes fs_path path
  | PutDrop object_key bytes path blob_error
  | PutDone object_key bytes "blob_id result"
  | GetStart object_key
  | GetDone object_key "bytes result"
  | DeleteStart object_key
  | DeleteDone object_key "unit result"
  | ExistsStart object_key
  | ExistsDone object_key "bool result"

text \<open>The temporary file of a put to \<open>dest\<close>.\<close>

definition temp_of :: "local_store \<Rightarrow> local_env \<Rightarrow> fs_path \<Rightarrow> path" where
  "temp_of L e dest =
     (case path_parent dest of Some p \<Rightarrow> p | None \<Rightarrow> root L) @ [''.blobkit-'' @ tmp_suffix e]"

fun task_step :: "local_store \<Rightarrow> local_env \<Rightarrow> task \<Rightarrow> node \<Rightarrow> task \<times> node \<times> effect" where
  "task_step L e (PutStart k d) fs =
     (if over_limit (max_bytes L) d then PutDone k d (Inl StorageFull)
      else case local_resolve L k of
          Inl err \<Rightarrow> PutDone k d (Inl err)
        | Inr dest \<Rightarrow> (case path_parent dest of
            Some parent \<Rightarrow> PutDirs k d dest (MkTry parent [])
          | None \<Rightarrow> PutTemp k d dest), fs, NoEffect)"
| "task_step L e (PutDirs k d dest m) fs =
     (case mk_result m of
        Some (Inl er) \<Rightarrow> (PutDone k d (Inl (from_io er)), fs, NoEffect)
      | Some (Inr u) \<Rightarrow> (PutTemp k d dest, fs, NoEffect)
      | None \<Rightarrow> (let (m', fs1) = mk_step (faults_of e) m fs in (PutDirs k d dest m', fs1, NoEffect)))"
| "task_step L e (PutTemp k d dest) fs =
     (let tmp = temp_of L e dest
      in case sys_create_new (faults_of e) tmp fs of
          (Inl er, fs1) \<Rightarrow> (PutDone k d (Inl (Other (''tempfile create: '' @ tempfile_display e er))), fs1, NoEffect)
        | (Inr u, fs1) \<Rightarrow> (PutWrite k d dest tmp, fs1, Created tmp))"
| "task_step L e (PutWrite k d dest tmp) fs =
     (case sys_write_all (faults_of e) (partial_write e) tmp d fs of
        (Inl er, fs1) \<Rightarrow> (PutDrop k d tmp (Other (''tempfile write: '' @ tempfile_display e er)), fs1, Written tmp)
      | (Inr u, fs1) \<Rightarrow> (PutFlush k d dest tmp, fs1, Written tmp))"
| "task_step L e (PutFlush k d dest tmp) fs =
     (case sys_flush (faults_of e) tmp of
        Inl er \<Rightarrow> PutDrop k d tmp (Other (''tempfile flush: '' @ tempfile_display e er))
      | Inr u \<Rightarrow> PutSync k d dest tmp, fs, NoEffect)"
| "task_step L e (PutSync k d dest tmp) fs =
     (case sys_sync_all (faults_of e) tmp of
        Inl er \<Rightarrow> (PutDrop k d tmp (Other (''sync: '' @ io_display (strerror e) er)), fs, NoEffect)
      | Inr u \<Rightarrow> (PutPersist k d dest tmp, fs,
          case file_at fs tmp of Some x \<Rightarrow> Synced tmp x | None \<Rightarrow> NoEffect))"
| "task_step L e (PutPersist k d dest tmp) fs =
     (case sys_rename (faults_of e) tmp dest fs of
        (Inl er, fs1) \<Rightarrow> (PutDrop k d tmp (from_io er), fs1, NoEffect)
      | (Inr u, fs1) \<Rightarrow> (PutDone k d (Inr (blob_id_new (entropy e))), fs1, Renamed tmp (comps dest)))"
| "task_step L e (PutDrop k d tmp err) fs =
     (case sys_unlink (faults_of e) (FsPath tmp Plain) fs of
        (Inl er, fs1) \<Rightarrow> (PutDone k d (Inl err), fs1, NoEffect)
      | (Inr u, fs1) \<Rightarrow> (PutDone k d (Inl err), fs1, Unlinked tmp))"
| "task_step L e (GetStart k) fs = (GetDone k (local_get L e k fs), fs, NoEffect)"
| "task_step L e (DeleteStart k) fs =
     (case local_resolve L k of
        Inl err \<Rightarrow> (DeleteDone k (Inl err), fs, NoEffect)
      | Inr p \<Rightarrow>
          (case sys_unlink (faults_of e) p fs of
             (Inr u, fs1) \<Rightarrow> (DeleteDone k (Inr ()), fs1, Unlinked (comps p))
           | (Inl er, fs1) \<Rightarrow>
               (DeleteDone k (if io_kind er = KNotFound then Inl (not_found (as_str k)) else Inl (from_io er)),
                fs1, NoEffect)))"
| "task_step L e (ExistsStart k) fs = (ExistsDone k (local_exists L e k fs), fs, NoEffect)"
| "task_step L e t fs = (t, fs, NoEffect)"

fun finished :: "task \<Rightarrow> bool" where
  "finished (PutDone k d r) = True"
| "finished (GetDone k r) = True"
| "finished (DeleteDone k r) = True"
| "finished (ExistsDone k r) = True"
| "finished t = False"

text \<open>A bound on the steps a task still takes, whatever the others do.\<close>

fun steps_left :: "local_store \<Rightarrow> task \<Rightarrow> nat" where
  "steps_left L (PutStart k d) =
     (case local_resolve L k of Inr dest \<Rightarrow> 3 * length (comps dest) | Inl err \<Rightarrow> 0) + 10"
| "steps_left L (PutDirs k d dest m) = mk_left m + 7"
| "steps_left L (PutTemp k d dest) = 6"
| "steps_left L (PutWrite k d dest tmp) = 5"
| "steps_left L (PutFlush k d dest tmp) = 4"
| "steps_left L (PutSync k d dest tmp) = 3"
| "steps_left L (PutPersist k d dest tmp) = 2"
| "steps_left L (PutDrop k d tmp err) = 1"
| "steps_left L (GetStart k) = 1"
| "steps_left L (DeleteStart k) = 1"
| "steps_left L (ExistsStart k) = 1"
| "steps_left L t = 0"

lemma task_step_left: "\<not> finished t \<Longrightarrow> steps_left L (fst (task_step L e t fs)) < steps_left L t"
  by (cases "(L, e, t, fs)" rule: task_step.cases)
    (auto simp: path_parent_def Let_def dest: mk_step_left split: sum.splits prod.splits option.splits)

section \<open>A task alone\<close>

text \<open>Running one task to its end in an unchanging environment, with nothing in between.\<close>

function run_task :: "local_store \<Rightarrow> local_env \<Rightarrow> task \<Rightarrow> node \<Rightarrow> task \<times> node" where
  "run_task L e t fs =
     (if finished t then (t, fs)
      else run_task L e (fst (task_step L e t fs)) (fst (snd (task_step L e t fs))))"
  by pat_completeness auto
termination
  by (relation "measure (\<lambda>(L, e, t, fs). steps_left L t)") (auto simp: task_step_left)

declare run_task.simps [simp del]

lemma run_task_step:
  "\<not> finished t \<Longrightarrow> task_step L e t fs = (t', fs', ef) \<Longrightarrow> run_task L e t fs = run_task L e t' fs'"
  by (subst run_task.simps) simp

lemma run_task_finished [simp]: "finished t \<Longrightarrow> run_task L e t fs = (t, fs)"
  by (subst run_task.simps) simp

lemma run_dirs:
  "run_task L e (PutDirs k d dest m) fs =
     (case mk_run (faults_of e) m fs of
        (Inl er, fs1) \<Rightarrow> (PutDone k d (Inl (from_io er)), fs1)
      | (Inr u, fs1) \<Rightarrow> run_task L e (PutTemp k d dest) fs1)"
proof (induction "faults_of e" m fs rule: mk_run.induct)
  case (1 m fs)
  obtain m' fs1 where "mk_step (faults_of e) m fs = (m', fs1)" by (cases "mk_step (faults_of e) m fs")
  with 1 show ?case
    by (subst run_task.simps, subst mk_run.simps) (auto split: option.splits sum.splits)
qed

lemma run_drop:
  "run_task L e (PutDrop k d tmp err) fs = (PutDone k d (Inl err), drop_temp (faults_of e) tmp fs)"
  by (subst run_task.simps) (auto simp: drop_temp_def split: prod.splits sum.splits)

lemma run_publish:
  fixes L :: local_store and dest :: fs_path and e :: local_env
  defines "tmp \<equiv> temp_of L e dest"
  shows "run_task L e (PutTemp k d dest) fs =
    (case local_publish e tmp dest d fs of (r, fs') \<Rightarrow> (PutDone k d r, fs'))"
proof -
  have persist: "run_task L e (PutPersist k d dest tmp) fs2 =
      (case sys_rename (faults_of e) tmp dest fs2 of
         (Inl er, fs3) \<Rightarrow> (PutDone k d (Inl (from_io er)), drop_temp (faults_of e) tmp fs3)
       | (Inr u, fs3) \<Rightarrow> (PutDone k d (Inr (blob_id_new (entropy e))), fs3))" for fs2
    by (subst run_task.simps) (auto simp: run_drop split: prod.splits sum.splits)
  have sync: "run_task L e (PutSync k d dest tmp) fs2 =
      (case sys_sync_all (faults_of e) tmp of
         Inl er \<Rightarrow> (PutDone k d (Inl (Other (''sync: '' @ io_display (strerror e) er))), drop_temp (faults_of e) tmp fs2)
       | Inr u \<Rightarrow> run_task L e (PutPersist k d dest tmp) fs2)" for fs2
    by (subst run_task.simps) (auto simp: run_drop split: sum.splits)
  have flush: "run_task L e (PutFlush k d dest tmp) fs2 =
      (case sys_flush (faults_of e) tmp of
         Inl er \<Rightarrow> (PutDone k d (Inl (Other (''tempfile flush: '' @ tempfile_display e er))), drop_temp (faults_of e) tmp fs2)
       | Inr u \<Rightarrow> run_task L e (PutSync k d dest tmp) fs2)" for fs2
    by (subst run_task.simps) (auto simp: run_drop split: sum.splits)
  have wr: "run_task L e (PutWrite k d dest tmp) fs1 =
      (case sys_write_all (faults_of e) (partial_write e) tmp d fs1 of
         (Inl er, fs2) \<Rightarrow> (PutDone k d (Inl (Other (''tempfile write: '' @ tempfile_display e er))), drop_temp (faults_of e) tmp fs2)
       | (Inr u, fs2) \<Rightarrow> run_task L e (PutFlush k d dest tmp) fs2)" for fs1
    by (subst run_task.simps) (auto simp: run_drop split: prod.splits sum.splits)
  show ?thesis
    by (subst run_task.simps)
      (auto simp: local_publish_def tmp_def [symmetric] wr flush sync persist Let_def split: prod.splits sum.splits)
qed

section \<open>Properties\<close>

text \<open>The tasks are the operations: a task that runs alone in an unchanging environment, step by step to its end,
  returns and leaves exactly what the operation of the store does, on every path through it.\<close>

theorem task_alone:
  "run_task L e (PutStart k d) fs = (case local_put L e k d fs of (r, fs') \<Rightarrow> (PutDone k d r, fs'))
   \<and> run_task L e (GetStart k) fs = (GetDone k (local_get L e k fs), fs)
   \<and> run_task L e (DeleteStart k) fs = (case local_delete L e k fs of (r, fs') \<Rightarrow> (DeleteDone k r, fs'))
   \<and> run_task L e (ExistsStart k) fs = (ExistsDone k (local_exists L e k fs), fs)"
proof (intro conjI)
  show "run_task L e (PutStart k d) fs = (case local_put L e k d fs of (r, fs') \<Rightarrow> (PutDone k d r, fs'))"
    by (subst run_task.simps)
      (auto simp: local_put_def local_ensure_parent_def run_dirs mk_run_create_dir_all run_publish temp_of_def Let_def
        path_parent_def split: sum.splits prod.splits option.splits if_splits)
  show "run_task L e (DeleteStart k) fs = (case local_delete L e k fs of (r, fs') \<Rightarrow> (DeleteDone k r, fs'))"
    by (subst run_task.simps) (auto simp: local_delete_def split: sum.splits prod.splits)
  show "run_task L e (GetStart k) fs = (GetDone k (local_get L e k fs), fs)"
    "run_task L e (ExistsStart k) fs = (ExistsDone k (local_exists L e k fs), fs)"
    by (subst run_task.simps, simp)+
qed

end
