(* ===== verification/Concurrent.thy ===== *)
theory Concurrent
  imports Local_Tasks
begin

text \<open>
  Any number of operations at once on one tree, interleaved between their system calls. A protocol says
  what the invariant needs to know of a task, whatever store it belongs to; the locale \<open>tree_tasks\<close> lists
  what a store's tasks owe each other, and derives linearisability, what a power failure leaves, and
  termination. Two stores that keep the protocol on one tree keep it together.
\<close>

section \<open>Configurations\<close>

record 't config =
  tasks :: "'t list"
  tree :: node
  history :: histories

inductive tstep :: "('t \<Rightarrow> node \<Rightarrow> 't \<Rightarrow> node \<Rightarrow> effect \<Rightarrow> bool) \<Rightarrow> 't config \<Rightarrow> 't config \<Rightarrow> bool" for M where
  move: "i < length (tasks c) \<Longrightarrow> M (tasks c ! i) (tree c) t fs ef \<Longrightarrow>
    tstep M c (c\<lparr>tasks := (tasks c)[i := t], tree := fs, history := persist ef (history c)\<rparr>)"

inductive_cases tstepE: "tstep M c c'"

abbreviation trun :: "('t \<Rightarrow> node \<Rightarrow> 't \<Rightarrow> node \<Rightarrow> effect \<Rightarrow> bool) \<Rightarrow> 't config \<Rightarrow> 't config \<Rightarrow> bool" where
  "trun M \<equiv> (tstep M)\<^sup>*\<^sup>*"

section \<open>Protocols\<close>

text \<open>
  Of a task: whether it has not begun and whether it has returned; its key; what holds of it whatever the
  tree; the temporary file it owns, what must be in it and what must have reached the disk; the write it
  has made once it returned \<open>Ok\<close>; the maps from keys to objects its answer agrees with, and whether it has
  seen the tree yet; how many steps it may still take; the paths it will write to.
\<close>

record 't protocol =
  t_starting :: "'t \<Rightarrow> bool"
  t_ended :: "'t \<Rightarrow> bool"
  t_key :: "'t \<Rightarrow> object_key"
  t_sound :: "local_store \<Rightarrow> 't \<Rightarrow> bool"
  t_temp :: "'t \<Rightarrow> path option"
  t_filled :: "'t \<Rightarrow> bytes option"
  t_stored :: "'t \<Rightarrow> bytes option"
  t_outcome :: "'t \<Rightarrow> (object_key \<times> bytes option) option"
  t_answers :: "'t \<Rightarrow> (object_key \<Rightarrow> bytes option) \<Rightarrow> bool"
  t_looked :: "'t \<Rightarrow> bool"
  t_left :: "local_store \<Rightarrow> 't \<Rightarrow> nat"
  t_paths :: "'t \<Rightarrow> path set"

text \<open>What a power failure may show of a path whose current state is durable.\<close>

definition settled :: "bytes option \<Rightarrow> durable" where
  "settled x = (case x of None \<Rightarrow> Absent | Some d \<Rightarrow> Whole d)"

definition history_ok :: "local_store \<Rightarrow> node \<Rightarrow> histories \<Rightarrow> bool" where
  "history_ok L fs h \<longleftrightarrow> (\<forall>k. local_ok_key k \<longrightarrow>
     hd (h (key_path L k)) = settled (local_view L fs k) \<and> h (key_path L k) \<noteq> [])"

definition starts :: "'t protocol \<Rightarrow> local_store \<Rightarrow> 't config \<Rightarrow> bool" where
  "starts P L c \<longleftrightarrow> (\<forall>t \<in> set (tasks c). t_starting P t \<and> local_ok_key (t_key P t) \<and> t_sound P L t)
     \<and> history_ok L (tree c) (history c)"

section \<open>The invariant\<close>

definition temp_name :: "path \<Rightarrow> bool" where
  "temp_name p \<longleftrightarrow> p \<noteq> [] \<and> starts_with (last p) ''.blobkit-''"

definition task_ok :: "'t protocol \<Rightarrow> local_store \<Rightarrow> node \<Rightarrow> histories \<Rightarrow> 't \<Rightarrow> bool" where
  "task_ok P L fs h t \<longleftrightarrow> local_ok_key (t_key P t) \<and> t_sound P L t
     \<and> (\<forall>tmp. t_temp P t = Some tmp \<longrightarrow> temp_name tmp \<and> file_at fs tmp \<noteq> None
          \<and> (\<forall>d. t_filled P t = Some d \<longrightarrow> file_at fs tmp = Some d)
          \<and> (\<forall>d. t_stored P t = Some d \<longrightarrow> hd (h tmp) = Whole d))"

definition temps_distinct :: "'t protocol \<Rightarrow> 't list \<Rightarrow> bool" where
  "temps_distinct P ts \<longleftrightarrow> (\<forall>i j tmp. i < length ts \<and> j < length ts \<and> t_temp P (ts ! i) = Some tmp
     \<and> t_temp P (ts ! j) = Some tmp \<longrightarrow> i = j)"

definition tgood :: "'t protocol \<Rightarrow> local_store \<Rightarrow> 't config \<Rightarrow> bool" where
  "tgood P L c \<longleftrightarrow> (\<forall>t \<in> set (tasks c). task_ok P L (tree c) (history c) t)
     \<and> temps_distinct P (tasks c) \<and> history_ok L (tree c) (history c)"

text \<open>What one step of \<open>t\<close> must keep: nothing changes but the file of its key, which changes exactly when its write
  is made, and its own temporary file, which it made itself.\<close>

definition step_ok ::
  "'t protocol \<Rightarrow> local_store \<Rightarrow> 't \<Rightarrow> node \<Rightarrow> histories \<Rightarrow> 't \<Rightarrow> node \<Rightarrow> histories \<Rightarrow> bool" where
  "step_ok P L t fs h t' fs' h' \<longleftrightarrow>
     (let p = key_path L (t_key P t) in
      task_ok P L fs' h' t' \<and> t_key P t' = t_key P t
      \<and> (\<forall>q. q \<noteq> p \<and> t_temp P t \<noteq> Some q \<and> t_temp P t' \<noteq> Some q \<longrightarrow> file_at fs' q = file_at fs q \<and> h' q = h q)
      \<and> (case t_outcome P t' of
           Some (k, x) \<Rightarrow> k = t_key P t \<and> file_at fs' p = x \<and> h' p = settled x # h p
         | None \<Rightarrow> file_at fs' p = file_at fs p \<and> h' p = h p)
      \<and> (\<forall>tmp. t_temp P t' = Some tmp \<longrightarrow> t_temp P t = Some tmp \<or> file_at fs tmp = None))"

lemma temp_not_key: "local_ok_key k \<Longrightarrow> temp_name tmp \<Longrightarrow> key_path L k \<noteq> tmp"
  by (auto simp: temp_name_def local_ok_key_def key_path_def)

lemma t_temp_not_key: "task_ok P L fs h t \<Longrightarrow> local_ok_key k \<Longrightarrow> t_temp P t \<noteq> Some (key_path L k)"
  using temp_not_key [of k "key_path L k" L] by (auto simp: task_ok_def)

lemma step_ok_frame:
  assumes "step_ok P L t fs h t' fs' h'" "q \<noteq> key_path L (t_key P t)" "t_temp P t \<noteq> Some q" "t_temp P t' \<noteq> Some q"
  shows "file_at fs' q = file_at fs q \<and> h' q = h q"
  using assms by (simp add: step_ok_def Let_def)

lemma same_files_ok:
  assumes "task_ok P L fs h t" "file_at fs' = file_at fs" "h' = h" "t_key P t' = t_key P t" "t_temp P t' = None"
    "t_outcome P t' = None" "t_sound P L t'"
  shows "step_ok P L t fs h t' fs' h'"
  using assms by (auto simp: step_ok_def task_ok_def Let_def)

lemma task_ok_frame:
  assumes "task_ok P L fs h t" "\<And>tmp. t_temp P t = Some tmp \<Longrightarrow> file_at fs' tmp = file_at fs tmp \<and> h' tmp = h tmp"
  shows "task_ok P L fs' h' t"
  using assms by (cases "t_temp P t") (auto simp: task_ok_def)

section \<open>The calls of a task\<close>

text \<open>What each kind of call does to the invariant, for the tasks of any store.\<close>

lemma create_temp_ok:
  assumes "task_ok P L fs h t" "sys_create_new flt tmp fs = (Inr u, fs')" "temp_name tmp"
    and "t_key P t' = t_key P t" "t_sound P L t'" "t_temp P t' = Some tmp" "t_filled P t' = None" "t_stored P t' = None"
      "t_outcome P t' = None"
  shows "step_ok P L t fs h t' fs' (persist (Created tmp) h)"
proof -
  note c = sys_create_new_effect [OF assms(2)]
  have "file_at fs tmp = None" using c(2) by (simp add: node_at_None_iff)
  moreover have "key_path L (t_key P t) \<noteq> tmp" using temp_not_key assms(1,3) by (auto simp: task_ok_def)
  ultimately show ?thesis using assms c(3) by (auto simp: step_ok_def task_ok_def Let_def)
qed

lemma fill_temp_ok:
  assumes "task_ok P L fs h t" "t_temp P t = Some tmp" "file_at fs' = (file_at fs)(tmp \<mapsto> y)"
    and "t_key P t' = t_key P t" "t_sound P L t'" "t_temp P t' = Some tmp" "\<forall>d. t_filled P t' = Some d \<longrightarrow> y = d"
      "t_stored P t' = None" "t_outcome P t' = None"
  shows "step_ok P L t fs h t' fs' (persist (Written tmp) h)"
proof -
  have "key_path L (t_key P t) \<noteq> tmp" using temp_not_key [of "t_key P t" tmp L] assms(1,2) by (auto simp: task_ok_def)
  with assms show ?thesis by (auto simp: step_ok_def task_ok_def Let_def)
qed

lemma keep_temp_ok:
  assumes "task_ok P L fs h t" "t_temp P t = Some tmp" "file_at fs' = file_at fs" "h' = h"
    and "t_key P t' = t_key P t" "t_sound P L t'" "t_temp P t' = Some tmp \<or> t_temp P t' = None"
      "\<forall>d. t_filled P t' = Some d \<longrightarrow> t_filled P t = Some d"
      "\<forall>d. t_stored P t' = Some d \<longrightarrow> t_stored P t = Some d" "t_outcome P t' = None"
  shows "step_ok P L t fs h t' fs' h'"
  using assms by (auto simp: step_ok_def task_ok_def Let_def)

lemma sync_temp_ok:
  assumes "task_ok P L fs h t" "t_temp P t = Some tmp" "t_filled P t = Some d"
    and "t_key P t' = t_key P t" "t_sound P L t'" "t_temp P t' = Some tmp" "t_filled P t' = Some d"
      "t_stored P t' = Some d" "t_outcome P t' = None"
  shows "step_ok P L t fs h t' fs (persist (case file_at fs tmp of Some x \<Rightarrow> Synced tmp x | None \<Rightarrow> NoEffect) h)"
proof -
  have "key_path L (t_key P t) \<noteq> tmp" using temp_not_key [of "t_key P t" tmp L] assms(1,2) by (auto simp: task_ok_def)
  with assms show ?thesis by (auto simp: step_ok_def task_ok_def Let_def)
qed

lemma rename_temp_ok:
  assumes "task_ok P L fs h t" "t_temp P t = Some tmp" "t_filled P t = Some d" "t_stored P t = Some d"
    and "sys_rename flt tmp (FsPath (key_path L (t_key P t)) Plain) fs = (Inr u, fs')"
    and "t_key P t' = t_key P t" "t_sound P L t'" "t_temp P t' = None" "t_outcome P t' = Some (t_key P t, Some d)"
  shows "step_ok P L t fs h t' fs' (persist (Renamed tmp (key_path L (t_key P t))) h)"
proof -
  have tmp: "file_at fs tmp = Some d" "tmp \<noteq> []" "hd (h tmp) = Whole d"
    using assms(1-4) by (auto simp: task_ok_def temp_name_def)
  have ne: "key_path L (t_key P t) \<noteq> tmp" using temp_not_key [of "t_key P t" tmp L] assms(1,2) by (auto simp: task_ok_def)
  then have "tmp \<noteq> comps (FsPath (key_path L (t_key P t)) Plain)" by auto
  from sys_rename_effect(1) [OF assms(5) tmp(1,2) this] tmp assms ne show ?thesis
    by (auto simp: step_ok_def task_ok_def Let_def settled_def)
qed

lemma sys_rename_fail: "sys_rename flt p q fs = (Inl er, fs') \<Longrightarrow> fs' = fs"
  by (auto simp: sys_rename_def split: option.splits sum.splits node.splits if_splits)

lemma remove_temp_ok:
  assumes "task_ok P L fs h t" "t_temp P t = Some tmp" "sys_unlink flt (FsPath tmp Plain) fs = (Inr u, fs')"
    and "t_key P t' = t_key P t" "t_sound P L t'" "t_temp P t' = None" "t_outcome P t' = None"
  shows "step_ok P L t fs h t' fs' (persist (Unlinked tmp) h)"
proof -
  have "key_path L (t_key P t) \<noteq> tmp" using temp_not_key [of "t_key P t" tmp L] assms(1,2) by (auto simp: task_ok_def)
  with assms sys_unlink_effect(1) [OF assms(3)] show ?thesis by (auto simp: step_ok_def task_ok_def Let_def)
qed

lemma delete_key_ok:
  assumes "task_ok P L fs h t" "sys_unlink flt (FsPath (key_path L (t_key P t)) Plain) fs = (Inr u, fs')"
    and "t_key P t' = t_key P t" "t_sound P L t'" "t_temp P t' = None" "t_outcome P t' = Some (t_key P t, None)"
  shows "step_ok P L t fs h t' fs' (persist (Unlinked (key_path L (t_key P t))) h)"
  using assms sys_unlink_effect(1) [OF assms(2)] by (auto simp: step_ok_def task_ok_def Let_def settled_def)

lemmas call_ok = create_temp_ok fill_temp_ok keep_temp_ok sync_temp_ok rename_temp_ok remove_temp_ok delete_key_ok

section \<open>Runs\<close>

definition apply_task ::
  "'t protocol \<Rightarrow> (object_key \<Rightarrow> bytes option) \<Rightarrow> 't \<Rightarrow> object_key \<Rightarrow> bytes option" where
  "apply_task P v t = (case t_outcome P t of Some (k, x) \<Rightarrow> v(k := x) | None \<Rightarrow> v)"

text \<open>The map that a sequence of finished tasks makes of an initial one.\<close>

definition replay ::
  "'t protocol \<Rightarrow> (object_key \<Rightarrow> bytes option) \<Rightarrow> 't list \<Rightarrow> nat list \<Rightarrow> object_key \<Rightarrow> bytes option" where
  "replay P v ts log = foldl (\<lambda>w i. apply_task P w (ts ! i)) v log"

lemma replay_snoc: "replay P v ts (log @ [i]) = apply_task P (replay P v ts log) (ts ! i)"
  by (simp add: replay_def)

lemma replay_cong: "(\<And>i. i \<in> set log \<Longrightarrow> ts ! i = us ! i) \<Longrightarrow> replay P v ts log = replay P v us log"
  by (induction log rule: rev_induct) (auto simp: replay_def)

definition linearised :: "'t protocol \<Rightarrow> local_store \<Rightarrow> 't config \<Rightarrow> 't config \<Rightarrow> nat list \<Rightarrow> bool" where
  "linearised P L c c' log \<longleftrightarrow>
     distinct log
     \<and> set log = {i. i < length (tasks c') \<and> t_outcome P (tasks c ! i) = None \<and> t_outcome P (tasks c' ! i) \<noteq> None}
     \<and> (\<forall>k. local_ok_key k \<longrightarrow> local_view L (tree c') k = replay P (local_view L (tree c)) (tasks c') log k)
     \<and> (\<forall>i. i < length (tasks c') \<and> \<not> t_looked P (tasks c ! i) \<longrightarrow>
          (\<exists>n \<le> length log. t_answers P (tasks c' ! i) (replay P (local_view L (tree c)) (tasks c') (take n log))))"

text \<open>Names for the listing.\<close>

definition names_ok :: "path set \<Rightarrow> bool" where
  "names_ok X \<longleftrightarrow> (\<forall>p \<in> X. list_all name_ok p)"

definition tree_good :: "'t protocol \<Rightarrow> local_store \<Rightarrow> 't config \<Rightarrow> bool" where
  "tree_good P L c \<longleftrightarrow> local_invar L (tree c) \<and> (\<forall>t \<in> set (tasks c). names_ok (t_paths P t))"

section \<open>What the tasks of a store owe each other\<close>

locale tree_tasks =
  fixes L :: local_store and P :: "'t protocol" and M :: "'t \<Rightarrow> node \<Rightarrow> 't \<Rightarrow> node \<Rightarrow> effect \<Rightarrow> bool"
  assumes running: "M t fs t' fs' ef \<Longrightarrow> \<not> t_ended P t"
    and step_ok: "task_ok P L fs h t \<Longrightarrow> M t fs t' fs' ef \<Longrightarrow> step_ok P L t fs h t' fs' (persist ef h)"
    and answers: "local_ok_key (t_key P t) \<Longrightarrow> t_sound P L t \<Longrightarrow> M t fs t' fs' ef \<Longrightarrow>
      t_answers P t' (local_view L fs) \<or> t_looked P t \<and> (\<forall>v. t_answers P t v \<longrightarrow> t_answers P t' v)"
    and unlooked: "\<not> t_looked P t \<Longrightarrow> t_answers P t v"
    and fewer: "M t fs t' fs' ef \<Longrightarrow> t_left P L t' < t_left P L t"
    and outcome_ended: "t_outcome P t \<noteq> None \<Longrightarrow> t_ended P t"
    and answers_key: "v (t_key P t) = w (t_key P t) \<Longrightarrow> t_answers P t v = t_answers P t w"
    and idle: "t_starting P t \<Longrightarrow> t_temp P t = None \<and> \<not> t_ended P t \<and> t_paths P t = {}"
    and well_formed: "M t fs t' fs' ef \<Longrightarrow> local_invar L fs \<Longrightarrow> local_ok_key (t_key P t) \<Longrightarrow> t_sound P L t \<Longrightarrow>
      names_ok (t_paths P t) \<Longrightarrow> fs_wf fs' \<and> names_ok (t_paths P t')"
begin

lemma initial_good: "starts P L c \<Longrightarrow> tgood P L c"
  using idle by (auto simp: starts_def tgood_def task_ok_def temps_distinct_def)

lemma step_history_ok:
  assumes "history_ok L fs h" "step_ok P L t fs h t' fs' h'" "task_ok P L fs h t" "task_ok P L fs' h' t'"
  shows "history_ok L fs' h'"
proof -
  have "hd (h' (key_path L k)) = settled (local_view L fs' k) \<and> h' (key_path L k) \<noteq> []" if k: "local_ok_key k" for k
    using assms(1,2) k t_temp_not_key [OF assms(3) k] t_temp_not_key [OF assms(4) k]
    by (cases "k = t_key P t") (auto simp: step_ok_def Let_def history_ok_def local_view_def split: option.splits)
  then show ?thesis by (simp add: history_ok_def)
qed

lemma tstep_good:
  assumes "tstep M c c'" "tgood P L c"
  shows "tgood P L c'"
  using assms(1)
proof (rule tstepE)
  fix i t fs ef
  let ?ti = "tasks c ! i" and ?h = "persist ef (history c)"
  assume c': "c' = c\<lparr>tasks := (tasks c)[i := t], tree := fs, history := ?h\<rparr>"
    and i: "i < length (tasks c)" and m: "M ?ti (tree c) t fs ef"
  from i assms(2) have oki: "task_ok P L (tree c) (history c) ?ti" by (simp add: tgood_def)
  from step_ok [OF oki m] have ok: "step_ok P L ?ti (tree c) (history c) t fs ?h" .
  then have new: "task_ok P L fs ?h t" by (simp add: step_ok_def Let_def)
  have k: "local_ok_key (t_key P ?ti)" using oki by (simp add: task_ok_def)
  have distinct: "temps_distinct P (tasks c)" using assms(2) by (simp add: tgood_def)
  have temp: "temp_name tmp \<and> file_at (tree c) tmp \<noteq> None"
    if "j < length (tasks c)" "t_temp P (tasks c ! j) = Some tmp" for j tmp
    using that assms(2) by (auto simp: tgood_def task_ok_def dest: nth_mem)
  have fresh: "t_temp P t \<noteq> Some tmp" "t_temp P ?ti \<noteq> Some tmp"
    if "j < length (tasks c)" "j \<noteq> i" "t_temp P (tasks c ! j) = Some tmp" for j tmp
  proof -
    show ti: "t_temp P ?ti \<noteq> Some tmp" using that distinct i by (auto simp: temps_distinct_def)
    show "t_temp P t \<noteq> Some tmp" using ok ti temp [OF that(1,3)] by (auto simp: step_ok_def Let_def)
  qed
  have others: "task_ok P L fs ?h (tasks c ! j)" if j: "j < length (tasks c)" "j \<noteq> i" for j
  proof (rule task_ok_frame)
    show "task_ok P L (tree c) (history c) (tasks c ! j)" using assms(2) j by (simp add: tgood_def)
    show "file_at fs tmp = file_at (tree c) tmp \<and> ?h tmp = history c tmp" if o: "t_temp P (tasks c ! j) = Some tmp" for tmp
      using temp_not_key [OF k, of tmp L] temp [OF j(1) o] fresh [OF j o] by (intro step_ok_frame [OF ok]) auto
  qed
  with new i have all: "\<forall>t' \<in> set ((tasks c)[i := t]). task_ok P L fs ?h t'"
    by (auto simp: in_set_conv_nth nth_list_update)
  moreover have "temps_distinct P ((tasks c)[i := t])"
    using distinct fresh(1) i unfolding temps_distinct_def by (auto simp: nth_list_update)
  moreover have "history_ok L fs ?h"
    using assms(2) by (intro step_history_ok [OF _ ok oki new]) (simp add: tgood_def)
  ultimately show ?thesis by (simp add: tgood_def c')
qed

lemma trun_good: "trun M c c' \<Longrightarrow> tgood P L c \<Longrightarrow> tgood P L c'"
  by (induction rule: rtranclp_induct) (auto intro: tstep_good)

text \<open>The step of one task, seen from the whole configuration.\<close>

lemma tstep_view:
  assumes "tstep M c c'" "tgood P L c"
  obtains i t where "i < length (tasks c)" "\<not> t_ended P (tasks c ! i)" "tasks c' = (tasks c)[i := t]"
    "local_ok_key (t_key P t)" "t_key P t = t_key P (tasks c ! i)"
    "t_answers P t (local_view L (tree c))
       \<or> t_looked P (tasks c ! i) \<and> (\<forall>v. t_answers P (tasks c ! i) v \<longrightarrow> t_answers P t v)"
    "\<And>k. local_ok_key k \<Longrightarrow> local_view L (tree c') k = apply_task P (local_view L (tree c)) t k"
    "\<And>k. local_ok_key k \<Longrightarrow> history c' (key_path L k) =
       (case t_outcome P t of Some (j, x) \<Rightarrow> if j = k then settled x # history c (key_path L k) else history c (key_path L k)
        | None \<Rightarrow> history c (key_path L k))"
    "t_left P L t < t_left P L (tasks c ! i)"
  using assms(1)
proof (rule tstepE)
  fix i t fs ef
  let ?ti = "tasks c ! i" and ?h = "persist ef (history c)"
  assume c': "c' = c\<lparr>tasks := (tasks c)[i := t], tree := fs, history := ?h\<rparr>"
    and i: "i < length (tasks c)" and m: "M ?ti (tree c) t fs ef"
  from i assms(2) have oki: "task_ok P L (tree c) (history c) ?ti" by (simp add: tgood_def)
  from step_ok [OF oki m] have ok: "step_ok P L ?ti (tree c) (history c) t fs ?h" .
  then have key: "local_ok_key (t_key P t)" "t_key P t = t_key P ?ti" and new: "task_ok P L fs ?h t"
    using oki by (auto simp: step_ok_def task_ok_def Let_def)
  have rest: "file_at fs (key_path L k) = file_at (tree c) (key_path L k) \<and> ?h (key_path L k) = history c (key_path L k)"
    if "local_ok_key k" "k \<noteq> t_key P ?ti" for k
    using step_ok_frame [OF ok _ t_temp_not_key [OF oki that(1)] t_temp_not_key [OF new that(1)]] that(2) by simp
  have sound: "t_sound P L ?ti" using oki by (simp add: task_ok_def)
  show thesis
  proof (rule that [of i t])
    show "t_answers P t (local_view L (tree c))
        \<or> t_looked P ?ti \<and> (\<forall>v. t_answers P ?ti v \<longrightarrow> t_answers P t v)"
      by (rule answers [OF _ sound m]) (use key in simp)
    show "t_left P L t < t_left P L ?ti" by (rule fewer [OF m])
    show "\<not> t_ended P ?ti" by (rule running [OF m])
    show "local_view L (tree c') k = apply_task P (local_view L (tree c)) t k" if "local_ok_key k" for k
      using ok rest [OF that] by (cases "k = t_key P ?ti")
        (auto simp: c' step_ok_def Let_def local_view_def apply_task_def split: option.splits)
    show "history c' (key_path L k) =
       (case t_outcome P t of Some (j, x) \<Rightarrow> if j = k then settled x # history c (key_path L k) else history c (key_path L k)
        | None \<Rightarrow> history c (key_path L k))" if "local_ok_key k" for k
      using ok rest [OF that] by (cases "k = t_key P ?ti")
        (auto simp: c' step_ok_def Let_def split: option.splits)
  qed (use c' i key in auto)
qed

lemma linearised_step:
  assumes lin: "linearised P L c d log" and good: "tgood P L d" and step: "tstep M d d'"
    and len: "length (tasks d) = length (tasks c)"
    and stay: "\<And>j. t_ended P (tasks c ! j) \<Longrightarrow> j < length (tasks c) \<Longrightarrow> tasks d ! j = tasks c ! j"
  shows "\<exists>log'. linearised P L c d' log'"
proof -
  from tstep_view [OF step good] obtain i t where i: "i < length (tasks d)" "\<not> t_ended P (tasks d ! i)"
    and d': "tasks d' = (tasks d)[i := t]" and key: "local_ok_key (t_key P t)" "t_key P t = t_key P (tasks d ! i)"
    and ans: "t_answers P t (local_view L (tree d))
       \<or> t_looked P (tasks d ! i) \<and> (\<forall>v. t_answers P (tasks d ! i) v \<longrightarrow> t_answers P t v)"
    and view: "\<And>k. local_ok_key k \<Longrightarrow> local_view L (tree d') k = apply_task P (local_view L (tree d)) t k"
    by metis
  note lin = lin [unfolded linearised_def]
  let ?v = "local_view L (tree c)"
  let ?log' = "if t_outcome P t = None then log else log @ [i]"
  have ui: "t_outcome P (tasks d ! i) = None" using i(2) outcome_ended by blast
  have ci: "t_outcome P (tasks c ! i) = None" using i stay [of i] len outcome_ended by metis
  then have notin: "i \<notin> set log" using lin ui by auto
  have same: "replay P ?v (tasks d') (take n log) = replay P ?v (tasks d) (take n log)" for n
    using notin by (intro replay_cong) (metis d' in_set_takeD nth_list_update_neq)
  have same_all: "replay P ?v (tasks d') log = replay P ?v (tasks d) log"
    using same [of "length log"] by simp
  note upd = same [unfolded d'] same_all [unfolded d']
  have "distinct ?log'" using lin notin by simp
  moreover have "set ?log' = {j. j < length (tasks d') \<and> t_outcome P (tasks c ! j) = None \<and> t_outcome P (tasks d' ! j) \<noteq> None}"
  proof -
    have "j \<in> set ?log' \<longleftrightarrow> j < length (tasks d') \<and> t_outcome P (tasks c ! j) = None \<and> t_outcome P (tasks d' ! j) \<noteq> None" for j
      using lin notin i ci ui by (cases "j = i") (auto simp: d')
    then show ?thesis by blast
  qed
  moreover have "\<forall>k. local_ok_key k \<longrightarrow> local_view L (tree d') k = replay P ?v (tasks d') ?log' k"
    using lin view i(1) by (auto simp: replay_snoc upd d' apply_task_def split: option.splits)
  moreover have "\<exists>n \<le> length ?log'. t_answers P (tasks d' ! j) (replay P ?v (tasks d') (take n ?log'))"
    if j: "j < length (tasks d')" "\<not> t_looked P (tasks c ! j)" for j
  proof -
    from lin j obtain n where n: "n \<le> length log" "t_answers P (tasks d ! j) (replay P ?v (tasks d) (take n log))"
      by (auto simp: d')
    show ?thesis
    proof (cases "j = i \<and> t_answers P t (local_view L (tree d))")
      case True
      then have "t_answers P t (replay P ?v (tasks d') log)"
        using lin key by (subst answers_key [of _ _ "local_view L (tree d)"]) (auto simp: upd d')
      with True i show ?thesis by (intro exI [of _ "length log"]) (auto simp: d')
    next
      case False
      with n ans have "t_answers P (tasks d' ! j) (replay P ?v (tasks d') (take n log))"
        using i by (cases "j = i") (auto simp: upd d')
      with n(1) show ?thesis by (intro exI [of _ n]) auto
    qed
  qed
  ultimately have "linearised P L c d' ?log'" unfolding linearised_def by blast
  then show ?thesis by blast
qed

lemma trun_ended_stay:
  assumes "trun M c d"
  shows "length (tasks d) = length (tasks c) \<and>
    (\<forall>j < length (tasks c). t_ended P (tasks c ! j) \<longrightarrow> tasks d ! j = tasks c ! j)"
  using assms
proof (induction rule: rtranclp_induct)
  case (step d d')
  from step.hyps(2) step.IH show ?case by (elim tstepE) (auto simp: nth_list_update, metis running)
qed simp

lemma trun_linearised:
  assumes "trun M c d" "tgood P L c"
  shows "\<exists>log. linearised P L c d log"
  using assms(1)
proof (induction rule: rtranclp_induct)
  case base
  show ?case
    by (intro exI [of _ "[]"]) (auto simp: linearised_def replay_def unlooked)
next
  case (step d d')
  from step.IH obtain log where "linearised P L c d log" by blast
  from linearised_step [OF this trun_good [OF step.hyps(1) assms(2)] step.hyps(2)]
    trun_ended_stay [OF step.hyps(1)] show ?case by simp
qed

text \<open>Linearisability.\<close>

lemma linearisable:
  assumes "starts P L c0" "trun M c0 c" "trun M c d"
  shows "\<exists>log. linearised P L c d log"
  by (rule trun_linearised [OF assms(3) trun_good [OF assms(2) initial_good [OF assms(1)]]])

text \<open>What a power failure leaves.\<close>

lemma history_grows:
  assumes "trun M c0 c" "tgood P L c0" "local_ok_key k" "\<forall>t \<in> set (tasks c0). t_outcome P t = None"
  shows "set (history c (key_path L k)) = set (history c0 (key_path L k))
    \<union> {settled x | x. \<exists>t \<in> set (tasks c). t_outcome P t = Some (k, x)}"
  using assms(1)
proof (induction rule: rtranclp_induct)
  case base
  show ?case using assms(4) by auto
next
  case (step d d')
  show ?case
  proof (rule tstep_view [OF step.hyps(2) trun_good [OF step.hyps(1) assms(2)]])
    fix i t
    assume i: "i < length (tasks d)" "\<not> t_ended P (tasks d ! i)" and d': "tasks d' = (tasks d)[i := t]"
      and h: "\<And>k. local_ok_key k \<Longrightarrow> history d' (key_path L k) =
        (case t_outcome P t of Some (j, x) \<Rightarrow> if j = k then settled x # history d (key_path L k) else history d (key_path L k)
         | None \<Rightarrow> history d (key_path L k))"
    have none: "t_outcome P (tasks d ! i) = None" using i(2) outcome_ended by blast
    have outcomes: "(\<exists>u \<in> set (tasks d'). t_outcome P u = Some (k, x)) \<longleftrightarrow>
        t_outcome P t = Some (k, x) \<or> (\<exists>u \<in> set (tasks d). t_outcome P u = Some (k, x))" for x
    proof
      assume "\<exists>u \<in> set (tasks d'). t_outcome P u = Some (k, x)"
      then show "t_outcome P t = Some (k, x) \<or> (\<exists>u \<in> set (tasks d). t_outcome P u = Some (k, x))"
        using set_update_subset_insert [of "tasks d" i t] unfolding d' by blast
    next
      assume "t_outcome P t = Some (k, x) \<or> (\<exists>u \<in> set (tasks d). t_outcome P u = Some (k, x))"
      then show "\<exists>u \<in> set (tasks d'). t_outcome P u = Some (k, x)"
      proof
        assume "t_outcome P t = Some (k, x)"
        then show ?thesis using set_update_memI [OF i(1), of t] unfolding d' by blast
      next
        assume "\<exists>u \<in> set (tasks d). t_outcome P u = Some (k, x)"
        then obtain j where "j < length (tasks d)" "t_outcome P (tasks d ! j) = Some (k, x)"
          by (auto simp: in_set_conv_nth)
        then have "tasks d' ! j = tasks d ! j" "j < length (tasks d')" using none by (cases "i = j"; simp add: d')+
        then have "tasks d ! j \<in> set (tasks d')" using nth_mem by metis
        with \<open>t_outcome P (tasks d ! j) = Some (k, x)\<close> show ?thesis by blast
      qed
    qed
    show ?case using step.IH h [OF assms(3)] by (auto simp: outcomes split: option.splits if_splits)
  qed
qed

lemma power_failure:
  assumes "starts P L c0" "trun M c0 c" "local_ok_key k"
  shows "set (history c (key_path L k)) = set (history c0 (key_path L k))
     \<union> {settled x | x. \<exists>t \<in> set (tasks c). t_outcome P t = Some (k, x)}
    \<and> hd (history c (key_path L k)) = settled (local_view L (tree c) k)"
proof
  have good: "tgood P L c0" by (rule initial_good [OF assms(1)])
  have "\<forall>t \<in> set (tasks c0). t_outcome P t = None"
    using assms(1) idle outcome_ended by (metis starts_def)
  from history_grows [OF assms(2) good assms(3) this]
  show "set (history c (key_path L k)) = set (history c0 (key_path L k))
     \<union> {settled x | x. \<exists>t \<in> set (tasks c). t_outcome P t = Some (k, x)}" .
  show "hd (history c (key_path L k)) = settled (local_view L (tree c) k)"
    using trun_good [OF assms(2) good] assms(3) by (simp add: tgood_def history_ok_def)
qed

text \<open>Temporary files are private.\<close>

lemma temps_private:
  assumes "starts P L c0" "trun M c0 c" "i < length (tasks c)" "t_temp P (tasks c ! i) = Some tmp"
  shows "(\<forall>j < length (tasks c). t_temp P (tasks c ! j) = Some tmp \<longrightarrow> j = i)
    \<and> (\<forall>k. local_ok_key k \<longrightarrow> key_path L k \<noteq> tmp)
    \<and> file_at (tree c) tmp \<noteq> None
    \<and> (t_filled P (tasks c ! i) = Some d \<longrightarrow> file_at (tree c) tmp = Some d)
    \<and> (t_stored P (tasks c ! i) = Some d \<longrightarrow> hd (history c tmp) = Whole d)"
proof -
  have good: "tgood P L c" using trun_good [OF assms(2) initial_good [OF assms(1)]] .
  then have "task_ok P L (tree c) (history c) (tasks c ! i)" using assms(3) by (simp add: tgood_def)
  then show ?thesis
    using good assms(3,4) temp_not_key [of _ tmp L] by (auto simp: tgood_def task_ok_def temps_distinct_def)
qed

text \<open>Termination.\<close>

lemma steps_bound:
  assumes "tstep M c c'"
  shows "sum_list (map (t_left P L) (tasks c')) < sum_list (map (t_left P L) (tasks c))"
  using assms
proof (rule tstepE)
  fix i t fs ef
  assume c': "c' = c\<lparr>tasks := (tasks c)[i := t], tree := fs, history := persist ef (history c)\<rparr>"
    and i: "i < length (tasks c)" and m: "M (tasks c ! i) (tree c) t fs ef"
  from i have "tasks c = take i (tasks c) @ tasks c ! i # drop (Suc i) (tasks c)"
    by (simp add: id_take_nth_drop)
  then have "sum_list (map (t_left P L) (tasks c)) = sum_list (map (t_left P L) (take i (tasks c)))
      + t_left P L (tasks c ! i) + sum_list (map (t_left P L) (drop (Suc i) (tasks c)))"
    by (metis (no_types, lifting) add.assoc list.simps(9) map_append sum_list.Cons sum_list_append)
  moreover have "tasks c' = take i (tasks c) @ t # drop (Suc i) (tasks c)"
    using i by (simp add: c' upd_conv_take_nth_drop)
  ultimately show ?thesis using fewer [OF m] by simp
qed

lemma wait_free:
  assumes "(tstep M ^^ n) c d"
  shows "n + sum_list (map (t_left P L) (tasks d)) \<le> sum_list (map (t_left P L) (tasks c))"
  using assms
proof (induction n arbitrary: d)
  case (Suc n)
  then obtain b where b: "(tstep M ^^ n) c b" "tstep M b d" by auto
  from steps_bound [OF b(2)] Suc.IH [OF b(1)] show ?case by simp
qed auto

lemma progress:
  assumes "\<And>t. t \<in> set (tasks c) \<Longrightarrow> \<not> t_ended P t \<Longrightarrow> \<exists>t' fs' ef. M t (tree c) t' fs' ef"
  shows "(\<exists>d. tstep M c d) \<longleftrightarrow> (\<exists>t \<in> set (tasks c). \<not> t_ended P t)"
proof
  assume "\<exists>d. tstep M c d"
  then show "\<exists>t \<in> set (tasks c). \<not> t_ended P t" by (auto elim!: tstepE dest!: running)
next
  assume "\<exists>t \<in> set (tasks c). \<not> t_ended P t"
  then obtain i where "i < length (tasks c)" "\<not> t_ended P (tasks c ! i)" by (auto simp: in_set_conv_nth)
  with assms [of "tasks c ! i"] show "\<exists>d. tstep M c d" using tstep.move [of i c M] nth_mem by metis
qed

text \<open>The tree stays well-formed.\<close>

lemma tstep_tree_good:
  assumes "tstep M c c'" "tgood P L c" "tree_good P L c"
  shows "tree_good P L c'"
  using assms(1)
proof (rule tstepE)
  fix i t fs ef
  assume c': "c' = c\<lparr>tasks := (tasks c)[i := t], tree := fs, history := persist ef (history c)\<rparr>"
    and i: "i < length (tasks c)" and m: "M (tasks c ! i) (tree c) t fs ef"
  have "tasks c ! i \<in> set (tasks c)" using i by simp
  then have "local_ok_key (t_key P (tasks c ! i))" "t_sound P L (tasks c ! i)" "names_ok (t_paths P (tasks c ! i))"
    using assms(2,3) by (auto simp: tgood_def task_ok_def tree_good_def)
  with well_formed [OF m] assms(3) have "fs_wf fs \<and> names_ok (t_paths P t)"
    by (auto simp: tree_good_def)
  then show ?thesis
    using assms(3) set_update_subset_insert [of "tasks c" i t]
    by (auto simp: c' tree_good_def local_invar_def)
qed

lemma trun_tree_good:
  assumes "starts P L c0" "local_invar L (tree c0)" "trun M c0 c"
  shows "tree_good P L c"
  using assms(3)
proof (induction rule: rtranclp_induct)
  case base
  then show ?case using assms(1,2) idle by (auto simp: tree_good_def starts_def names_ok_def)
next
  case (step c c')
  then show ?case using tstep_tree_good trun_good [OF step.hyps(1) initial_good [OF assms(1)]] by blast
qed

end

section \<open>Two stores on one tree\<close>

text \<open>The tasks of two stores side by side.\<close>

definition beside :: "'a protocol \<Rightarrow> 'b protocol \<Rightarrow> ('a + 'b) protocol" where
  "beside P Q =
     \<lparr>t_starting = case_sum (t_starting P) (t_starting Q), t_ended = case_sum (t_ended P) (t_ended Q),
      t_key = case_sum (t_key P) (t_key Q), t_sound = (\<lambda>L. case_sum (t_sound P L) (t_sound Q L)),
      t_temp = case_sum (t_temp P) (t_temp Q), t_filled = case_sum (t_filled P) (t_filled Q),
      t_stored = case_sum (t_stored P) (t_stored Q), t_outcome = case_sum (t_outcome P) (t_outcome Q),
      t_answers = case_sum (t_answers P) (t_answers Q), t_looked = case_sum (t_looked P) (t_looked Q),
      t_left = (\<lambda>L. case_sum (t_left P L) (t_left Q L)), t_paths = case_sum (t_paths P) (t_paths Q)\<rparr>"

fun moves ::
  "('a \<Rightarrow> node \<Rightarrow> 'a \<Rightarrow> node \<Rightarrow> effect \<Rightarrow> bool) \<Rightarrow> ('b \<Rightarrow> node \<Rightarrow> 'b \<Rightarrow> node \<Rightarrow> effect \<Rightarrow> bool)
     \<Rightarrow> 'a + 'b \<Rightarrow> node \<Rightarrow> 'a + 'b \<Rightarrow> node \<Rightarrow> effect \<Rightarrow> bool" where
  "moves M N (Inl t) fs (Inl t') fs' ef = M t fs t' fs' ef"
| "moves M N (Inr t) fs (Inr t') fs' ef = N t fs t' fs' ef"
| "moves M N t fs t' fs' ef = False"

fun_cases movesE: "moves M N t fs t' fs' ef"

lemma beside_simps [simp]:
  "t_starting (beside P Q) = case_sum (t_starting P) (t_starting Q)" "t_ended (beside P Q) = case_sum (t_ended P) (t_ended Q)"
  "t_key (beside P Q) = case_sum (t_key P) (t_key Q)" "t_sound (beside P Q) L = case_sum (t_sound P L) (t_sound Q L)"
  "t_temp (beside P Q) = case_sum (t_temp P) (t_temp Q)" "t_filled (beside P Q) = case_sum (t_filled P) (t_filled Q)"
  "t_stored (beside P Q) = case_sum (t_stored P) (t_stored Q)" "t_outcome (beside P Q) = case_sum (t_outcome P) (t_outcome Q)"
  "t_answers (beside P Q) = case_sum (t_answers P) (t_answers Q)" "t_looked (beside P Q) = case_sum (t_looked P) (t_looked Q)"
  "t_left (beside P Q) L = case_sum (t_left P L) (t_left Q L)" "t_paths (beside P Q) = case_sum (t_paths P) (t_paths Q)"
  by (simp_all add: beside_def)

lemma beside_ok [simp]:
  "task_ok (beside P Q) L fs h (Inl t) = task_ok P L fs h t" "task_ok (beside P Q) L fs h (Inr u) = task_ok Q L fs h u"
  "step_ok (beside P Q) L (Inl t) fs h (Inl t') fs' h' = step_ok P L t fs h t' fs' h'"
  "step_ok (beside P Q) L (Inr u) fs h (Inr u') fs' h' = step_ok Q L u fs h u' fs' h'"
  by (simp_all add: task_ok_def step_ok_def Let_def cong: option.case_cong)

locale two_stores = one: tree_tasks L P M + other: tree_tasks L Q N for L P M Q N
begin

sublocale both: tree_tasks L "beside P Q" "moves M N"
proof
  fix t fs t' fs' ef h
  assume m: "moves M N t fs t' fs' ef"
  show "\<not> t_ended (beside P Q) t"
    using m by (auto elim!: movesE dest: one.running other.running)
  show "t_left (beside P Q) L t' < t_left (beside P Q) L t"
    using m by (auto elim!: movesE dest: one.fewer other.fewer)
  show "step_ok (beside P Q) L t fs h t' fs' (persist ef h)" if "task_ok (beside P Q) L fs h t"
    using m that by (auto elim!: movesE intro: one.step_ok other.step_ok)
  show "t_answers (beside P Q) t' (local_view L fs)
      \<or> t_looked (beside P Q) t \<and> (\<forall>v. t_answers (beside P Q) t v \<longrightarrow> t_answers (beside P Q) t' v)"
    if "local_ok_key (t_key (beside P Q) t)" "t_sound (beside P Q) L t"
    using m
  proof (rule movesE)
    fix u u' assume "t = Inl u" "t' = Inl u'" "M u fs u' fs' ef"
    with that one.answers [of u fs u' fs' ef] show ?thesis by simp
  next
    fix u u' assume "t = Inr u" "t' = Inr u'" "N u fs u' fs' ef"
    with that other.answers [of u fs u' fs' ef] show ?thesis by simp
  qed
  show "fs_wf fs' \<and> names_ok (t_paths (beside P Q) t')"
    if "local_invar L fs" "local_ok_key (t_key (beside P Q) t)" "t_sound (beside P Q) L t"
      "names_ok (t_paths (beside P Q) t)"
    using m
  proof (rule movesE)
    fix u u' assume "t = Inl u" "t' = Inl u'" "M u fs u' fs' ef"
    with that one.well_formed [of u fs u' fs' ef] show ?thesis by simp
  next
    fix u u' assume "t = Inr u" "t' = Inr u'" "N u fs u' fs' ef"
    with that other.well_formed [of u fs u' fs' ef] show ?thesis by simp
  qed
next
  fix t
  show "t_answers (beside P Q) t v" if "\<not> t_looked (beside P Q) t" for v
    using that by (cases t) (auto intro: one.unlooked other.unlooked)
  show "t_ended (beside P Q) t" if "t_outcome (beside P Q) t \<noteq> None"
    using that by (cases t) (auto intro: one.outcome_ended other.outcome_ended)
  show "t_answers (beside P Q) t v = t_answers (beside P Q) t w"
    if "v (t_key (beside P Q) t) = w (t_key (beside P Q) t)" for v w
    using that one.answers_key [of v _ w] other.answers_key [of v _ w] by (cases t) simp_all
  show "t_temp (beside P Q) t = None \<and> \<not> t_ended (beside P Q) t \<and> t_paths (beside P Q) t = {}"
    if "t_starting (beside P Q) t"
    using that by (cases t) (simp_all add: one.idle other.idle)
qed

end

section \<open>Schedules, for the examples\<close>

text \<open>One step of task \<open>i\<close> by an executable step function, which says \<open>None\<close> where the task cannot move.\<close>

definition exec_step ::
  "('e \<Rightarrow> 't \<Rightarrow> node \<Rightarrow> ('t \<times> node \<times> effect) option) \<Rightarrow> nat \<Rightarrow> 'e \<Rightarrow> 't config \<Rightarrow> 't config" where
  "exec_step S i e c =
     (if i < length (tasks c) then
        (case S e (tasks c ! i) (tree c) of
           Some (t, fs, ef) \<Rightarrow> c\<lparr>tasks := (tasks c)[i := t], tree := fs, history := persist ef (history c)\<rparr>
         | None \<Rightarrow> c)
      else c)"

fun exec_run ::
  "('e \<Rightarrow> 't \<Rightarrow> node \<Rightarrow> ('t \<times> node \<times> effect) option) \<Rightarrow> (nat \<times> 'e) list \<Rightarrow> 't config \<Rightarrow> 't config" where
  "exec_run S [] c = c"
| "exec_run S ((i, e) # s) c = exec_run S s (exec_step S i e c)"

lemma exec_tstep:
  assumes "S e (tasks c ! i) (tree c) = Some (t, fs, ef)" "i < length (tasks c)" "M (tasks c ! i) (tree c) t fs ef"
  shows "tstep M c (exec_step S i e c)"
  using tstep.move [of i c M t fs ef] assms by (simp add: exec_step_def)

end
