(* ===== verification/Local_Concurrent.thy ===== *)
theory Local_Concurrent
  imports Concurrent
begin

text \<open>
  The tasks of \<open>LocalStore\<close> keep the protocol: any number of its operations may run at once on one tree,
  interleaved between system calls, every call of which may fail. The writes that returned \<open>Ok\<close> are
  linearisable, a power failure at any moment leaves whole payloads, temporary files are private, every
  operation ends, and the tree stays well-formed.
\<close>

section \<open>What the protocol sees of a task\<close>

fun is_start :: "task \<Rightarrow> bool" where
  "is_start (PutStart k d) = True"
| "is_start (GetStart k) = True"
| "is_start (DeleteStart k) = True"
| "is_start (ExistsStart k) = True"
| "is_start t = False"

fun task_key :: "task \<Rightarrow> object_key" where
  "task_key (PutStart k d) = k"
| "task_key (PutDirs k d dest m) = k"
| "task_key (PutTemp k d dest) = k"
| "task_key (PutWrite k d dest tmp) = k"
| "task_key (PutFlush k d dest tmp) = k"
| "task_key (PutSync k d dest tmp) = k"
| "task_key (PutPersist k d dest tmp) = k"
| "task_key (PutDrop k d tmp err) = k"
| "task_key (PutDone k d r) = k"
| "task_key (GetStart k) = k"
| "task_key (GetDone k r) = k"
| "task_key (DeleteStart k) = k"
| "task_key (DeleteDone k r) = k"
| "task_key (ExistsStart k) = k"
| "task_key (ExistsDone k r) = k"

fun own_temp :: "task \<Rightarrow> path option" where
  "own_temp (PutWrite k d dest tmp) = Some tmp"
| "own_temp (PutFlush k d dest tmp) = Some tmp"
| "own_temp (PutSync k d dest tmp) = Some tmp"
| "own_temp (PutPersist k d dest tmp) = Some tmp"
| "own_temp (PutDrop k d tmp err) = Some tmp"
| "own_temp t = None"

fun task_dest :: "task \<Rightarrow> fs_path option" where
  "task_dest (PutDirs k d dest m) = Some dest"
| "task_dest (PutTemp k d dest) = Some dest"
| "task_dest (PutWrite k d dest tmp) = Some dest"
| "task_dest (PutFlush k d dest tmp) = Some dest"
| "task_dest (PutSync k d dest tmp) = Some dest"
| "task_dest (PutPersist k d dest tmp) = Some dest"
| "task_dest t = None"

text \<open>What must be in the temporary file, and what must have reached the disk.\<close>

fun written :: "task \<Rightarrow> bytes option" where
  "written (PutFlush k d dest tmp) = Some d"
| "written (PutSync k d dest tmp) = Some d"
| "written (PutPersist k d dest tmp) = Some d"
| "written t = None"

fun synced :: "task \<Rightarrow> bytes option" where
  "synced (PutPersist k d dest tmp) = Some d"
| "synced t = None"

text \<open>The write a finished task has made, and what it returned to a reader.\<close>

fun committed :: "task \<Rightarrow> (object_key \<times> bytes option) option" where
  "committed (PutDone k d (Inr i)) = Some (k, Some d)"
| "committed (DeleteDone k (Inr u)) = Some (k, None)"
| "committed t = None"

fun read_ok :: "task \<Rightarrow> (object_key \<Rightarrow> bytes option) \<Rightarrow> bool" where
  "read_ok (GetDone k (Inr d)) v \<longleftrightarrow> v k = Some d"
| "read_ok (GetDone k (Inl (NotFound m))) v \<longleftrightarrow> v k = None"
| "read_ok (ExistsDone k (Inr False)) v \<longleftrightarrow> v k = None"
| "read_ok t v \<longleftrightarrow> True"

fun mk_paths :: "mk_pc \<Rightarrow> path set" where
  "mk_paths (MkTry p ps) = insert p (set ps)"
| "mk_paths (MkRetry p ps) = insert p (set ps)"
| "mk_paths (MkCheck p e ps) = insert p (set ps)"
| "mk_paths (MkDone r) = {}"

text \<open>Every path a task will write to.\<close>

fun task_paths :: "task \<Rightarrow> path set" where
  "task_paths (PutDirs k d dest m) = insert (comps dest) (mk_paths m)"
| "task_paths (PutTemp k d dest) = {comps dest}"
| "task_paths (PutWrite k d dest tmp) = {comps dest, tmp}"
| "task_paths (PutFlush k d dest tmp) = {comps dest, tmp}"
| "task_paths (PutSync k d dest tmp) = {comps dest, tmp}"
| "task_paths (PutPersist k d dest tmp) = {comps dest, tmp}"
| "task_paths (PutDrop k d tmp err) = {tmp}"
| "task_paths t = {}"

definition local_protocol :: "task protocol" where
  "local_protocol =
     \<lparr>t_starting = is_start, t_ended = finished, t_key = task_key,
      t_sound = (\<lambda>L t. case task_dest t of Some dest \<Rightarrow> dest = FsPath (key_path L (task_key t)) Plain | None \<Rightarrow> True),
      t_temp = own_temp, t_filled = written, t_stored = synced, t_outcome = committed, t_answers = read_ok,
      t_looked = finished, t_left = steps_left, t_paths = task_paths\<rparr>"

lemma local_protocol_simps [simp]:
  "t_starting local_protocol = is_start" "t_ended local_protocol = finished" "t_key local_protocol = task_key"
  "t_sound local_protocol L t \<longleftrightarrow> (\<forall>dest. task_dest t = Some dest \<longrightarrow> dest = FsPath (key_path L (task_key t)) Plain)"
  "t_temp local_protocol = own_temp" "t_filled local_protocol = written" "t_stored local_protocol = synced"
  "t_outcome local_protocol = committed" "t_answers local_protocol = read_ok" "t_looked local_protocol = finished"
  "t_left local_protocol = steps_left" "t_paths local_protocol = task_paths"
  by (simp_all add: local_protocol_def split: option.splits)

text \<open>A step in some environment whose calls keep their promises.\<close>

definition local_move :: "local_store \<Rightarrow> task \<Rightarrow> node \<Rightarrow> task \<Rightarrow> node \<Rightarrow> effect \<Rightarrow> bool" where
  "local_move L t fs t' fs' ef \<longleftrightarrow>
     \<not> finished t \<and> (\<exists>e. local_env_ok e \<and> task_step L e t fs = (t', fs', ef))"

abbreviation lrun :: "local_store \<Rightarrow> task config \<Rightarrow> task config \<Rightarrow> bool" where
  "lrun L \<equiv> trun (local_move L)"

section \<open>The laws\<close>

abbreviation "task_okL \<equiv> task_ok local_protocol"

abbreviation "step_okL \<equiv> step_ok local_protocol"

lemma mk_step_effect:
  assumes "mk_step flt m fs = (m', fs')"
  shows "file_at fs' = file_at fs"
  using assms by (cases m) (auto split: prod.splits sum.splits if_splits dest: sys_mkdir_effect(1))

lemma temp_of_name: "dest = FsPath (key_path L k) Plain \<Longrightarrow> temp_name (temp_of L e dest)"
  by (simp add: temp_name_def temp_of_def path_parent_def starts_with_iff)

lemma start_ok:
  assumes "task_okL L fs h t" "is_start t" "task_step L e t fs = (t', fs', ef)"
  shows "step_okL L t fs h t' fs' (persist ef h)"
proof (cases t)
  case (PutStart k d)
  with assms show ?thesis
    by (intro same_files_ok)
      (auto simp: task_ok_def ok_key_resolve path_parent_def split: if_splits)
next
  case (GetStart k)
  with assms show ?thesis by (intro same_files_ok) (auto simp: task_ok_def)
next
  case (ExistsStart k)
  with assms show ?thesis by (intro same_files_ok) (auto simp: task_ok_def)
next
  case (DeleteStart k)
  with assms(1) have k: "local_ok_key k" by (simp add: task_ok_def)
  obtain r fs1 where u: "sys_unlink (faults_of e) (FsPath (key_path L k) Plain) fs = (r, fs1)"
    by (cases "sys_unlink (faults_of e) (FsPath (key_path L k) Plain) fs")
  show ?thesis
  proof (cases r)
    case (Inl er)
    with DeleteStart assms u sys_unlink_effect(1) [OF u] show ?thesis
      by (intro same_files_ok) (auto simp: ok_key_resolve [OF k] split: if_splits)
  next
    case (Inr v)
    with DeleteStart assms(1,3) u delete_key_ok [OF assms(1), of "faults_of e" v fs1 t'] show ?thesis
      by (auto simp: ok_key_resolve [OF k])
  qed
qed (use assms in auto)

lemma temp_made_ok:
  assumes "task_okL L fs h (PutTemp k d dest)" "task_step L e (PutTemp k d dest) fs = (t', fs', ef)"
  shows "step_okL L (PutTemp k d dest) fs h t' fs' (persist ef h)"
proof -
  let ?tmp = "temp_of L e dest"
  from assms(1) have dest: "dest = FsPath (key_path L k) Plain" by (auto simp: task_ok_def)
  obtain r fs1 where mk: "sys_create_new (faults_of e) ?tmp fs = (r, fs1)"
    by (cases "sys_create_new (faults_of e) ?tmp fs")
  show ?thesis
  proof (cases r)
    case (Inl er)
    with assms mk sys_create_new_fail [of "faults_of e" ?tmp fs er] show ?thesis
      by (intro same_files_ok) auto
  next
    case (Inr u)
    with assms(2) mk have t': "t' = PutWrite k d dest ?tmp" "fs' = fs1" "ef = Created ?tmp"
      by (auto simp: Let_def)
    with dest temp_of_name [OF dest] show ?thesis
      unfolding t' by (intro create_temp_ok [OF assms(1) mk [unfolded Inr]]) auto
  qed
qed

lemma put_step_ok:
  assumes "task_okL L fs h t" "own_temp t = Some tmp" "task_step L e t fs = (t', fs', ef)"
  shows "step_okL L t fs h t' fs' (persist ef h)"
proof -
  from assms(1,2) obtain x where tmp: "tmp \<noteq> []" "file_at fs tmp = Some x"
    and dest: "\<And>dest. task_dest t = Some dest \<Longrightarrow> dest = FsPath (key_path L (task_key t)) Plain"
    by (auto simp: task_ok_def temp_name_def)
  note ok = assms(1) and owns = assms(2) [folded local_protocol_simps(5)]
  show ?thesis
  proof (cases t)
    case (PutWrite k d dest' tmp')
    with assms(2) have [simp]: "tmp' = tmp" by simp
    obtain r fs1 where wr: "sys_write_all (faults_of e) (partial_write e) tmp d fs = (r, fs1)"
      by (cases "sys_write_all (faults_of e) (partial_write e) tmp d fs")
    from assms(3) PutWrite wr dest sys_write_all_effect(1) [OF wr tmp(2,1)] fill_temp_ok [OF ok owns, of fs' _ t'] show ?thesis
      by (cases r) auto
  next
    case (PutFlush k d dest' tmp')
    with assms dest show ?thesis by (intro keep_temp_ok [OF ok owns]) (auto split: sum.splits)
  next
    case (PutSync k d dest' tmp')
    with assms(2,3) dest keep_temp_ok [OF ok owns, of fs h t'] sync_temp_ok [OF ok owns, of d t'] show ?thesis
      by (auto split: sum.splits)
  next
    case (PutPersist k d dest' tmp')
    with assms(2) dest have [simp]: "tmp' = tmp" "dest' = FsPath (key_path L k) Plain" by simp_all
    obtain r fs1 where rn: "sys_rename (faults_of e) tmp dest' fs = (r, fs1)"
      by (cases "sys_rename (faults_of e) tmp dest' fs")
    show ?thesis
    proof (cases r)
      case (Inl er)
      with PutPersist assms(3) rn sys_rename_fail [of "faults_of e" tmp dest' fs er fs1] show ?thesis
        by (intro keep_temp_ok [OF ok owns]) auto
    next
      case (Inr u)
      with PutPersist assms(3) rn rename_temp_ok [OF ok owns, of d "faults_of e" u fs1 t'] show ?thesis by auto
    qed
  next
    case (PutDrop k d tmp' err)
    with assms(2) have [simp]: "tmp' = tmp" by simp
    obtain r fs1 where u: "sys_unlink (faults_of e) (FsPath tmp Plain) fs = (r, fs1)"
      by (cases "sys_unlink (faults_of e) (FsPath tmp Plain) fs")
    from assms(3) PutDrop u sys_unlink_effect(3) [OF u] keep_temp_ok [OF ok owns, of fs h t']
      remove_temp_ok [OF ok owns, of "faults_of e" _ fs1 t'] show ?thesis
      by (cases r) auto
  qed (use assms(2) in auto)
qed

lemma task_step_ok:
  assumes "task_okL L fs h t" "\<not> finished t" "task_step L e t fs = (t', fs', ef)"
  shows "step_okL L t fs h t' fs' (persist ef h)"
proof (cases "own_temp t")
  case (Some tmp)
  then show ?thesis using put_step_ok [OF assms(1) _ assms(3)] by simp
next
  case None
  show ?thesis
  proof (cases t)
    case (PutDirs k d dest m)
    show ?thesis
    proof (cases "mk_result m")
      case None
      obtain m' fs1 where "mk_step (faults_of e) m fs = (m', fs1)" by (cases "mk_step (faults_of e) m fs")
      with None PutDirs assms mk_step_effect [of "faults_of e" m fs m' fs1] show ?thesis
        by (intro same_files_ok) (auto simp: task_ok_def)
    next
      case (Some r)
      with PutDirs assms show ?thesis by (cases r; intro same_files_ok) (auto simp: task_ok_def)
    qed
  next
    case (PutTemp k d dest)
    with assms show ?thesis using temp_made_ok by simp
  qed (use None assms start_ok [OF assms(1) _ assms(3)] in simp_all)
qed

lemma task_step_read:
  assumes "local_ok_key (task_key t)" "local_env_ok e" "\<not> finished t" "task_step L e t fs = (t', fs', ef)"
  shows "read_ok t' (local_view L fs)"
proof (cases t)
  case (GetStart k)
  have missing: "local_view L fs k = None" if "local_get L e k fs = Inl (NotFound m)" for m
    using that assms(1,2) GetStart
    by (cases fs "key_path L k" rule: node_cases_at)
      (auto simp: local_get_def ok_key_resolve sys_read_def local_view_def local_env_ok_def lookup_at from_io_def
        split: option.splits sum.splits if_splits)
  from GetStart assms(4) have t': "t' = GetDone k (local_get L e k fs)" by auto
  show ?thesis
  proof (cases "local_get L e k fs")
    case (Inl err)
    with t' missing show ?thesis by (cases err) auto
  next
    case (Inr d)
    with t' assms(1) GetStart show ?thesis by (auto dest: local_get_view)
  qed
next
  case (ExistsStart k)
  with assms(4) have t': "t' = ExistsDone k (local_exists L e k fs)" by auto
  show ?thesis
  proof (cases "local_exists L e k fs")
    case (Inr b)
    with t' local_exists_False [OF _ assms(2), of k L fs] assms(1) ExistsStart show ?thesis by (cases b) auto
  qed (use t' in simp)
qed (use assms in \<open>auto split: sum.splits prod.splits option.splits if_splits simp: Let_def\<close>)

lemma mk_return_paths: "mk_paths (mk_return ps) = set ps"
  by (cases ps) auto

lemma mk_step_wf:
  assumes "mk_step flt m fs = (m', fs')" "fs_wf fs" "names_ok (mk_paths m)"
  shows "fs_wf fs' \<and> names_ok (mk_paths m')"
proof -
  have mk: "fs_wf fs1" if "sys_mkdir flt p fs = (r, fs1)" "list_all name_ok p" for p r fs1
    using fs_wf_calls(1) [OF assms(2) that(2), of flt] that(1) by simp
  from assms show ?thesis
    by (cases m) (auto simp: names_ok_def mk_return_paths list_all_butlast mk split: prod.splits sum.splits if_splits
        dest: mk)
qed

lemma dirs_step_wf:
  assumes "task_step L e (PutDirs k d dest m) fs = (t', fs', ef)" "fs_wf fs" "names_ok (task_paths (PutDirs k d dest m))"
  shows "fs_wf fs' \<and> names_ok (task_paths t')"
proof (cases "mk_result m")
  case None
  obtain m' fs1 where m: "mk_step (faults_of e) m fs = (m', fs1)" by (cases "mk_step (faults_of e) m fs")
  have "names_ok (mk_paths m)" using assms(3) by (auto simp: names_ok_def)
  from mk_step_wf [OF m assms(2) this] None m assms(1,3) show ?thesis by (auto simp: names_ok_def)
next
  case (Some r)
  with assms show ?thesis by (cases r) (auto simp: names_ok_def)
qed

lemma task_step_wf:
  assumes "task_step L e t fs = (t', fs', ef)" "local_invar L fs" "local_env_ok e" "local_ok_key (task_key t)"
    "names_ok (task_paths t)"
  shows "fs_wf fs' \<and> names_ok (task_paths t')"
proof -
  have wf: "fs_wf fs" and rt: "list_all name_ok (root L)" using assms(2) by (auto simp: local_invar_def)
  have key: "list_all name_ok (key_path L (task_key t))" using key_path_names [OF assms(4) rt] .
  note calls = fs_wf_calls [OF wf, where flt = "faults_of e"]
  show ?thesis
  proof (cases t)
    case (PutStart k d)
    with assms(1,4) key wf show ?thesis
      by (auto simp: names_ok_def ok_key_resolve path_parent_def list_all_butlast split: if_splits)
  next
    case (PutDirs k d dest m)
    from dirs_step_wf [OF assms(1) [unfolded this] wf assms(5) [unfolded this]] show ?thesis .
  next
    case (PutTemp k d dest)
    have "list_all name_ok (temp_of L e dest)"
      using tmp_name_ok [OF assms(3)] rt assms(5) PutTemp
      by (auto simp: temp_of_def path_parent_def names_ok_def list_all_butlast)
    with calls(2) [of "temp_of L e dest"] PutTemp assms(1,5) show ?thesis
      by (auto simp: Let_def names_ok_def split: prod.splits sum.splits)
  next
    case (PutWrite k d dest tmp)
    with calls(3) [of tmp "partial_write e" d] assms(1,5) show ?thesis
      by (auto simp: names_ok_def split: prod.splits sum.splits)
  next
    case (PutPersist k d dest tmp)
    with calls(5) [of dest tmp] assms(1,5) show ?thesis
      by (auto simp: names_ok_def split: prod.splits sum.splits)
  next
    case (PutDrop k d tmp err)
    with calls(4) [of "FsPath tmp Plain"] assms(1,5) show ?thesis
      by (auto simp: names_ok_def split: prod.splits sum.splits)
  next
    case (DeleteStart k)
    with calls(4) assms(1) wf show ?thesis
      by (auto simp: names_ok_def split: prod.splits sum.splits) (metis snd_conv)+
  qed (use assms(1,5) wf in \<open>auto simp: names_ok_def split: sum.splits\<close>)
qed

lemma read_ok_cong: "v (task_key t) = w (task_key t) \<Longrightarrow> read_ok t v \<longleftrightarrow> read_ok t w"
  by (cases "(t, v)" rule: read_ok.cases) auto

lemma committed_finished: "committed t \<noteq> None \<Longrightarrow> finished t"
  by (cases t rule: committed.cases) auto

lemma read_ok_unfinished: "\<not> finished t \<Longrightarrow> read_ok t v"
  by (cases t) auto

interpretation ltasks: tree_tasks L local_protocol "local_move L" for L
proof
  fix t fs t' fs' ef h
  assume "local_move L t fs t' fs' ef"
  then obtain e where m: "\<not> finished t" "local_env_ok e" "task_step L e t fs = (t', fs', ef)"
    by (auto simp: local_move_def)
  show "\<not> t_ended local_protocol t" using m(1) by simp
  show "t_left local_protocol L t' < t_left local_protocol L t"
    using task_step_left [OF m(1), of L e fs] m(3) by simp
  show "step_okL L t fs h t' fs' (persist ef h)" if "task_okL L fs h t"
    by (rule task_step_ok [OF that m(1,3)])
  show "t_answers local_protocol t' (local_view L fs)
      \<or> t_looked local_protocol t \<and> (\<forall>v. t_answers local_protocol t v \<longrightarrow> t_answers local_protocol t' v)"
    if "local_ok_key (t_key local_protocol t)"
    using task_step_read [OF _ m(2,1,3)] that by simp
  show "fs_wf fs' \<and> names_ok (t_paths local_protocol t')"
    if "local_invar L fs" "local_ok_key (t_key local_protocol t)" "names_ok (t_paths local_protocol t)"
    using task_step_wf [OF m(3) that(1) m(2)] that by simp
next
  fix t
  show "t_answers local_protocol t v" if "\<not> t_looked local_protocol t" for v
    using that by (simp add: read_ok_unfinished)
  show "t_ended local_protocol t" if "t_outcome local_protocol t \<noteq> None"
    using that by (simp add: committed_finished)
  show "t_answers local_protocol t v = t_answers local_protocol t w"
    if "v (t_key local_protocol t) = w (t_key local_protocol t)" for v w
    using that read_ok_cong [of v t w] by simp
  show "t_temp local_protocol t = None \<and> \<not> t_ended local_protocol t \<and> t_paths local_protocol t = {}"
    if "t_starting local_protocol t"
    using that by (cases t) auto
qed

lemma local_can_move: "\<not> finished t \<Longrightarrow> \<exists>t' fs' ef. local_move L t fs t' fs' ef"
  using calm_simps(3) unfolding local_move_def by (metis prod_cases3)

section \<open>A run, for the examples\<close>

definition local_exec :: "local_store \<Rightarrow> local_env \<Rightarrow> task \<Rightarrow> node \<Rightarrow> (task \<times> node \<times> effect) option" where
  "local_exec L e t fs = (if finished t then None else Some (task_step L e t fs))"

lemma local_exec_tstep:
  assumes "local_env_ok e" "i < length (tasks c)" "\<not> finished (tasks c ! i)"
  shows "tstep (local_move L) c (exec_step (local_exec L) i e c)"
proof -
  obtain t fs ef where "task_step L e (tasks c ! i) (tree c) = (t, fs, ef)"
    by (cases "task_step L e (tasks c ! i) (tree c)")
  with assms show ?thesis by (intro exec_tstep) (auto simp: local_exec_def local_move_def)
qed

lemma local_exec_step:
  assumes "local_env_ok e"
  shows "trun (local_move L) c (exec_step (local_exec L) i e c)"
proof (cases "i < length (tasks c) \<and> \<not> finished (tasks c ! i)")
  case True
  with local_exec_tstep [OF assms] show ?thesis by blast
qed (auto simp: exec_step_def local_exec_def)

lemma local_exec_run:
  assumes "\<forall>x \<in> set s. local_env_ok (snd x)"
  shows "lrun L c (exec_run (local_exec L) s c)"
  using assms
proof (induction "local_exec L" s c rule: exec_run.induct)
  case (2 i e s c)
  have "lrun L c (exec_step (local_exec L) i e c)" using local_exec_step 2(2) by simp
  with 2 show ?case by (auto intro: rtranclp_trans)
qed simp

text \<open>Two puts of one key, whose temporary files have different names, and a get.\<close>

definition race :: "task config" where
  "race = \<lparr>tasks = [PutStart (ObjectKey ''d/g'') [7], PutStart (ObjectKey ''d/g'') [8, 9], GetStart (ObjectKey ''d/g'')],
     tree = tree_r, history = (\<lambda>p. [settled (file_at tree_r p)])\<rparr>"

definition calm2 :: local_env where
  "calm2 = calm\<lparr>tmp_suffix := ''x2''\<rparr>"

definition race_schedule :: "(nat \<times> local_env) list" where
  "race_schedule = replicate 8 (0, calm) @ replicate 9 (1, calm2) @ [(2, calm), (0, calm)]"

definition race_end :: "task config" where
  "race_end = exec_run (local_exec store_r) race_schedule race"

lemma race_facts:
  "length (tasks race_end) = 3"
  "committed (tasks race_end ! 0) \<noteq> None \<and> committed (tasks race_end ! 1) \<noteq> None \<and> committed (tasks race_end ! 2) = None"
  "local_view store_r (tree race_end) (ObjectKey ''d/g'') = Some [7]"
  "history race_end [''r'', ''d'', ''g''] = [Whole [7], Whole [8, 9], Absent]"
  "read_ok (tasks race_end ! 2) (\<lambda>k. Some [8, 9])"
  by code_simp+

lemma race_initial: "starts local_protocol store_r race"
  by (simp add: starts_def history_ok_def race_def key_g local_view_def)

lemma race_run: "lrun store_r race race_end"
proof -
  have "local_env_ok calm2" by (simp add: calm2_def local_env_ok_def) (simp add: calm_def no_faults_def)
  then show ?thesis unfolding race_end_def by (intro local_exec_run) (auto simp: race_schedule_def)
qed

text \<open>The first put just before its rename.\<close>

definition race_mid :: "task config" where
  "race_mid = exec_run (local_exec store_r) (take 8 race_schedule) race"

lemma race_mid_run: "lrun store_r race race_mid"
  unfolding race_mid_def by (intro local_exec_run) (auto simp: race_schedule_def)

section \<open>Properties\<close>

text \<open>Linearisability: however the operations of one store are interleaved between their system calls, and whatever
  calls fail, from any moment \<open>c\<close> of a run to any later one \<open>d\<close> the objects change as if the puts and deletes that
  returned \<open>Ok\<close> in between had run one after the other, each at once, and those that failed or have not returned had
  not run; every get and every negative answer of exists that was open at \<open>c\<close> is what one of the maps in
  between holds.\<close>

theorem local_linearisable:
  assumes "starts local_protocol L c0" "lrun L c0 c" "lrun L c d"
  shows "\<exists>log. distinct log
     \<and> set log = {i. i < length (tasks d) \<and> committed (tasks c ! i) = None \<and> committed (tasks d ! i) \<noteq> None}
     \<and> (\<forall>k. local_ok_key k \<longrightarrow> local_view L (tree d) k = replay local_protocol (local_view L (tree c)) (tasks d) log k)
     \<and> (\<forall>i. i < length (tasks d) \<and> \<not> finished (tasks c ! i) \<longrightarrow>
          (\<exists>n \<le> length log. read_ok (tasks d ! i) (replay local_protocol (local_view L (tree c)) (tasks d) (take n log))))"
  using ltasks.linearisable [OF assms] unfolding linearised_def by simp

theorem local_linearisable_witness:
  "\<exists>log. distinct log \<and> set log = {0, 1}
     \<and> replay local_protocol (local_view store_r tree_r) (tasks race_end) log (ObjectKey ''d/g'') = Some [7]"
proof -
  from local_linearisable [OF race_initial rtranclp.rtrancl_refl race_run] obtain log where log: "distinct log"
      "set log = {i. i < length (tasks race_end) \<and> committed (tasks race ! i) = None \<and> committed (tasks race_end ! i) \<noteq> None}"
      "\<And>k. local_ok_key k \<Longrightarrow> local_view store_r (tree race_end) k = replay local_protocol (local_view store_r (tree race)) (tasks race_end) log k"
    by blast
  have "i \<in> set log \<longleftrightarrow> i = 0 \<or> i = 1" for i
  proof -
    have "i < 3 \<longleftrightarrow> i = 0 \<or> i = 1 \<or> i = 2" by linarith
    moreover have "committed (tasks race ! 0) = None" "committed (tasks race ! 1) = None"
      by (simp_all add: race_def)
    ultimately show ?thesis using race_facts(1,2) unfolding log(2) mem_Collect_eq by metis
  qed
  then have "set log = {0, 1}" by blast
  with log(1) log(3) [OF key_g] race_facts(3) show ?thesis by (auto simp: race_def)
qed

text \<open>Power failure: at every moment of every interleaving, what a failure may leave under a storable key is exactly
  what it could have left at the start, or a whole payload that a put of that key returned \<open>Ok\<close> for, or nothing if a
  delete of it returned \<open>Ok\<close>: never part of a payload, since the temporary file is synced before the rename. The old
  content is never ruled out: the directory is not synced, so an \<open>Ok\<close> put may be lost.\<close>

theorem local_power_failure:
  assumes "starts local_protocol L c0" "lrun L c0 c" "local_ok_key k"
  shows "set (history c (key_path L k)) = set (history c0 (key_path L k))
     \<union> {settled x | x. \<exists>t \<in> set (tasks c). committed t = Some (k, x)}
    \<and> hd (history c (key_path L k)) = settled (local_view L (tree c) k)"
  using ltasks.power_failure [OF assms] by simp

text \<open>Both payloads and the absent file may show after a failure, although both puts returned \<open>Ok\<close>.\<close>

theorem local_power_failure_witness:
  "set (history race_end [''r'', ''d'', ''g'']) = {Whole [7], Whole [8, 9], Absent}
   \<and> hd (history race_end [''r'', ''d'', ''g'']) = Whole [7]"
  using local_power_failure [OF race_initial race_run key_g] race_facts(3,4)
  by (simp add: key_path_def key_components_def settled_def)

text \<open>Temporary files: at every moment of every interleaving no two running puts share a temporary file, none is the
  file of a storable key, each is in the tree, holds the whole payload once written, and is on the disk as a whole
  before it can be renamed.\<close>

theorem local_temps_private:
  assumes "starts local_protocol L c0" "lrun L c0 c" "i < length (tasks c)" "own_temp (tasks c ! i) = Some tmp"
  shows "(\<forall>j < length (tasks c). own_temp (tasks c ! j) = Some tmp \<longrightarrow> j = i)
    \<and> (\<forall>k. local_ok_key k \<longrightarrow> key_path L k \<noteq> tmp)
    \<and> file_at (tree c) tmp \<noteq> None
    \<and> (written (tasks c ! i) = Some d \<longrightarrow> file_at (tree c) tmp = Some d)
    \<and> (synced (tasks c ! i) = Some d \<longrightarrow> hd (history c tmp) = Whole d)"
  using ltasks.temps_private [OF assms(1-3), of tmp d] assms(4) by simp

theorem local_temps_private_witness:
  "key_path store_r (ObjectKey ''d/g'') \<noteq> [''r'', ''d'', ''.blobkit-x1'']
   \<and> file_at (tree race_mid) [''r'', ''d'', ''.blobkit-x1''] = Some [7]"
proof -
  have "own_temp (tasks race_mid ! 0) = Some [''r'', ''d'', ''.blobkit-x1'']"
      "written (tasks race_mid ! 0) = Some [7]" "length (tasks race_mid) = 3"
    by code_simp+
  with local_temps_private [OF race_initial race_mid_run, of 0 "[''r'', ''d'', ''.blobkit-x1'']" "[7]"] key_g
  show ?thesis by auto
qed

text \<open>Every operation ends, whatever runs beside it: a run takes at most as many steps as its tasks have left, and it
  can go on until every task has returned.\<close>

theorem local_wait_free:
  "((tstep (local_move L) ^^ n) c d \<longrightarrow> n \<le> sum_list (map (steps_left L) (tasks c)))
    \<and> ((\<exists>d. tstep (local_move L) c d) \<longleftrightarrow> (\<exists>t \<in> set (tasks c). \<not> finished t))"
proof (intro conjI impI)
  show "n \<le> sum_list (map (steps_left L) (tasks c))" if "(tstep (local_move L) ^^ n) c d"
    using ltasks.wait_free [OF that] by simp
  show "(\<exists>d. tstep (local_move L) c d) \<longleftrightarrow> (\<exists>t \<in> set (tasks c). \<not> finished t)"
    by (rule ltasks.progress [of c L, simplified]) (rule local_can_move)
qed

theorem local_wait_free_witness: "\<not> (\<exists>d. (tstep (local_move store_r) ^^ 40) race d) \<and> (\<exists>d. tstep (local_move store_r) race d)"
proof -
  have "sum_list (map (steps_left store_r) (tasks race)) = 39" by code_simp
  moreover have "\<exists>t \<in> set (tasks race). \<not> finished t" by (simp add: race_def)
  ultimately show ?thesis
    using local_wait_free [of 40 store_r race] by fastforce
qed

end
