(* ===== verification/Local_Listing.thy ===== *)
theory Local_Listing
  imports Local_Concurrent
begin

text \<open>
  The listing of \<open>src/src/local.rs\<close> while other operations run. A walk reads one directory at a time, and
  the tree may change between two reads. It reports every key that was there all along, none that never
  was, and none twice. The tree stays well-formed under every interleaving.
\<close>

section \<open>The walk, directory by directory\<close>

datatype walk = Walking "path list" "object_key list" | Returned "object_key list result"

fun walk_step :: "local_store \<Rightarrow> local_env \<Rightarrow> string \<Rightarrow> node \<Rightarrow> walk \<Rightarrow> walk" where
  "walk_step L e pre fs (Walking [] out) = Returned (Inr (sort out))"
| "walk_step L e pre fs (Walking (dir # stack) out) =
     (case sys_read_dir (faults_of e) dir fs of
        Inl er \<Rightarrow> Returned (Inl (from_io er))
      | Inr es \<Rightarrow>
          (case scan_entries (to_string_lossy e) (root L) pre dir es (stack, out) of
             (stack', out') \<Rightarrow> Walking stack' out'))"
| "walk_step L e pre fs (Returned r) = Returned r"

text \<open>
  A listing in progress: \<open>ts\<close> are the trees it has lived through, the first when it began, the last the
  present one.
\<close>

inductive listing ::
  "'t protocol \<Rightarrow> ('t \<Rightarrow> node \<Rightarrow> 't \<Rightarrow> node \<Rightarrow> effect \<Rightarrow> bool) \<Rightarrow> local_store \<Rightarrow> string
     \<Rightarrow> node list \<Rightarrow> 't config \<Rightarrow> walk \<Rightarrow> bool" for P M L pre where
  begins: "starts P L c0 \<Longrightarrow> local_invar L (tree c0) \<Longrightarrow> trun M c0 c \<Longrightarrow>
    listing P M L pre [tree c] c (Walking [root L] [])"
| others: "listing P M L pre ts c w \<Longrightarrow> tstep M c c' \<Longrightarrow> listing P M L pre (ts @ [tree c']) c' w"
| scans: "listing P M L pre ts c w \<Longrightarrow> local_env_ok e \<Longrightarrow> listing P M L pre ts c (walk_step L e pre (tree c) w)"

text \<open>Alone, the walk is the listing of the store.\<close>

lemma walk_alone:
  "\<exists>n. (walk_step L e pre fs ^^ n) (Walking stack out) =
     Returned (and_then (local_walk (faults_of e) (to_string_lossy e) (root L) pre fs stack out) (\<lambda>out. Inr (sort out)))"
proof (induction "faults_of e" "to_string_lossy e" "root L" pre fs stack out rule: local_walk.induct)
  case (1 pre fs out)
  show ?case by (rule exI [of _ 1]) simp
next
  case (2 pre fs dir stack out)
  let ?W = "walk_step L e pre fs"
  show ?case
  proof (cases "sys_read_dir (faults_of e) dir fs")
    case (Inl er)
    then show ?thesis by (intro exI [of _ 1]) simp
  next
    case (Inr es)
    from 2 [OF Inr] obtain n where n: "(?W ^^ n) (Walking
        (fst (scan_entries (to_string_lossy e) (root L) pre dir es (stack, out)))
        (snd (scan_entries (to_string_lossy e) (root L) pre dir es (stack, out)))) =
      Returned (and_then (local_walk (faults_of e) (to_string_lossy e) (root L) pre fs (dir # stack) out)
        (\<lambda>out. Inr (sort out)))" by (auto simp: Inr)
    have "?W (Walking (dir # stack) out) = Walking
        (fst (scan_entries (to_string_lossy e) (root L) pre dir es (stack, out)))
        (snd (scan_entries (to_string_lossy e) (root L) pre dir es (stack, out)))"
      by (simp add: Inr split: prod.splits)
    with n show ?thesis by (intro exI [of _ "Suc n"]) (simp add: funpow_Suc_right del: funpow.simps walk_step.simps)
  qed
qed

section \<open>The invariant of a listing\<close>

definition matching :: "string \<Rightarrow> object_key \<Rightarrow> bool" where
  "matching pre k \<longleftrightarrow> key_wf k \<and> utf8_valid (as_str k) \<and> starts_with (as_str k) pre"

definition ever :: "local_store \<Rightarrow> node list \<Rightarrow> object_key \<Rightarrow> bool" where
  "ever L ts k \<longleftrightarrow> (\<exists>fs \<in> set ts. local_view L fs k \<noteq> None)"

definition always :: "local_store \<Rightarrow> node list \<Rightarrow> object_key \<Rightarrow> bool" where
  "always L ts k \<longleftrightarrow> (\<forall>fs \<in> set ts. local_view L fs k \<noteq> None)"

fun apart :: "path list \<Rightarrow> bool" where
  "apart [] = True"
| "apart (p # ps) = ((\<forall>q \<in> set ps. p \<parallel> q) \<and> apart ps)"

definition out_ok :: "local_store \<Rightarrow> string \<Rightarrow> node list \<Rightarrow> object_key list \<Rightarrow> bool" where
  "out_ok L pre ts out \<longleftrightarrow> distinct out \<and> (\<forall>k \<in> set out. matching pre k \<and> ever L ts k)"

definition walk_ok :: "local_store \<Rightarrow> string \<Rightarrow> node list \<Rightarrow> path list \<Rightarrow> object_key list \<Rightarrow> bool" where
  "walk_ok L pre ts stack out \<longleftrightarrow>
     out_ok L pre ts out
     \<and> (\<forall>p \<in> set stack. \<exists>q. p = root L @ q \<and> list_all name_ok q)
     \<and> apart stack
     \<and> (\<forall>k \<in> set out. \<forall>p \<in> set stack. \<not> prefix p (key_path L k))
     \<and> (\<forall>k. local_ok_key k \<and> matching pre k \<and> always L ts k \<longrightarrow>
          k \<in> set out \<or> (\<exists>p \<in> set stack. strict_prefix p (key_path L k)))"

fun listing_ok :: "local_store \<Rightarrow> string \<Rightarrow> node list \<Rightarrow> walk \<Rightarrow> bool" where
  "listing_ok L pre ts (Walking stack out) \<longleftrightarrow> walk_ok L pre ts stack out"
| "listing_ok L pre ts (Returned (Inr ks)) \<longleftrightarrow>
     out_ok L pre ts ks \<and> sorted ks \<and> (\<forall>k. local_ok_key k \<and> matching pre k \<and> always L ts k \<longrightarrow> k \<in> set ks)"
| "listing_ok L pre ts (Returned (Inl err)) \<longleftrightarrow> True"

lemma ever_always_append [simp]:
  "ever L (ts @ us) k \<longleftrightarrow> ever L ts k \<or> ever L us k" "always L (ts @ us) k \<longleftrightarrow> always L ts k \<and> always L us k"
  by (auto simp: ever_def always_def)

lemma listing_ok_grows: "listing_ok L pre ts w \<Longrightarrow> listing_ok L pre (ts @ us) w"
  by (cases "(L, pre, ts, w)" rule: listing_ok.cases) (auto simp: walk_ok_def out_ok_def)

lemma root_below: "strict_prefix (root L) (key_path L k)"
  by (simp add: key_path_def strict_prefix_def)

lemma file_at_below: "node_at fs p = Some (Dir es) \<Longrightarrow> file_at fs (p @ s) = file_at (Dir es) s"
  by (simp add: file_at_def node_at_append [of fs p])

lemma apart_append: "apart (ps @ qs) \<longleftrightarrow> apart ps \<and> apart qs \<and> (\<forall>p \<in> set ps. \<forall>q \<in> set qs. p \<parallel> q)"
  by (induction ps) auto

lemma parallel_children: "c \<noteq> c' \<Longrightarrow> p @ [c] \<parallel> p @ [c']"
  by (auto simp: parallel_def)

lemma apart_children:
  assumes "distinct (map fst es)"
  shows "apart (rev (map (\<lambda>(c, n). p @ [c]) (filter P es)))"
  using assms
proof (induction es)
  case (Cons x es)
  obtain c n where x: "x = (c, n)" by (cases x)
  with Cons.prems have "c' \<noteq> c" if "(c', n') \<in> set es" for c' n' using that by force
  with Cons x show ?case by (auto simp: apart_append intro!: parallel_children)
qed simp

text \<open>What one directory adds, given its entries.\<close>

lemma scan_found:
  assumes "fs_wf fs" "node_at fs (root L @ q) = Some (Dir es)" "list_all name_ok q"
    "(c, n) \<in> set es" "\<not> dir_at n []" "local_file_key (root L) pre ((root L @ q) @ [c]) = Some k"
  shows "matching pre k \<and> key_path L k = (root L @ q) @ [c] \<and> local_view L fs k \<noteq> None"
proof -
  from wf_entry [OF fs_wf_node_at [OF assms(1,2)] assms(4)]
  have n: "map_of es c = Some n" "name_ok c" by auto
  then have "list_all name_ok (q @ [c])" using assms(3) by simp
  from local_file_key_iff [OF this, of "root L" pre k] assms(6)
  have k: "matching pre k" "key_components k = q @ [c]" by (auto simp: matching_def)
  obtain d where "n = File d" using assms(5) by (cases n) auto
  then have "file_at fs ((root L @ q) @ [c]) = Some d"
    using file_at_below [OF assms(2), of "[c]"] n by simp
  with k show ?thesis by (simp add: key_path_def local_view_def)
qed

lemma scan_complete:
  assumes "fs_wf fs" "node_at fs (root L @ q) = Some (Dir es)" "list_all name_ok q"
    and lossy: "\<And>s. utf8_valid s \<Longrightarrow> lossy s = s"
    and k: "local_ok_key k" "matching pre k" "local_view L fs k \<noteq> None" "strict_prefix (root L @ q) (key_path L k)"
  shows "\<exists>c n. (c, n) \<in> set es \<and>
    (\<not> dir_at n [] \<and> local_file_key (root L) pre ((root L @ q) @ [c]) = Some k
     \<or> dir_at n [] \<and> local_keep_dir lossy (root L) pre ((root L @ q) @ [c])
        \<and> strict_prefix ((root L @ q) @ [c]) (key_path L k))"
proof -
  from k(4) obtain c s where s: "key_components k = q @ c # s"
    by (auto simp: key_path_def strict_prefix_def prefix_def neq_Nil_conv)
  have names: "list_all name_ok (q @ c # s)" using ok_key_names [OF k(1)] s by simp
  have key: "local_file_key (root L) pre (root L @ q @ c # s) = Some k"
    using local_file_key_iff [OF names, of "root L" pre k] k(2) s by (simp add: matching_def)
  from k(3) obtain d where "file_at fs ((root L @ q) @ c # s) = Some d" by (auto simp: local_view_def key_path_def s)
  then have "file_at (Dir es) (c # s) = Some d" using file_at_below [OF assms(2), of "c # s"] by simp
  then obtain n where n: "map_of es c = Some n" "file_at n s = Some d" by (auto split: option.splits)
  show ?thesis
  proof (cases "s = []")
    case True
    with n have "n = File d" by (cases n) auto
    with n True key show ?thesis by (intro exI [of _ c] exI [of _ n]) (auto dest: map_of_SomeD)
  next
    case False
    with n have dir: "dir_at n []" by (cases n; cases s) auto
    have "local_keep_dir lossy (root L) pre (root L @ q @ [c])"
    proof (rule ccontr)
      assume "\<not> ?thesis"
      from pruned_empty [OF this lossy False] key show False by simp
    qed
    moreover have "strict_prefix (root L @ q @ [c]) (key_path L k)"
      using False s by (simp add: key_path_def strict_prefix_def)
    ultimately show ?thesis
      using n(1) dir by (intro exI [of _ c] exI [of _ n]) (auto dest: map_of_SomeD)
  qed
qed

text \<open>The directories a read of \<open>dir\<close> pushes, and the keys it reports.\<close>

abbreviation pushed_dirs :: "(string \<Rightarrow> string) \<Rightarrow> local_store \<Rightarrow> string \<Rightarrow> path \<Rightarrow> (string \<times> node) list \<Rightarrow> path list" where
  "pushed_dirs lossy L pre dir es \<equiv> rev (map (\<lambda>(c, n). dir @ [c])
     (filter (\<lambda>(c, n). dir_at n [] \<and> local_keep_dir lossy (root L) pre (dir @ [c])) es))"

abbreviation found_keys :: "local_store \<Rightarrow> string \<Rightarrow> path \<Rightarrow> (string \<times> node) list \<Rightarrow> object_key list" where
  "found_keys L pre dir es \<equiv>
     List.map_filter (\<lambda>(c, n). if dir_at n [] then None else local_file_key (root L) pre (dir @ [c])) es"

definition reads :: "local_store \<Rightarrow> node \<Rightarrow> path \<Rightarrow> (string \<times> node) list \<Rightarrow> bool" where
  "reads L fs dir es \<longleftrightarrow> fs_wf fs \<and> node_at fs dir = Some (Dir es) \<and> (\<exists>q. dir = root L @ q \<and> list_all name_ok q)"

lemma reads_wf: "reads L fs dir es \<Longrightarrow> fs_wf (Dir es)"
  unfolding reads_def by (blast intro: fs_wf_node_at)

lemma reads_entry:
  assumes "reads L fs dir es" "(c, n) \<in> set es"
  shows "map_of es c = Some n" "\<exists>q. dir @ [c] = root L @ q \<and> list_all name_ok q"
proof -
  note entry = wf_entry [OF reads_wf [OF assms(1)] assms(2)]
  then show "map_of es c = Some n" by simp
  obtain q where "dir = root L @ q" "list_all name_ok q" using assms(1) by (auto simp: reads_def)
  with entry show "\<exists>q. dir @ [c] = root L @ q \<and> list_all name_ok q" by (intro exI [of _ "q @ [c]"]) auto
qed

lemma pushed_dir: "p \<in> set (pushed_dirs lossy L pre dir es) \<Longrightarrow> \<exists>c n. p = dir @ [c] \<and> (c, n) \<in> set es \<and> dir_at n []"
  by auto

lemma reads_found:
  assumes "reads L fs dir es" "(c, n) \<in> set es" "\<not> dir_at n []" "local_file_key (root L) pre (dir @ [c]) = Some k"
  shows "matching pre k \<and> key_path L k = dir @ [c] \<and> local_view L fs k \<noteq> None"
  using assms scan_found [of fs L _ es c n pre k] unfolding reads_def by blast

lemma found_key:
  assumes "reads L fs dir es" "k \<in> set (found_keys L pre dir es)"
  shows "\<exists>c n. (c, n) \<in> set es \<and> \<not> dir_at n [] \<and> key_path L k = dir @ [c] \<and> matching pre k \<and> local_view L fs k \<noteq> None"
proof -
  from assms(2) obtain c n where "(c, n) \<in> set es" "\<not> dir_at n []" "local_file_key (root L) pre (dir @ [c]) = Some k"
    by (auto simp: set_map_filter_iff split: if_splits)
  with reads_found [OF assms(1)] show ?thesis by blast
qed

lemma found_distinct:
  assumes "reads L fs dir es"
  shows "distinct (found_keys L pre dir es)"
proof (rule map_filter_distinct)
  show "distinct es" using reads_wf [OF assms] by (simp add: distinct_map)
next
  fix x y k assume x: "x \<in> set es" "y \<in> set es"
    and k: "(case x of (c, n) \<Rightarrow> if dir_at n [] then None else local_file_key (root L) pre (dir @ [c])) = Some k"
      "(case y of (c, n) \<Rightarrow> if dir_at n [] then None else local_file_key (root L) pre (dir @ [c])) = Some k"
  obtain c n c' n' where xy: "x = (c, n)" "y = (c', n')" by (cases x; cases y)
  with x k reads_found [OF assms, of c n pre k] reads_found [OF assms, of c' n' pre k]
  have "c = c'" by (auto split: if_splits)
  with xy x reads_entry(1) [OF assms] show "x = y" by (metis option.inject)
qed

lemma found_not_pushed:
  assumes "reads L fs dir es" "k \<in> set (found_keys L pre dir es)" "p \<in> set (pushed_dirs lossy L pre dir es)"
  shows "\<not> prefix p (key_path L k)"
proof -
  from found_key [OF assms(1,2)] obtain c n where c: "(c, n) \<in> set es" "\<not> dir_at n []" "key_path L k = dir @ [c]" by blast
  from pushed_dir [OF assms(3)] obtain c' n' where c': "p = dir @ [c']" "(c', n') \<in> set es" "dir_at n' []" by blast
  have "c \<noteq> c'" using c c' reads_entry(1) [OF assms(1)] by (metis option.inject)
  then show ?thesis using c(3) c'(1) by simp
qed

lemma reads_complete:
  assumes r: "reads L fs dir es" and lossy: "\<And>s. utf8_valid s \<Longrightarrow> lossy s = s"
    and k: "local_ok_key k" "matching pre k" "local_view L fs k \<noteq> None" "strict_prefix dir (key_path L k)"
  shows "k \<in> set (found_keys L pre dir es) \<or> (\<exists>p \<in> set (pushed_dirs lossy L pre dir es). strict_prefix p (key_path L k))"
proof -
  from r obtain q where q: "dir = root L @ q" "list_all name_ok q" and at: "fs_wf fs" "node_at fs dir = Some (Dir es)"
    by (auto simp: reads_def)
  from scan_complete [OF at(1) at(2) [unfolded q(1)] q(2) lossy k(1-3) k(4) [unfolded q(1)]]
  obtain c n where c: "(c, n) \<in> set es" and
    or: "\<not> dir_at n [] \<and> local_file_key (root L) pre (dir @ [c]) = Some k
      \<or> dir_at n [] \<and> local_keep_dir lossy (root L) pre (dir @ [c]) \<and> strict_prefix (dir @ [c]) (key_path L k)"
    unfolding q(1) by blast
  from or show ?thesis
  proof
    assume "\<not> dir_at n [] \<and> local_file_key (root L) pre (dir @ [c]) = Some k"
    with c have "k \<in> set (found_keys L pre dir es)" by (force simp: set_map_filter_iff)
    then show ?thesis ..
  next
    assume *: "dir_at n [] \<and> local_keep_dir lossy (root L) pre (dir @ [c]) \<and> strict_prefix (dir @ [c]) (key_path L k)"
    with c have "dir @ [c] \<in> set (pushed_dirs lossy L pre dir es)" by force
    with * show ?thesis by blast
  qed
qed

text \<open>Reading one directory keeps each part of the invariant.\<close>

lemma apart_below:
  assumes "dir \<parallel> p"
  shows "\<not> prefix p (dir @ [c])" "\<not> prefix (dir @ [c]) p"
  using assms by (auto simp: parallel_def dest: append_prefixD)

lemma scan_out_ok:
  assumes "walk_ok L pre ts (dir # stack) out" "fs \<in> set ts" "reads L fs dir es"
  shows "out_ok L pre ts (out @ found_keys L pre dir es)"
proof -
  have old: "out_ok L pre ts out" "k \<in> set out \<Longrightarrow> \<not> prefix dir (key_path L k)" for k
    using assms(1) by (simp_all add: walk_ok_def)
  have found: "prefix dir (key_path L k) \<and> matching pre k \<and> ever L ts k" if "k \<in> set (found_keys L pre dir es)" for k
    using found_key [OF assms(3) that] assms(2) unfolding ever_def by (metis prefixI)
  with old(2) have "set out \<inter> set (found_keys L pre dir es) = {}" by blast
  with old(1) found found_distinct [OF assms(3), of pre] show ?thesis
    unfolding out_ok_def distinct_append set_append by blast
qed

lemma scan_apart:
  assumes "apart (dir # stack)" "reads L fs dir es"
  shows "apart (pushed_dirs lossy L pre dir es @ stack)"
proof -
  have "distinct (map fst es)" using reads_wf [OF assms(2)] by simp
  from apart_children [OF this] assms(1) apart_below [of dir] show ?thesis
    by (auto simp: apart_append parallel_def)
qed

lemma scan_not_below:
  assumes ok: "walk_ok L pre ts (dir # stack) out" and r: "reads L fs dir es"
    and k: "k \<in> set (out @ found_keys L pre dir es)" and p: "p \<in> set (pushed_dirs lossy L pre dir es @ stack)"
  shows "\<not> prefix p (key_path L k)"
proof -
  from k p consider (old) "k \<in> set out" "p \<in> set stack"
    | (pushed) "k \<in> set out" "p \<in> set (pushed_dirs lossy L pre dir es)"
    | (found) "k \<in> set (found_keys L pre dir es)" "p \<in> set stack"
    | (both) "k \<in> set (found_keys L pre dir es)" "p \<in> set (pushed_dirs lossy L pre dir es)"
    unfolding set_append by blast
  then show ?thesis
  proof cases
    case old then show ?thesis using ok by (simp add: walk_ok_def)
  next
    case pushed
    then have "\<not> prefix dir (key_path L k)" using ok by (simp add: walk_ok_def)
    with pushed_dir [OF pushed(2)] show ?thesis by (auto dest: append_prefixD)
  next
    case found
    then have "dir \<parallel> p" using ok by (simp add: walk_ok_def)
    with apart_below(1) found_key [OF r found(1)] show ?thesis by metis
  next
    case both then show ?thesis by (rule found_not_pushed [OF r])
  qed
qed

lemma scan_ok:
  assumes ok: "walk_ok L pre ts (dir # stack) out" and fs: "fs \<in> set ts" "fs_wf fs"
    and at: "node_at fs dir = Some (Dir es)" and lossy: "\<And>s. utf8_valid s \<Longrightarrow> lossy s = s"
  shows "walk_ok L pre ts (pushed_dirs lossy L pre dir es @ stack) (out @ found_keys L pre dir es)"
proof -
  have r: "reads L fs dir es" using ok fs at by (simp add: walk_ok_def reads_def)
  have "\<exists>q. p = root L @ q \<and> list_all name_ok q" if p: "p \<in> set (pushed_dirs lossy L pre dir es @ stack)" for p
  proof (cases "p \<in> set stack")
    case True
    with ok show ?thesis by (simp add: walk_ok_def)
  next
    case False
    with p have "p \<in> set (pushed_dirs lossy L pre dir es)" by simp
    from pushed_dir [OF this] reads_entry(2) [OF r] show ?thesis by blast
  qed
  moreover have "k \<in> set (out @ found_keys L pre dir es)
      \<or> (\<exists>p \<in> set (pushed_dirs lossy L pre dir es @ stack). strict_prefix p (key_path L k))"
    if k: "local_ok_key k" "matching pre k" "always L ts k" for k
  proof -
    have view: "local_view L fs k \<noteq> None" using k(3) fs(1) by (simp add: always_def)
    from ok k consider "k \<in> set out" | "strict_prefix dir (key_path L k)"
      | p where "p \<in> set stack" "strict_prefix p (key_path L k)" by (auto simp: walk_ok_def)
    then show ?thesis using reads_complete [OF r lossy k(1,2) view] unfolding set_append by cases blast+
  qed
  ultimately show ?thesis
    using scan_out_ok [OF ok fs(1) r] scan_apart [OF _ r] scan_not_below [OF ok r] ok
    unfolding walk_ok_def by blast
qed

lemma walk_step_ok:
  assumes "listing_ok L pre ts w" "fs \<in> set ts" "fs_wf fs" "local_env_ok e"
  shows "listing_ok L pre ts (walk_step L e pre fs w)"
proof (cases "(L, e, pre, fs, w)" rule: walk_step.cases)
  case (1 L' e' pre' fs' out)
  with assms(1) show ?thesis by (auto simp: walk_ok_def out_ok_def)
next
  case (2 L' e' pre' fs' dir stack out)
  show ?thesis
  proof (cases "sys_read_dir (faults_of e) dir fs")
    case (Inl er)
    with 2 show ?thesis by simp
  next
    case (Inr es)
    then have at: "node_at fs dir = Some (Dir es)"
      by (auto simp: sys_read_dir_def split: option.splits sum.splits node.splits)
    have lossy: "utf8_valid s \<Longrightarrow> to_string_lossy e s = s" for s using assms(4) by (simp add: local_env_ok_def)
    have "walk_ok L pre ts (dir # stack) out" using assms(1) 2 by simp
    from scan_ok [OF this assms(2,3) at lossy] show ?thesis
      using 2 Inr by (simp add: scan_stack [symmetric] scan_out [symmetric] split: prod.splits)
        (metis fst_conv scan_out scan_stack snd_conv)
  qed
next
  case (3 L' e' pre' fs' r)
  with assms(1) show ?thesis by simp
qed

context tree_tasks
begin

lemma listing_invariant:
  assumes "listing P M L pre ts c w"
  shows "listing_ok L pre ts w \<and> tree c \<in> set ts \<and> tgood P L c \<and> tree_good P L c"
  using assms
proof (induction rule: listing.induct)
  case (begins c0 c)
  have "tgood P L c" using trun_good [OF begins(3) initial_good [OF begins(1)]] .
  moreover have "tree_good P L c" by (rule trun_tree_good [OF begins])
  ultimately show ?case
    by (simp add: walk_ok_def out_ok_def root_below)
next
  case (others ts c w c')
  then show ?case using listing_ok_grows tstep_good tstep_tree_good by auto
next
  case (scans ts c w e)
  then show ?case using walk_step_ok [of L pre ts w "tree c" e] by (auto simp: tree_good_def local_invar_def)
qed

lemma list_concurrent:
  assumes "listing P M L pre ts c (Returned (Inr ks))"
  shows "sorted ks \<and> distinct ks
    \<and> (k \<in> set ks \<longrightarrow> key_wf k \<and> starts_with (as_str k) pre \<and> (\<exists>fs \<in> set ts. local_view L fs k \<noteq> None))
    \<and> (local_ok_key k \<and> starts_with (as_str k) pre \<and> (\<forall>fs \<in> set ts. local_view L fs k \<noteq> None) \<longrightarrow> k \<in> set ks)"
proof -
  have ok: "out_ok L pre ts ks" "sorted ks" "local_ok_key k \<and> matching pre k \<and> always L ts k \<longrightarrow> k \<in> set ks"
    using listing_invariant [OF assms] by simp_all
  have "distinct ks" "k \<in> set ks \<longrightarrow> matching pre k \<and> ever L ts k" using ok(1) by (simp_all add: out_ok_def)
  moreover have "local_ok_key k \<Longrightarrow> starts_with (as_str k) pre \<Longrightarrow> matching pre k"
    by (simp add: matching_def local_ok_key_def)
  ultimately show ?thesis using ok(2,3) unfolding matching_def ever_def always_def by blast
qed

end

section \<open>Properties\<close>

text \<open>Well-formed trees: under every interleaving, and whatever calls fail, the tree stays one of distinct, legal names
  in every directory, and every path an operation in progress will write to is made of legal names.\<close>

theorem local_tree_wf:
  assumes "starts local_protocol L c0" "local_invar L (tree c0)" "lrun L c0 c"
  shows "fs_wf (tree c) \<and> list_all (\<lambda>t. names_ok (task_paths t)) (tasks c)"
  using ltasks.trun_tree_good [OF assms] by (auto simp: tree_good_def local_invar_def list_all_iff)

theorem local_tree_wf_witness: "fs_wf (tree race_end) \<and> list_all (\<lambda>t. names_ok (task_paths t)) (tasks race_end)"
proof -
  have "local_invar store_r (tree race)" by (simp add: race_def)
  from local_tree_wf [OF race_initial this race_run] show ?thesis .
qed

text \<open>Listing while others write: a list that returns \<open>Ok\<close>, however puts and deletes are interleaved with its
  directory reads, is sorted, has no key twice, has only valid keys with the prefix that were stored at some moment of
  it, and has every storable key with the prefix that was stored at all moments of it.\<close>

theorem local_list_concurrent:
  assumes "listing local_protocol (local_move L) L pre ts c (Returned (Inr ks))"
  shows "sorted ks \<and> distinct ks
    \<and> (k \<in> set ks \<longrightarrow> key_wf k \<and> starts_with (as_str k) pre \<and> (\<exists>fs \<in> set ts. local_view L fs k \<noteq> None))
    \<and> (local_ok_key k \<and> starts_with (as_str k) pre \<and> (\<forall>fs \<in> set ts. local_view L fs k \<noteq> None) \<longrightarrow> k \<in> set ks)"
  by (rule ltasks.list_concurrent [OF assms])

text \<open>A listing of \<open>d/\<close> that begins before the first put of the race renames its file and reads the directory after.\<close>

theorem local_list_concurrent_witness:
  "listing local_protocol (local_move store_r) store_r ''d/'' [tree race_mid, tree (exec_step (local_exec store_r) 0 calm race_mid)] (exec_step (local_exec store_r) 0 calm race_mid)
     (Returned (Inr [ObjectKey ''d/f'', ObjectKey ''d/g'']))
   \<and> sorted [ObjectKey ''d/f'', ObjectKey ''d/g'']
   \<and> (\<exists>fs \<in> set [tree race_mid, tree (exec_step (local_exec store_r) 0 calm race_mid)]. local_view store_r fs (ObjectKey ''d/g'') \<noteq> None)"
proof -
  let ?c = "exec_step (local_exec store_r) 0 calm race_mid"
  have inv: "local_invar store_r (tree race)" by (simp add: race_def)
  have w1: "walk_step store_r calm ''d/'' (tree race_mid) (Walking [root store_r] [])
      = Walking [[''r'', ''d'']] []" by code_simp
  have w2: "walk_step store_r calm ''d/'' (tree ?c) (Walking [[''r'', ''d'']] [])
      = Walking [] [ObjectKey ''d/f'', ObjectKey ''d/g'']" by code_simp
  have w3: "walk_step store_r calm ''d/'' (tree ?c) (Walking [] [ObjectKey ''d/f'', ObjectKey ''d/g''])
      = Returned (Inr [ObjectKey ''d/f'', ObjectKey ''d/g''])" by code_simp
  have "0 < length (tasks race_mid)" "\<not> finished (tasks race_mid ! 0)" by code_simp+
  then have "tstep (local_move store_r) race_mid ?c" by (intro local_exec_tstep) simp_all
  note run = listing.others [OF listing.scans [OF listing.begins [OF race_initial inv race_mid_run, of "''d/''"]
      calm_simps(3), unfolded w1] this, simplified]
  have l: "listing local_protocol (local_move store_r) store_r ''d/'' [tree race_mid, tree ?c] ?c (Returned (Inr [ObjectKey ''d/f'', ObjectKey ''d/g'']))"
    using listing.scans [OF listing.scans [OF run calm_simps(3), unfolded w2] calm_simps(3), unfolded w3] .
  with local_list_concurrent [OF l, of "ObjectKey ''d/g''"] show ?thesis by auto
qed

end
