(* ===== verification/Ring_File.thy ===== *)
theory Ring_File
  imports Blob_Error "HOL-Library.Multiset"
begin

text \<open>
  The ring driver of \<open>src/src/io_uring_backend.rs\<close>: a transfer is cut into pieces, the pieces are
  pushed as submission entries with at most \<open>ring_size\<close> in flight, completions are reaped in the order
  the kernel delivers them, and the rest of a short transfer is queued again. The kernel is a
  parameter: for every round, how many pushes the submission queue takes and what
  \<open>submit_and_wait\<close> and the completion queue give. The bytes of a completion are moved when it is
  reaped. The loop need not end, so it is a partial function into option.
\<close>

section \<open>File images and buffers\<close>

text \<open>The content of a file: its length and its bytes, zero beyond the end.\<close>

record file_image =
  flen :: nat
  byte_at :: "nat \<Rightarrow> u8"

definition image_of :: "bytes \<Rightarrow> file_image" where
  "image_of d = \<lparr>flen = length d, byte_at = (\<lambda>i. if i < length d then d ! i else 0)\<rparr>"

definition image_bytes :: "file_image \<Rightarrow> bytes" where
  "image_bytes f = map (byte_at f) [0..<flen f]"

definition image_write :: "nat \<Rightarrow> bytes \<Rightarrow> file_image \<Rightarrow> file_image" where
  "image_write off bs f =
     \<lparr>flen = (if bs = [] then flen f else max (flen f) (off + length bs)),
      byte_at = (\<lambda>i. if off \<le> i \<and> i < off + length bs then bs ! (i - off) else byte_at f i)\<rparr>"

definition image_read :: "nat \<Rightarrow> nat \<Rightarrow> file_image \<Rightarrow> bytes" where
  "image_read off n f = map (byte_at f) [off..<off + n]"

definition buf_store :: "nat \<Rightarrow> bytes \<Rightarrow> bytes \<Rightarrow> bytes" where
  "buf_store off bs buf = take off buf @ bs @ drop (off + length bs) buf"

section \<open>The driver's state\<close>

definition DEFAULT_RING_SIZE :: nat where "DEFAULT_RING_SIZE = 64"

definition DEFAULT_CHUNK_SIZE :: nat where "DEFAULT_CHUNK_SIZE = 128 * 1024"

record piece =
  file_off :: nat
  buf_off :: nat
  plen :: nat

text \<open>A submission entry; \<open>piece.len as u32\<close> is a cast.\<close>

record sqe =
  sqe_write :: bool
  sqe_ptr :: nat
  sqe_len :: nat
  sqe_off :: nat
  sqe_user :: nat

record ring_state =
  work :: "piece list"
  in_flight :: "(nat \<times> piece) list"
  next_id :: nat
  pushed :: "sqe list"
  disk :: file_image
  mem :: bytes

datatype wait_result = WaitError io_error | Completions "(nat \<times> int) list"

record kernel =
  sq_room :: "nat \<Rightarrow> ring_state \<Rightarrow> nat"
  submit_and_wait :: "nat \<Rightarrow> ring_state \<Rightarrow> wait_result"

text \<open>\<open>u64\<close> and \<open>usize\<close> arithmetic of a release build wraps.\<close>

definition add64 :: "nat \<Rightarrow> nat \<Rightarrow> nat" where
  "add64 a b = (a + b) mod 2 ^ 64"

definition sub64 :: "nat \<Rightarrow> nat \<Rightarrow> nat" where
  "sub64 a b = (a + 2 ^ 64 - b) mod 2 ^ 64"

lemma add64 [simp]: "a + b < 2 ^ 64 \<Longrightarrow> add64 a b = a + b"
  by (simp add: add64_def)

lemma sub64 [simp]: "b \<le> a \<Longrightarrow> a < 2 ^ 64 \<Longrightarrow> sub64 a b = a - b"
proof -
  assume "b \<le> a" "a < 2 ^ 64"
  then have "a + 2 ^ 64 - b = (a - b) + 2 ^ 64" by simp
  then show ?thesis using \<open>a < 2 ^ 64\<close> unfolding sub64_def by (metis mod_add_self2 less_imp_diff_less mod_less)
qed

section \<open>Cutting a transfer into pieces\<close>

function cut_pieces :: "nat \<Rightarrow> nat \<Rightarrow> nat \<Rightarrow> nat \<Rightarrow> piece list" where
  "cut_pieces chunk off b n =
     (if n = 0 \<or> chunk = 0 then []
      else \<lparr>file_off = off, buf_off = b, plen = min chunk n\<rparr>
           # cut_pieces chunk (add64 off (min chunk n)) (b + min chunk n) (n - min chunk n))"
  by pat_completeness auto
termination
  by (relation "measure (\<lambda>(chunk, off, b, n). n)") auto

declare cut_pieces.simps [simp del]

section \<open>The loop\<close>

definition make_sqe :: "bool \<Rightarrow> nat \<Rightarrow> piece \<Rightarrow> sqe" where
  "make_sqe w i p = \<lparr>sqe_write = w, sqe_ptr = buf_off p, sqe_len = plen p mod 2 ^ 32,
     sqe_off = file_off p, sqe_user = i\<rparr>"

text \<open>Filling the submission queue; \<open>room\<close> is how many pushes succeed before one fails.\<close>

fun fill :: "bool \<Rightarrow> nat \<Rightarrow> nat \<Rightarrow> ring_state \<Rightarrow> ring_state" where
  "fill w ring room st =
     (if length (in_flight st) < ring then
        (case work st of
           [] \<Rightarrow> st
         | p # ps \<Rightarrow>
            (case room of
               0 \<Rightarrow> st\<lparr>work := p # ps\<rparr>
             | Suc room' \<Rightarrow>
                 fill w ring room' (st\<lparr>work := ps,
                   in_flight := AList.update (next_id st) p (in_flight st),
                   next_id := next_id st + 1,
                   pushed := pushed st @ [make_sqe w (next_id st) p]\<rparr>)))
      else st)"

declare fill.simps [simp del]

text \<open>The bytes the kernel moved for one completion.\<close>

definition transfer :: "bool \<Rightarrow> piece \<Rightarrow> nat \<Rightarrow> ring_state \<Rightarrow> ring_state" where
  "transfer w p n st =
     (if w then st\<lparr>disk := image_write (file_off p) (take n (drop (buf_off p) (mem st))) (disk st)\<rparr>
      else st\<lparr>mem := buf_store (buf_off p) (image_read (file_off p) n (disk st)) (mem st)\<rparr>)"

fun reap :: "bool \<Rightarrow> (nat \<times> int) list \<Rightarrow> ring_state \<Rightarrow> (io_error + unit) \<times> ring_state" where
  "reap w [] st = (Inr (), st)"
| "reap w ((i, r) # cs) st =
     (case map_of (in_flight st) i of
        None \<Rightarrow> (Inl (CustomError KOther ''io_uring: unknown user_data''), st)
      | Some p \<Rightarrow>
          (let st1 = st\<lparr>in_flight := AList.delete i (in_flight st)\<rparr> in
           if r < 0 then (Inl (OsError (nat (- r))), st1)
           else let n = nat r in
             if n = plen p then reap w cs (transfer w p n st1)
             else if n = 0 then (Inl (CustomError KUnexpectedEof ''io_uring: zero-length completion''), st1)
             else
               (let p' = p\<lparr>file_off := add64 (file_off p) n, buf_off := add64 (buf_off p) n,
                           plen := sub64 (plen p) n\<rparr>;
                    st2 = transfer w p n st1
                in reap w cs (st2\<lparr>work := work st2 @ [p']\<rparr>))))"

partial_function (option) drive ::
  "kernel \<Rightarrow> bool \<Rightarrow> nat \<Rightarrow> nat \<Rightarrow> ring_state \<Rightarrow> ((io_error + unit) \<times> ring_state) option" where
  "drive K w ring round st =
     (let st1 = fill w ring (sq_room K round st) st in
      if in_flight st1 = [] then Some (Inr (), st1)
      else (case submit_and_wait K round st1 of
          WaitError e \<Rightarrow> Some (Inl e, st1)
        | Completions cs \<Rightarrow>
            (case reap w cs st1 of
               (Inl e, st2) \<Rightarrow> Some (Inl e, st2)
             | (Inr u, st2) \<Rightarrow> drive K w ring (round + 1) st2)))"

definition start_state :: "nat \<Rightarrow> nat \<Rightarrow> file_image \<Rightarrow> bytes \<Rightarrow> ring_state" where
  "start_state chunk off f buf =
     \<lparr>work = cut_pieces chunk off 0 (length buf), in_flight = [], next_id = 0, pushed = [],
      disk = f, mem = buf\<rparr>"

definition write_all_at ::
  "kernel \<Rightarrow> nat \<Rightarrow> bytes \<Rightarrow> file_image \<Rightarrow> ((io_error + unit) \<times> ring_state) option" where
  "write_all_at K off data f =
     drive K True DEFAULT_RING_SIZE 0 (start_state DEFAULT_CHUNK_SIZE off f data)"

definition read_all_at ::
  "kernel \<Rightarrow> nat \<Rightarrow> bytes \<Rightarrow> file_image \<Rightarrow> ((io_error + unit) \<times> ring_state) option" where
  "read_all_at K off buf f =
     drive K False DEFAULT_RING_SIZE 0 (start_state DEFAULT_CHUNK_SIZE off f buf)"

section \<open>Invariant\<close>

text \<open>
  The pieces that are queued or in flight cover, without overlap, a set of buffer positions; every
  other position has been transferred: there the file and the buffer agree.
\<close>

definition ivl :: "piece \<Rightarrow> nat multiset" where
  "ivl p = mset [buf_off p..<buf_off p + plen p]"

definition pend :: "ring_state \<Rightarrow> piece multiset" where
  "pend st = mset (work st) + image_mset snd (mset (in_flight st))"

definition cover :: "ring_state \<Rightarrow> nat multiset" where
  "cover st = sum_mset (image_mset ivl (pend st))"

definition good_piece :: "nat \<Rightarrow> nat \<Rightarrow> piece \<Rightarrow> bool" where
  "good_piece off n p \<longleftrightarrow> 0 < plen p \<and> plen p \<le> DEFAULT_CHUNK_SIZE \<and> file_off p = off + buf_off p \<and> buf_off p + plen p \<le> n"

definition good_sqe :: "nat \<Rightarrow> nat \<Rightarrow> sqe \<Rightarrow> bool" where
  "good_sqe off n s \<longleftrightarrow> 0 < sqe_len s \<and> sqe_off s = off + sqe_ptr s \<and> sqe_ptr s + sqe_len s \<le> n"

definition ring_inv :: "nat \<Rightarrow> nat \<Rightarrow> ring_state \<Rightarrow> bool" where
  "ring_inv off n st \<longleftrightarrow> off + n < 2 ^ 64 \<and> length (mem st) = n
     \<and> (\<forall>p \<in># pend st. good_piece off n p) \<and> cover st \<subseteq># mset [0..<n]
     \<and> distinct (map fst (in_flight st)) \<and> (\<forall>i \<in> fst ` set (in_flight st). i < next_id st)
     \<and> list_all (good_sqe off n) (pushed st)"

definition transferred :: "nat \<Rightarrow> nat \<Rightarrow> ring_state \<Rightarrow> bool" where
  "transferred off n st \<longleftrightarrow> (\<forall>i < n. i \<notin># cover st \<longrightarrow>
     byte_at (disk st) (off + i) = mem st ! i \<and> off + i < flen (disk st))"

text \<open>What a transfer leaves alone: the buffer of a write, the file of a read, the rest of the file.\<close>

definition framed :: "bool \<Rightarrow> nat \<Rightarrow> nat \<Rightarrow> file_image \<Rightarrow> bytes \<Rightarrow> ring_state \<Rightarrow> bool" where
  "framed w off n f buf st \<longleftrightarrow>
     (if w then mem st = buf \<and> flen f \<le> flen (disk st) \<and> flen (disk st) \<le> (if n = 0 then flen f else max (flen f) (off + n))
        \<and> (\<forall>j. j < off \<or> off + n \<le> j \<longrightarrow> byte_at (disk st) j = byte_at f j)
      else disk st = f)"

lemma chunk_u32 [simp]: "good_piece off n p \<Longrightarrow> plen p mod 4294967296 = plen p"
  by (simp add: good_piece_def DEFAULT_CHUNK_SIZE_def)

section \<open>Pieces of a transfer\<close>

lemma upt_mset_split: "a \<le> b \<Longrightarrow> b \<le> c \<Longrightarrow> mset [a..<c] = mset [a..<b] + mset [b..<c]"
  by (metis le_add_diff_inverse mset_append upt_add_eq_append)

lemma cut_pieces_good:
  assumes "off + n < 2 ^ 64" "b + m = n"
  shows "\<forall>p \<in> set (cut_pieces DEFAULT_CHUNK_SIZE (off + b) b m). good_piece off n p"
    and "sum_list (map ivl (cut_pieces DEFAULT_CHUNK_SIZE (off + b) b m)) = mset [b..<n]"
proof -
  have "(\<forall>p \<in> set (cut_pieces DEFAULT_CHUNK_SIZE (off + b) b m). good_piece off n p)
      \<and> sum_list (map ivl (cut_pieces DEFAULT_CHUNK_SIZE (off + b) b m)) = mset [b..<n]"
    using assms
  proof (induction m arbitrary: b rule: less_induct)
    case (less m)
    let ?c = "min DEFAULT_CHUNK_SIZE m"
    show ?case
    proof (cases "m = 0")
      case True
      with less.prems show ?thesis by (subst (1 2) cut_pieces.simps) simp
    next
      case False
      then have c: "0 < ?c" "?c \<le> m" by (auto simp: DEFAULT_CHUNK_SIZE_def)
      then have nxt: "add64 (off + b) ?c = off + (b + ?c)"
        using less.prems by simp
      have "cut_pieces DEFAULT_CHUNK_SIZE (off + b) b m = \<lparr>file_off = off + b, buf_off = b, plen = ?c\<rparr>
          # cut_pieces DEFAULT_CHUNK_SIZE (off + (b + ?c)) (b + ?c) (m - ?c)"
        using False c nxt by (subst cut_pieces.simps) (auto simp: DEFAULT_CHUNK_SIZE_def)
      moreover note less.IH [of "m - ?c" "b + ?c"]
      ultimately show ?thesis
        using c less.prems upt_mset_split [of b "b + ?c" n] by (auto simp: good_piece_def ivl_def)
    qed
  qed
  then show "\<forall>p \<in> set (cut_pieces DEFAULT_CHUNK_SIZE (off + b) b m). good_piece off n p"
    and "sum_list (map ivl (cut_pieces DEFAULT_CHUNK_SIZE (off + b) b m)) = mset [b..<n]" by auto
qed

lemma start_inv:
  assumes "off + length buf < 2 ^ 64"
  shows "ring_inv off (length buf) (start_state DEFAULT_CHUNK_SIZE off f buf)"
    and "transferred off (length buf) (start_state DEFAULT_CHUNK_SIZE off f buf)"
    and "framed w off (length buf) f buf (start_state DEFAULT_CHUNK_SIZE off f buf)"
proof -
  have c: "cover (start_state DEFAULT_CHUNK_SIZE off f buf) = mset [0..<length buf]"
    using cut_pieces_good(2) [of off "length buf" 0 "length buf"] assms
    by (simp add: cover_def pend_def start_state_def sum_mset_sum_list flip: mset_map)
  show "ring_inv off (length buf) (start_state DEFAULT_CHUNK_SIZE off f buf)"
    using cut_pieces_good(1) [of off "length buf" 0 "length buf"] assms c
    by (simp add: ring_inv_def start_state_def pend_def)
  show "transferred off (length buf) (start_state DEFAULT_CHUNK_SIZE off f buf)"
    by (simp add: transferred_def c)
  show "framed w off (length buf) f buf (start_state DEFAULT_CHUNK_SIZE off f buf)"
    by (simp add: framed_def start_state_def)
qed

section \<open>Filling\<close>

lemma update_fresh: "k \<notin> fst ` set al \<Longrightarrow> AList.update k v al = al @ [(k, v)]"
  by (induction al) auto

lemma fill_keeps:
  "ring_inv off n st \<Longrightarrow> ring_inv off n (fill w ring room st) \<and> pend (fill w ring room st) = pend st
    \<and> disk (fill w ring room st) = disk st \<and> mem (fill w ring room st) = mem st
    \<and> (length (in_flight st) \<le> ring \<longrightarrow> length (in_flight (fill w ring room st)) \<le> ring)
    \<and> (in_flight (fill w ring room st) = [] \<longrightarrow> in_flight st = [] \<and> (work st = [] \<or> room = 0 \<or> ring = 0))"
proof (induction room arbitrary: st)
  case 0
  have same: "fill w ring 0 st = st" by (cases st) (auto simp: fill.simps split: list.splits)
  show ?case using 0 by (simp add: same)
next
  case (Suc room)
  show ?case
  proof (cases "length (in_flight st) < ring \<and> work st \<noteq> []")
    case False
    then have "fill w ring (Suc room) st = st" by (subst fill.simps) (auto split: list.splits)
    with Suc.prems False show ?thesis by auto
  next
    case True
    then obtain p ps where work: "work st = p # ps" by (cases "work st") auto
    let ?st = "st\<lparr>work := ps, in_flight := AList.update (next_id st) p (in_flight st),
        next_id := next_id st + 1, pushed := pushed st @ [make_sqe w (next_id st) p]\<rparr>"
    have fresh: "next_id st \<notin> fst ` set (in_flight st)" using Suc.prems by (auto simp: ring_inv_def)
    then have upd: "mset (AList.update (next_id st) p (in_flight st)) = add_mset (next_id st, p) (mset (in_flight st))"
      by (simp add: update_fresh)
    have pend: "pend ?st = pend st" by (simp add: pend_def work upd)
    have p: "good_piece off n p" using Suc.prems by (simp add: ring_inv_def pend_def work)
    then have "good_sqe off n (make_sqe w (next_id st) p)"
      using chunk_u32 [OF p] by (simp add: good_sqe_def make_sqe_def) (simp add: good_piece_def)
    moreover have keys: "fst ` set (AList.update (next_id st) p (in_flight st)) = insert (next_id st) (fst ` set (in_flight st))"
      by (simp add: update_fresh [OF fresh])
    ultimately have inv: "ring_inv off n ?st"
      using Suc.prems pend by (auto simp: ring_inv_def cover_def distinct_update less_Suc_eq)
    have "length (in_flight ?st) = Suc (length (in_flight st))"
      by (simp add: update_fresh [OF fresh])
    moreover have "fill w ring (Suc room) st = fill w ring room ?st"
      using True work by (subst fill.simps) simp
    ultimately show ?thesis using Suc.IH [OF inv] pend True by auto
  qed
qed

section \<open>Reaping\<close>

text \<open>
  What the kernel promises of a round: each completion is of an entry in flight, once, and moves no
  more than the entry asked for, for a read no more than the file has; with entries in flight
  \<open>submit_and_wait(1)\<close> gives at least one. The submission queue has the capacity of the ring.
\<close>

definition lawful_round :: "bool \<Rightarrow> (nat \<times> int) list \<Rightarrow> ring_state \<Rightarrow> bool" where
  "lawful_round w cs st \<longleftrightarrow> distinct (map fst cs) \<and> (in_flight st \<noteq> [] \<longrightarrow> cs \<noteq> [])
     \<and> (\<forall>(i, r) \<in> set cs. \<exists>p. map_of (in_flight st) i = Some p \<and> r \<le> int (plen p mod 2 ^ 32)
          \<and> (\<not> w \<longrightarrow> r \<le> int (flen (disk st) - file_off p)))"

definition lawful_kernel :: "kernel \<Rightarrow> bool \<Rightarrow> bool" where
  "lawful_kernel K w \<longleftrightarrow>
     (\<forall>round st. DEFAULT_RING_SIZE - length (in_flight st) \<le> sq_room K round st)
     \<and> (\<forall>round st cs. submit_and_wait K round st = Completions cs \<longrightarrow> lawful_round w cs st)"

text \<open>A kernel without errors that always makes progress where there is something to move.\<close>

definition healthy_kernel :: "kernel \<Rightarrow> bool \<Rightarrow> bool" where
  "healthy_kernel K w \<longleftrightarrow> (\<forall>round st. \<exists>cs. submit_and_wait K round st = Completions cs
     \<and> (\<forall>(i, r) \<in> set cs. \<forall>p. map_of (in_flight st) i = Some p \<and> 0 < plen p mod 2 ^ 32
          \<and> (w \<or> file_off p < flen (disk st)) \<longrightarrow> 0 < r))"

lemma delete_mset:
  "distinct (map fst al) \<Longrightarrow> map_of al i = Some p \<Longrightarrow> mset al = add_mset (i, p) (mset (AList.delete i al))"
proof (induction al)
  case (Cons x al)
  obtain j q where x: "x = (j, q)" by (cases x)
  show ?case
  proof (cases "i = j")
    case True
    with Cons.prems x have "AList.delete i al = al"
      by (simp add: delete_id)
    with True Cons.prems x show ?thesis by simp
  qed (use Cons x in auto)
qed simp

lemma nth_buf_store:
  assumes "b + length bs \<le> length m" "i < length m"
  shows "buf_store b bs m ! i = (if b \<le> i \<and> i < b + length bs then bs ! (i - b) else m ! i)"
  using assms by (auto simp: buf_store_def nth_append min_def)

lemma length_buf_store: "b + length bs \<le> length m \<Longrightarrow> length (buf_store b bs m) = length m"
  by (simp add: buf_store_def)

lemma transfer_simps [simp]:
  "work (transfer w p n st) = work st" "in_flight (transfer w p n st) = in_flight st"
  "next_id (transfer w p n st) = next_id st" "pushed (transfer w p n st) = pushed st"
  "pend (transfer w p n st) = pend st" "cover (transfer w p n st) = cover st"
  by (simp_all add: transfer_def pend_def cover_def)

lemma transfer_bytes:
  assumes "good_piece off N p" "0 < n" "n \<le> plen p" "length (mem st) = N" "\<not> w \<longrightarrow> n \<le> flen (disk st) - file_off p"
  shows "length (mem (transfer w p n st)) = N"
    and "i < N \<Longrightarrow> buf_off p \<le> i \<and> i < buf_off p + n \<Longrightarrow>
      byte_at (disk (transfer w p n st)) (off + i) = mem (transfer w p n st) ! i
      \<and> off + i < flen (disk (transfer w p n st))"
    and "i < N \<Longrightarrow> \<not> (buf_off p \<le> i \<and> i < buf_off p + n) \<Longrightarrow>
      byte_at (disk (transfer w p n st)) (off + i) = byte_at (disk st) (off + i)
      \<and> mem (transfer w p n st) ! i = mem st ! i \<and> flen (disk st) \<le> flen (disk (transfer w p n st))"
    and "framed w off N f buf st \<Longrightarrow> framed w off N f buf (transfer w p n st)"
proof -
  have p: "file_off p = off + buf_off p" "buf_off p + n \<le> N" using assms(1,3) by (auto simp: good_piece_def)
  have len: "length (image_read (file_off p) n (disk st)) = n" by (simp add: image_read_def)
  show "length (mem (transfer w p n st)) = N"
    using p assms(4) len by (simp add: transfer_def length_buf_store)
  show "i < N \<Longrightarrow> buf_off p \<le> i \<and> i < buf_off p + n \<Longrightarrow>
      byte_at (disk (transfer w p n st)) (off + i) = mem (transfer w p n st) ! i
      \<and> off + i < flen (disk (transfer w p n st))"
    using p assms len by (auto simp: transfer_def image_write_def nth_buf_store image_read_def)
  show "i < N \<Longrightarrow> \<not> (buf_off p \<le> i \<and> i < buf_off p + n) \<Longrightarrow>
      byte_at (disk (transfer w p n st)) (off + i) = byte_at (disk st) (off + i)
      \<and> mem (transfer w p n st) ! i = mem st ! i \<and> flen (disk st) \<le> flen (disk (transfer w p n st))"
    using p assms(4) len by (auto simp: transfer_def image_write_def nth_buf_store)
  show "framed w off N f buf st \<Longrightarrow> framed w off N f buf (transfer w p n st)"
    using p assms(2,4) by (auto simp: framed_def transfer_def image_write_def split: if_splits)
qed

definition advance :: "piece \<Rightarrow> nat \<Rightarrow> piece" where
  "advance p n = p\<lparr>file_off := add64 (file_off p) n, buf_off := add64 (buf_off p) n, plen := sub64 (plen p) n\<rparr>"

definition settle :: "bool \<Rightarrow> nat \<Rightarrow> piece \<Rightarrow> nat \<Rightarrow> ring_state \<Rightarrow> ring_state" where
  "settle w i p n st =
     (let t = transfer w p n (st\<lparr>in_flight := AList.delete i (in_flight st)\<rparr>)
      in if n = plen p then t else t\<lparr>work := work t @ [advance p n]\<rparr>)"

lemma reap_settle:
  "reap w ((i, r) # cs) st =
     (case map_of (in_flight st) i of
        None \<Rightarrow> (Inl (CustomError KOther ''io_uring: unknown user_data''), st)
      | Some p \<Rightarrow>
           if r < 0 then (Inl (OsError (nat (- r))), st\<lparr>in_flight := AList.delete i (in_flight st)\<rparr>)
           else if nat r \<noteq> plen p \<and> r = 0 then
             (Inl (CustomError KUnexpectedEof ''io_uring: zero-length completion''),
              st\<lparr>in_flight := AList.delete i (in_flight st)\<rparr>)
           else reap w cs (settle w i p (nat r) st))"
  by (auto simp: settle_def advance_def Let_def split: option.splits)

lemma settle_simps [simp]:
  "in_flight (settle w i p n st) = AList.delete i (in_flight st)"
  "next_id (settle w i p n st) = next_id st" "pushed (settle w i p n st) = pushed st"
  by (simp_all add: settle_def Let_def)

lemma settle_cover:
  assumes "ring_inv off N st" "map_of (in_flight st) i = Some p" "0 < n" "n \<le> plen p"
  shows "cover st = mset [buf_off p..<buf_off p + n] + cover (settle w i p n st)"
    and "\<forall>q \<in># pend (settle w i p n st). good_piece off N q"
proof -
  have ms: "mset (in_flight st) = add_mset (i, p) (mset (AList.delete i (in_flight st)))"
    using assms(1,2) by (intro delete_mset) (auto simp: ring_inv_def)
  then have pend: "pend st = add_mset p (mset (work st) + image_mset snd (mset (AList.delete i (in_flight st))))"
    by (simp add: pend_def)
  then have good: "good_piece off N p" using assms(1) by (auto simp: ring_inv_def)
  have adv: "file_off (advance p n) = file_off p + n" "buf_off (advance p n) = buf_off p + n"
      "plen (advance p n) = plen p - n"
    using good assms(1,4) by (auto simp: advance_def good_piece_def ring_inv_def DEFAULT_CHUNK_SIZE_def)
  have pend': "pend (settle w i p n st) = (if n = plen p then {#} else {#advance p n#})
      + (mset (work st) + image_mset snd (mset (AList.delete i (in_flight st))))"
    by (simp add: settle_def Let_def pend_def transfer_def)
  have split: "ivl p = mset [buf_off p..<buf_off p + n] + (if n = plen p then {#} else ivl (advance p n))"
    using upt_mset_split [of "buf_off p" "buf_off p + n" "buf_off p + plen p"] assms(4)
    by (auto simp: ivl_def adv)
  show "cover st = mset [buf_off p..<buf_off p + n] + cover (settle w i p n st)"
    by (auto simp: cover_def pend pend' split)
  show "\<forall>q \<in># pend (settle w i p n st). good_piece off N q"
  proof -
    have "\<forall>q \<in># mset (work st) + image_mset snd (mset (AList.delete i (in_flight st))). good_piece off N q"
      using assms(1) by (simp add: ring_inv_def pend)
    moreover have "n \<noteq> plen p \<Longrightarrow> good_piece off N (advance p n)"
      using good adv assms(4) by (auto simp: good_piece_def)
    ultimately show ?thesis by (simp add: pend')
  qed
qed

lemma framed_cong: "disk s = disk t \<Longrightarrow> mem s = mem t \<Longrightarrow> framed w off n f buf s = framed w off n f buf t"
  by (simp add: framed_def)

lemma settle_inv:
  assumes "ring_inv off N st" "transferred off N st" "framed w off N f buf st"
    and "map_of (in_flight st) i = Some p" "0 < n" "n \<le> plen p" "\<not> w \<longrightarrow> n \<le> flen (disk st) - file_off p"
  shows "ring_inv off N (settle w i p n st)" and "transferred off N (settle w i p n st)"
    and "framed w off N f buf (settle w i p n st)" and "size (cover (settle w i p n st)) < size (cover st)"
proof -
  let ?s = "settle w i p n st" and ?st1 = "st\<lparr>in_flight := AList.delete i (in_flight st)\<rparr>"
  note cov = settle_cover [OF assms(1,4-6), of w]
  have "p \<in># pend st"
    using assms(4) by (force simp: pend_def dest: map_of_SomeD)
  then have good: "good_piece off N p" using assms(1) by (simp add: ring_inv_def)
  have mem1: "length (mem ?st1) = N" using assms(1) by (simp add: ring_inv_def)
  have lim: "\<not> w \<longrightarrow> n \<le> flen (disk ?st1) - file_off p" using assms(7) by simp
  note tr = transfer_bytes [OF good assms(5,6) mem1 lim]
  have same: "disk ?s = disk (transfer w p n ?st1)" "mem ?s = mem (transfer w p n ?st1)"
    by (simp_all add: settle_def Let_def)
  have sub: "cover ?s \<subseteq># cov0" if "cover st \<subseteq># cov0" for cov0
    using that cov(1) by (metis mset_subset_eq_add_right subset_mset.trans)
  show "ring_inv off N ?s"
    using assms(1) cov(2) sub tr(1) same by (auto simp: ring_inv_def AList.delete_eq distinct_map_filter)
  show "transferred off N ?s"
    unfolding transferred_def
  proof (intro allI impI)
    fix j
    assume j: "j < N" "j \<notin># cover ?s"
    show "byte_at (disk ?s) (off + j) = mem ?s ! j \<and> off + j < flen (disk ?s)"
    proof (cases "buf_off p \<le> j \<and> j < buf_off p + n")
      case True
      with tr(2) [OF j(1)] same show ?thesis by simp
    next
      case False
      with j(2) have "j \<notin># cover st" by (simp add: cov(1))
      with assms(2) j(1) tr(3) [OF j(1) False] same show ?thesis by (auto simp: transferred_def)
    qed
  qed
  show "framed w off N f buf ?s"
    using tr(4) [of f buf] framed_cong [of ?st1 st] framed_cong [OF same] assms(3) by simp
  show "size (cover ?s) < size (cover st)" using assms(5) by (simp add: cov(1))
qed

section \<open>A round\<close>

lemma reap_inv:
  assumes "ring_inv off N st" "transferred off N st" "framed w off N f buf st"
    and "distinct (map fst cs)"
    and "\<forall>(i, r) \<in> set cs. \<exists>p. map_of (in_flight st) i = Some p \<and> r \<le> int (plen p mod 2 ^ 32)
          \<and> (\<not> w \<longrightarrow> r \<le> int (flen (disk st) - file_off p))"
    and "reap w cs st = (Inr (), st')"
  shows "ring_inv off N st' \<and> transferred off N st' \<and> framed w off N f buf st'
    \<and> size (cover st') \<le> size (cover st) \<and> (cs \<noteq> [] \<longrightarrow> size (cover st') < size (cover st))"
  using assms
proof (induction cs arbitrary: st)
  case Nil
  then show ?case by simp
next
  case (Cons c cs)
  obtain i r where c: "c = (i, r)" by (cases c)
  from Cons.prems(5) c obtain p where p: "map_of (in_flight st) i = Some p" "r \<le> int (plen p mod 2 ^ 32)"
      "\<not> w \<longrightarrow> r \<le> int (flen (disk st) - file_off p)" by auto
  have "p \<in># pend st" using p(1) by (force simp: pend_def dest: map_of_SomeD)
  then have good: "good_piece off N p" using Cons.prems(1) by (simp add: ring_inv_def)
  have r: "0 < nat r" "nat r \<le> plen p"
    using Cons.prems(6) p good chunk_u32 [OF good]
    by (auto simp: reap_settle c good_piece_def simp del: reap.simps split: if_splits)
  have lim: "\<not> w \<longrightarrow> nat r \<le> flen (disk st) - file_off p" using p(3) by auto
  note inv = settle_inv [OF Cons.prems(1-3) p(1) r lim]
  have run: "reap w cs (settle w i p (nat r) st) = (Inr (), st')"
    using Cons.prems(6) p(1) r by (auto simp: reap_settle c simp del: reap.simps split: if_splits)
  have disk: "\<not> w \<longrightarrow> disk (settle w i p (nat r) st) = disk st"
    by (simp add: settle_def Let_def transfer_def)
  have rest: "\<forall>(j, r') \<in> set cs. \<exists>q. map_of (in_flight (settle w i p (nat r) st)) j = Some q
      \<and> r' \<le> int (plen q mod 2 ^ 32) \<and> (\<not> w \<longrightarrow> r' \<le> int (flen (disk (settle w i p (nat r) st)) - file_off q))"
    using Cons.prems(4,5) c disk by (force simp: delete_conv')
  from Cons.IH [OF inv(1-3) _ rest run] Cons.prems(4) inv(4) c show ?case by auto
qed

lemma reap_pushed: "reap w cs st = (q, st') \<Longrightarrow> pushed st' = pushed st"
  by (induction cs arbitrary: st) (auto simp: reap_settle simp del: reap.simps(2) split: option.splits if_splits)

lemma reap_lawful_healthy:
  assumes "ring_inv off N st" "distinct (map fst cs)"
    and "\<forall>(i, r) \<in> set cs. \<exists>p. map_of (in_flight st) i = Some p \<and> 0 < r"
  shows "\<exists>st'. reap w cs st = (Inr (), st')"
  using assms(2,3)
proof (induction cs arbitrary: st)
  case Nil
  then show ?case by simp
next
  case (Cons c cs)
  obtain i r where c: "c = (i, r)" by (cases c)
  from Cons.prems c obtain p where p: "map_of (in_flight st) i = Some p" "0 < r" by auto
  have "\<forall>(j, r') \<in> set cs. \<exists>q. map_of (in_flight (settle w i p (nat r) st)) j = Some q \<and> 0 < r'"
    using Cons.prems c by (force simp: delete_conv')
  from Cons.IH [OF _ this] Cons.prems(1) c p show ?case by (auto simp: reap_settle simp del: reap.simps)
qed

text \<open>A transfer of one piece.\<close>

lemma one_piece:
  assumes "0 < n" "n \<le> DEFAULT_CHUNK_SIZE"
  shows "cut_pieces DEFAULT_CHUNK_SIZE off 0 n = [\<lparr>file_off = off, buf_off = 0, plen = n\<rparr>]"
  using assms by (subst cut_pieces.simps, subst cut_pieces.simps) (simp add: DEFAULT_CHUNK_SIZE_def)

lemma fill_one:
  "fill w DEFAULT_RING_SIZE DEFAULT_RING_SIZE
      \<lparr>work = [p], in_flight = [], next_id = i, pushed = us, disk = f, mem = b\<rparr>
    = \<lparr>work = [], in_flight = [(i, p)], next_id = Suc i, pushed = us @ [make_sqe w i p], disk = f, mem = b\<rparr>"
  "fill w DEFAULT_RING_SIZE DEFAULT_RING_SIZE
      \<lparr>work = [], in_flight = al, next_id = i, pushed = us, disk = f, mem = b\<rparr>
    = \<lparr>work = [], in_flight = al, next_id = i, pushed = us, disk = f, mem = b\<rparr>"
proof -
  show "fill w DEFAULT_RING_SIZE DEFAULT_RING_SIZE
      \<lparr>work = [], in_flight = al, next_id = i, pushed = us, disk = f, mem = b\<rparr>
    = \<lparr>work = [], in_flight = al, next_id = i, pushed = us, disk = f, mem = b\<rparr>"
    by (subst fill.simps) simp
  show "fill w DEFAULT_RING_SIZE DEFAULT_RING_SIZE
      \<lparr>work = [p], in_flight = [], next_id = i, pushed = us, disk = f, mem = b\<rparr>
    = \<lparr>work = [], in_flight = [(i, p)], next_id = Suc i, pushed = us @ [make_sqe w i p], disk = f, mem = b\<rparr>"
    by (subst fill.simps, subst fill.simps) (simp add: DEFAULT_RING_SIZE_def)
qed

section \<open>The loop\<close>

lemma fill_not_stuck:
  assumes "ring_inv off N st" "lawful_kernel K w" "in_flight (fill w DEFAULT_RING_SIZE (sq_room K round st) st) = []"
  shows "pend (fill w DEFAULT_RING_SIZE (sq_room K round st) st) = {#}"
proof -
  note k = fill_keeps [OF assms(1), of w DEFAULT_RING_SIZE "sq_room K round st"]
  with assms(3) have empty: "in_flight st = []" "work st = [] \<or> sq_room K round st = 0 \<or> DEFAULT_RING_SIZE = 0" by auto
  have "DEFAULT_RING_SIZE - length (in_flight st) \<le> sq_room K round st"
    using assms(2) by (simp add: lawful_kernel_def)
  with empty have "work st = []" by (auto simp: DEFAULT_RING_SIZE_def)
  with empty k show ?thesis by (simp add: pend_def)
qed

lemma fill_content:
  assumes "ring_inv off N st" "transferred off N st" "framed w off N f buf st"
  shows "transferred off N (fill w ring room st) \<and> framed w off N f buf (fill w ring room st)
    \<and> cover (fill w ring room st) = cover st"
  using fill_keeps [OF assms(1), of w ring room] assms(2,3) framed_cong [of "fill w ring room st" st]
  by (simp add: transferred_def cover_def)

text \<open>
  The invariant of the loop, and induction over its rounds: each is the last one, or keeps the invariant and
  makes the uncovered part smaller.
\<close>

definition loop_inv :: "nat \<Rightarrow> nat \<Rightarrow> bool \<Rightarrow> file_image \<Rightarrow> bytes \<Rightarrow> ring_state \<Rightarrow> bool" where
  "loop_inv off N w f buf st \<longleftrightarrow> ring_inv off N st \<and> transferred off N st \<and> framed w off N f buf st"

abbreviation topped :: "kernel \<Rightarrow> bool \<Rightarrow> nat \<Rightarrow> ring_state \<Rightarrow> ring_state" where
  "topped K w round st \<equiv> fill w DEFAULT_RING_SIZE (sq_room K round st) st"

lemma start_loop_inv:
  "off + length buf < 2 ^ 64 \<Longrightarrow> loop_inv off (length buf) w f buf (start_state DEFAULT_CHUNK_SIZE off f buf)"
  by (simp add: loop_inv_def start_inv)

lemma topped_inv: "loop_inv off N w f buf st \<Longrightarrow> loop_inv off N w f buf (topped K w round st)"
  unfolding loop_inv_def by (elim conjE) (auto simp: fill_content fill_keeps)

lemma round_inv:
  assumes "loop_inv off N w f buf st" "lawful_round w cs (topped K w round st)" "in_flight (topped K w round st) \<noteq> []"
    and reap: "reap w cs (topped K w round st) = (Inr (), st2)"
  shows "loop_inv off N w f buf st2" "size (cover st2) < size (cover st)"
  using reap_inv [OF _ _ _ _ _ reap, of off N f buf] assms topped_inv [OF assms(1), of K round]
    fill_content [of off N st w f buf DEFAULT_RING_SIZE "sq_room K round st"]
  by (simp_all add: loop_inv_def lawful_round_def)

lemma drive_induct [consumes 2, case_names idle error failed again]:
  assumes K: "lawful_kernel K w" and inv: "loop_inv off N w f buf st"
    and idle: "\<And>round st st1. st1 = topped K w round st \<Longrightarrow> loop_inv off N w f buf st \<Longrightarrow> in_flight st1 = [] \<Longrightarrow>
        drive K w DEFAULT_RING_SIZE round st = Some (Inr (), st1) \<Longrightarrow> P round st"
    and error: "\<And>round st st1 e. st1 = topped K w round st \<Longrightarrow> loop_inv off N w f buf st \<Longrightarrow> in_flight st1 \<noteq> [] \<Longrightarrow>
        submit_and_wait K round st1 = WaitError e \<Longrightarrow>
        drive K w DEFAULT_RING_SIZE round st = Some (Inl e, st1) \<Longrightarrow> P round st"
    and failed: "\<And>round st st1 cs e st2. st1 = topped K w round st \<Longrightarrow> loop_inv off N w f buf st \<Longrightarrow> in_flight st1 \<noteq> [] \<Longrightarrow>
        submit_and_wait K round st1 = Completions cs \<Longrightarrow> lawful_round w cs st1 \<Longrightarrow> reap w cs st1 = (Inl e, st2) \<Longrightarrow>
        drive K w DEFAULT_RING_SIZE round st = Some (Inl e, st2) \<Longrightarrow> P round st"
    and again: "\<And>round st st1 cs st2. st1 = topped K w round st \<Longrightarrow> loop_inv off N w f buf st \<Longrightarrow> in_flight st1 \<noteq> [] \<Longrightarrow>
        submit_and_wait K round st1 = Completions cs \<Longrightarrow> lawful_round w cs st1 \<Longrightarrow> reap w cs st1 = (Inr (), st2) \<Longrightarrow>
        loop_inv off N w f buf st2 \<Longrightarrow>
        drive K w DEFAULT_RING_SIZE round st = drive K w DEFAULT_RING_SIZE (round + 1) st2 \<Longrightarrow>
        P (round + 1) st2 \<Longrightarrow> P round st"
  shows "P round st"
  using inv
proof (induction "size (cover st)" arbitrary: st round rule: less_induct)
  case less
  let ?st1 = "topped K w round st"
  show ?case
  proof (cases "in_flight ?st1 = []")
    case True
    moreover from True have "drive K w DEFAULT_RING_SIZE round st = Some (Inr (), ?st1)"
      by (subst drive.simps) (simp add: Let_def)
    ultimately show ?thesis by (rule idle [OF refl less.prems])
  next
    case False
    then have body: "drive K w DEFAULT_RING_SIZE round st = (case submit_and_wait K round ?st1 of
        WaitError e \<Rightarrow> Some (Inl e, ?st1)
      | Completions cs \<Rightarrow> (case reap w cs ?st1 of
          (Inl e, st2) \<Rightarrow> Some (Inl e, st2)
        | (Inr u, st2) \<Rightarrow> drive K w DEFAULT_RING_SIZE (round + 1) st2))"
      by (subst drive.simps) (simp add: Let_def)
    show ?thesis
    proof (cases "submit_and_wait K round ?st1")
      case (WaitError e)
      then show ?thesis by (intro error [OF refl less.prems False WaitError]) (simp add: body)
    next
      case (Completions cs)
      with K have law: "lawful_round w cs ?st1" by (simp add: lawful_kernel_def)
      obtain q st2 where reap: "reap w cs ?st1 = (q, st2)" by fastforce
      show ?thesis
      proof (cases q)
        case (Inl e)
        with reap show ?thesis by (intro failed [OF refl less.prems False Completions law]) (auto simp: body Completions)
      next
        case (Inr u)
        with reap have reap': "reap w cs ?st1 = (Inr (), st2)" by simp
        note next_inv = round_inv [OF less.prems law False reap']
        show ?thesis using less.hyps [OF next_inv(2,1)]
          by (intro again [OF refl less.prems False Completions law reap' next_inv(1)]) (simp_all add: body Completions reap')
      qed
    qed
  qed
qed

lemma drive_result:
  assumes "lawful_kernel K w" "loop_inv off N w f buf st" "drive K w DEFAULT_RING_SIZE round st = Some (Inr (), st')"
  shows "loop_inv off N w f buf st' \<and> in_flight st' = [] \<and> pend st' = {#}"
  using assms
proof (induction round st rule: drive_induct)
  case (idle round st st1)
  then have "st' = topped K w round st" by simp
  with idle(2,3) fill_not_stuck [OF _ assms(1), of off N st round] topped_inv [OF idle(2), of K round] idle(1)
  show ?case by (simp add: loop_inv_def)
qed simp_all

lemma healthy_round:
  assumes "ring_inv off N st" "healthy_kernel K w" "submit_and_wait K round st = Completions cs" "lawful_round w cs st"
    and "w \<or> off + N \<le> flen (disk st)"
  shows "\<forall>(i, r) \<in> set cs. \<exists>p. map_of (in_flight st) i = Some p \<and> 0 < r"
proof (intro ballI, clarify)
  fix i r
  assume ir: "(i, r) \<in> set cs"
  with assms(4) obtain p where p: "map_of (in_flight st) i = Some p" by (auto simp: lawful_round_def)
  then have "p \<in># pend st" by (force simp: pend_def dest: map_of_SomeD)
  then have "good_piece off N p" using assms(1) by (simp add: ring_inv_def)
  then have "0 < plen p mod 2 ^ 32 \<and> (w \<or> file_off p < flen (disk st))"
    using assms(5) chunk_u32 [of off N p] by (auto simp: good_piece_def)
  moreover obtain cs' where cs': "submit_and_wait K round st = Completions cs'"
      "\<forall>(i, r) \<in> set cs'. \<forall>p. map_of (in_flight st) i = Some p \<and> 0 < plen p mod 2 ^ 32
          \<and> (w \<or> file_off p < flen (disk st)) \<longrightarrow> 0 < r"
    using assms(2) unfolding healthy_kernel_def by blast
  moreover have "cs' = cs" using cs'(1) assms(3) by simp
  ultimately show "\<exists>p. map_of (in_flight st) i = Some p \<and> 0 < r" using ir p by auto
qed

lemma drive_terminates:
  assumes "lawful_kernel K w" "loop_inv off N w f buf st"
  shows "\<exists>q st'. drive K w DEFAULT_RING_SIZE round st = Some (q, st')
    \<and> (healthy_kernel K w \<and> (w \<or> off + N \<le> flen (disk st)) \<longrightarrow> q = Inr ())"
  using assms
proof (induction round st rule: drive_induct)
  case (idle round st st1)
  then show ?case by simp
next
  case (error round st st1 e)
  then have "\<not> healthy_kernel K w" unfolding healthy_kernel_def by (metis wait_result.distinct(1))
  with error show ?case by simp
next
  case (failed round st st1 cs e st2)
  have inv: "ring_inv off N st1" using topped_inv [OF failed(2)] failed(1) by (simp add: loop_inv_def)
  have "disk st1 = disk st" using failed(1,2) fill_keeps [of off N st w] by (simp add: loop_inv_def)
  then have "\<not> (healthy_kernel K w \<and> (w \<or> off + N \<le> flen (disk st)))"
    using healthy_round [OF inv _ failed(4,5)] reap_lawful_healthy [OF inv, of cs w] failed(5,6)
    by (auto simp: lawful_round_def)
  with failed show ?case by auto
next
  case (again round st st1 cs st2)
  then have "\<not> w \<Longrightarrow> disk st2 = disk st" by (simp add: loop_inv_def framed_def)
  with again show ?case by (cases w) auto
qed

lemma drive_pushed:
  assumes "lawful_kernel K w" "loop_inv off N w f buf st" "drive K w DEFAULT_RING_SIZE round st = Some (q, st')"
  shows "list_all (good_sqe off N) (pushed st')"
proof -
  have st1: "list_all (good_sqe off N) (pushed (topped K w round st))" if "loop_inv off N w f buf st" for round st
    using topped_inv [OF that, of K round] by (simp add: loop_inv_def ring_inv_def)
  from assms show ?thesis
    by (induction round st rule: drive_induct) (auto simp: st1 dest: reap_pushed)
qed

section \<open>Transfers that fail\<close>

text \<open>
  What holds at every point of a transfer, successful or not: a byte of the range is, in the file and in the buffer,
  the one that was there or the one that is to be there.
\<close>

definition mixed :: "bool \<Rightarrow> nat \<Rightarrow> nat \<Rightarrow> file_image \<Rightarrow> bytes \<Rightarrow> ring_state \<Rightarrow> bool" where
  "mixed w off N f buf st \<longleftrightarrow> framed w off N f buf st \<and> length (mem st) = N
     \<and> (\<forall>i < N. byte_at (disk st) (off + i) \<in> {byte_at f (off + i), buf ! i} \<and> mem st ! i \<in> {buf ! i, byte_at f (off + i)})"

lemma mixed_cong: "disk s = disk t \<Longrightarrow> mem s = mem t \<Longrightarrow> mixed w off N f buf s = mixed w off N f buf t"
  by (simp add: mixed_def framed_def)

lemma settle_mixed:
  assumes "mixed w off N f buf st" "good_piece off N p" "0 < n" "n \<le> plen p" "\<not> w \<longrightarrow> n \<le> flen (disk st) - file_off p"
  shows "mixed w off N f buf (settle w i p n st)"
proof -
  let ?st1 = "st\<lparr>in_flight := AList.delete i (in_flight st)\<rparr>"
  let ?t = "transfer w p n ?st1"
  have m: "framed w off N f buf ?st1" "length (mem ?st1) = N" using assms(1) by (auto simp: mixed_def framed_def)
  have lim: "\<not> w \<longrightarrow> n \<le> flen (disk ?st1) - file_off p" using assms(5) by simp
  note tr = transfer_bytes [OF assms(2-4) m(2) lim]
  have fr: "framed w off N f buf ?t" by (rule tr(4) [OF m(1)])
  have "byte_at (disk ?t) (off + j) \<in> {byte_at f (off + j), buf ! j} \<and> mem ?t ! j \<in> {buf ! j, byte_at f (off + j)}" if j: "j < N" for j
  proof (cases "buf_off p \<le> j \<and> j < buf_off p + n")
    case True
    with tr(2) [OF j] fr show ?thesis by (auto simp: framed_def split: if_splits)
  next
    case False
    from tr(3) [OF j False] assms(1) j show ?thesis by (simp add: mixed_def)
  qed
  then have "mixed w off N f buf ?t" using fr tr(1) by (simp add: mixed_def)
  then show ?thesis using mixed_cong [of "settle w i p n st" ?t] by (simp add: settle_def Let_def)
qed

text \<open>The errors of a round: a negative result, or nothing moved; never an unknown identifier.\<close>

definition completion_error :: "int \<Rightarrow> io_error \<Rightarrow> bool" where
  "completion_error r e \<longleftrightarrow> r < 0 \<and> e = OsError (nat (- r))
     \<or> r = 0 \<and> e = CustomError KUnexpectedEof ''io_uring: zero-length completion''"

lemma reap_mixed:
  assumes "loop_inv off N w f buf st" "mixed w off N f buf st" "distinct (map fst cs)"
    and "\<forall>(i, r) \<in> set cs. \<exists>p. map_of (in_flight st) i = Some p \<and> r \<le> int (plen p mod 2 ^ 32)
          \<and> (\<not> w \<longrightarrow> r \<le> int (flen (disk st) - file_off p))"
    and "reap w cs st = (q, st')"
  shows "mixed w off N f buf st' \<and> (\<forall>e. q = Inl e \<longrightarrow> (\<exists>(i, r) \<in> set cs. completion_error r e))"
  using assms
proof (induction cs arbitrary: st)
  case Nil
  then show ?case by auto
next
  case (Cons c cs)
  obtain i r where c: "c = (i, r)" by (cases c)
  from Cons.prems(4) c obtain p where p: "map_of (in_flight st) i = Some p" "r \<le> int (plen p mod 2 ^ 32)"
      "\<not> w \<longrightarrow> r \<le> int (flen (disk st) - file_off p)" by auto
  have "p \<in># pend st" using p(1) by (force simp: pend_def dest: map_of_SomeD)
  then have good: "good_piece off N p" using Cons.prems(1) by (simp add: loop_inv_def ring_inv_def)
  show ?case
  proof (cases "0 < r")
    case False
    with Cons.prems(2,5) p(1) good mixed_cong [of st' st w off N f buf] show ?thesis
      by (auto simp: reap_settle c completion_error_def good_piece_def simp del: reap.simps split: if_splits)
  next
    case True
    then have r: "0 < nat r" "nat r \<le> plen p" using p(2) chunk_u32 [OF good] by auto
    have lim: "\<not> w \<longrightarrow> nat r \<le> flen (disk st) - file_off p" using p(3) by auto
    have inv: "loop_inv off N w f buf (settle w i p (nat r) st)"
      using settle_inv [OF _ _ _ p(1) r lim] Cons.prems(1) unfolding loop_inv_def by blast
    note mix = settle_mixed [OF Cons.prems(2) good r lim, of i]
    have run: "reap w cs (settle w i p (nat r) st) = (q, st')"
      using Cons.prems(5) p(1) True by (simp add: reap_settle c del: reap.simps)
    have "\<not> w \<longrightarrow> disk (settle w i p (nat r) st) = disk st" by (simp add: settle_def Let_def transfer_def)
    then have rest: "\<forall>(j, r') \<in> set cs. \<exists>p'. map_of (in_flight (settle w i p (nat r) st)) j = Some p'
        \<and> r' \<le> int (plen p' mod 2 ^ 32) \<and> (\<not> w \<longrightarrow> r' \<le> int (flen (disk (settle w i p (nat r) st)) - file_off p'))"
      using Cons.prems(3,4) c by (force simp: delete_conv')
    from Cons.IH [OF inv mix _ rest run] Cons.prems(3) show ?thesis by (auto simp: c)
  qed
qed

text \<open>An error the kernel may report while a transfer runs.\<close>

definition reports :: "kernel \<Rightarrow> io_error \<Rightarrow> bool" where
  "reports K e \<longleftrightarrow> (\<exists>round st. submit_and_wait K round st = WaitError e
     \<or> (\<exists>cs. submit_and_wait K round st = Completions cs \<and> (\<exists>(i, r) \<in> set cs. completion_error r e)))"

lemma reportsI:
  "submit_and_wait K round st = WaitError e \<Longrightarrow> reports K e"
  "submit_and_wait K round st = Completions cs \<Longrightarrow> \<exists>(i, r) \<in> set cs. completion_error r e \<Longrightarrow> reports K e"
  unfolding reports_def by blast+

lemma drive_mixed:
  assumes "lawful_kernel K w" "loop_inv off N w f buf st" "mixed w off N f buf st"
    and "drive K w DEFAULT_RING_SIZE round st = Some (q, st')"
  shows "mixed w off N f buf st' \<and> (\<forall>e. q = Inl e \<longrightarrow> reports K e)"
proof -
  have top: "mixed w off N f buf (topped K w round st)" if "loop_inv off N w f buf st" "mixed w off N f buf st" for round st
    using fill_keeps [of off N st w DEFAULT_RING_SIZE "sq_room K round st"] that mixed_cong [of "topped K w round st" st]
    by (simp add: loop_inv_def)
  have reap: "mixed w off N f buf st2 \<and> (\<forall>e. q = Inl e \<longrightarrow> (\<exists>(i, r) \<in> set cs. completion_error r e))"
    if "loop_inv off N w f buf st" "mixed w off N f buf st" "lawful_round w cs (topped K w round st)"
      "reap w cs (topped K w round st) = (q, st2)" for round st cs q st2
    using reap_mixed [OF topped_inv [OF that(1)] top [OF that(1,2)] _ _ that(4)] that(3) by (simp add: lawful_round_def)
  from assms show ?thesis
  proof (induction round st rule: drive_induct)
    case (idle round st st1)
    with top show ?case by auto
  next
    case (error round st st1 e)
    with top show ?case by (auto intro: reportsI)
  next
    case (failed round st st1 cs e st2)
    from reap [OF failed(2,8) failed(5,6) [unfolded failed(1)]] failed(7,9) reportsI(2) [OF failed(4)] show ?case by auto
  next
    case (again round st st1 cs st2)
    from reap [OF again(2,10) again(5,6) [unfolded again(1)]] again(8,9,11) show ?case by auto
  qed
qed

lemma start_mixed: "mixed w off (length buf) f buf (start_state chunk off f buf)"
  by (auto simp: mixed_def framed_def start_state_def)

section \<open>Whole transfers\<close>

lemma all_transferred:
  assumes "transferred off N st" "pend st = {#}" "i < N"
  shows "byte_at (disk st) (off + i) = mem st ! i \<and> off + i < flen (disk st)"
  using assms by (simp add: transferred_def cover_def)

lemma write_all_at_result:
  assumes "write_all_at K off data f = Some (Inr (), st)" "lawful_kernel K True" "off + length data < 2 ^ 64"
  shows "disk st = image_write off data f \<and> in_flight st = []"
proof -
  note r = drive_result [OF assms(2) start_loop_inv [OF assms(3)] assms(1) [unfolded write_all_at_def]]
  then have fr: "framed True off (length data) f data st" and tr: "transferred off (length data) st"
      and fin: "pend st = {#}" "in_flight st = []" by (auto simp: loop_inv_def)
  have byte: "byte_at (disk st) j = byte_at (image_write off data f) j" for j
  proof (cases "off \<le> j \<and> j < off + length data")
    case True
    then have "j - off < length data" "off + (j - off) = j" by auto
    with True show ?thesis
      using all_transferred [OF tr fin(1), of "j - off"] fr by (simp add: image_write_def framed_def)
  next
    case False
    then show ?thesis using fr by (auto simp: image_write_def framed_def)
  qed
  have len: "flen (disk st) = flen (image_write off data f)"
    using all_transferred [OF tr fin(1), of "length data - 1"] fr
    by (cases "data = []") (auto simp: image_write_def framed_def)
  from byte len fin(2) show ?thesis by (simp add: fun_eq_iff file_image.equality)
qed

lemma read_all_at_result:
  assumes "read_all_at K off buf f = Some (Inr (), st)" "lawful_kernel K False" "off + length buf < 2 ^ 64"
  shows "mem st = image_read off (length buf) f \<and> disk st = f \<and> in_flight st = []
    \<and> (buf = [] \<or> off + length buf \<le> flen f)"
proof -
  note r = drive_result [OF assms(2) start_loop_inv [OF assms(3)] assms(1) [unfolded read_all_at_def]]
  then have fr: "disk st = f" and tr: "transferred off (length buf) st" and len: "length (mem st) = length buf"
      and fin: "pend st = {#}" "in_flight st = []" by (auto simp: loop_inv_def framed_def ring_inv_def)
  have "mem st = image_read off (length buf) f"
  proof (rule nth_equalityI)
    show "length (mem st) = length (image_read off (length buf) f)" by (simp add: len image_read_def)
    fix i
    assume "i < length (mem st)"
    then show "mem st ! i = image_read off (length buf) f ! i"
      using all_transferred [OF tr fin(1), of i] by (simp add: len fr image_read_def)
  qed
  moreover have "buf \<noteq> [] \<Longrightarrow> off + length buf \<le> flen f"
    using all_transferred [OF tr fin(1), of "length buf - 1"] by (cases buf) (simp_all add: fr)
  ultimately show ?thesis using fr fin(2) by blast
qed

end
