(* ===== verification/Ring_Correct.thy ===== *)
theory Ring_Correct
  imports Ring_File
begin

text \<open>
  The properties of the ring driver: what a successful transfer moved, that every transfer ends,
  what the kernel is ever asked to touch, and what an error return leaves behind.
\<close>

section \<open>A kernel for the examples\<close>

text \<open>Each round completes the oldest entry only, with at most \<open>limit\<close> bytes.\<close>

definition trickle_amount :: "bool \<Rightarrow> nat \<Rightarrow> piece \<Rightarrow> file_image \<Rightarrow> nat" where
  "trickle_amount w limit p f =
     min limit (if w then plen p mod 2 ^ 32 else min (plen p mod 2 ^ 32) (flen f - file_off p))"

definition trickle :: "bool \<Rightarrow> nat \<Rightarrow> kernel" where
  "trickle w limit =
     \<lparr>sq_room = (\<lambda>round st. DEFAULT_RING_SIZE),
      submit_and_wait = (\<lambda>round st. Completions (case in_flight st of
          [] \<Rightarrow> []
        | (i, p) # rest \<Rightarrow> [(i, int (trickle_amount w limit p (disk st)))]))\<rparr>"

lemma trickle_lawful: "lawful_kernel (trickle w limit) w"
proof -
  have "trickle_amount w limit p f \<le> plen p mod 2 ^ 32 \<and> (\<not> w \<longrightarrow> trickle_amount w limit p f \<le> flen f - file_off p)" for p f
    by (simp add: trickle_amount_def min_le_iff_disj)
  then have "lawful_round w [(i, int (trickle_amount w limit p (disk st)))] st" if "in_flight st = (i, p) # rest" for i p rest st
    using that by (simp add: lawful_round_def del: of_nat_mod)
  then show ?thesis
    by (auto simp: lawful_kernel_def trickle_def lawful_round_def [of _ "[]"] split: list.splits)
qed

lemma trickle_healthy: "0 < limit \<Longrightarrow> healthy_kernel (trickle w limit) w"
  unfolding healthy_kernel_def
proof (intro allI)
  fix round and st :: ring_state
  assume "0 < limit"
  then have "0 < trickle_amount w limit p (disk st)" if "0 < plen p mod 2 ^ 32" "w \<or> file_off p < flen (disk st)" for p
    using that by (auto simp: trickle_amount_def)
  then show "\<exists>cs. submit_and_wait (trickle w limit) round st = Completions cs
      \<and> (\<forall>(i, r) \<in> set cs. \<forall>p. map_of (in_flight st) i = Some p \<and> 0 < plen p mod 2 ^ 32
          \<and> (w \<or> file_off p < flen (disk st)) \<longrightarrow> 0 < r)"
    by (cases "in_flight st") (auto simp: trickle_def)
qed

text \<open>A kernel that delivers an error on every wait.\<close>

definition broken :: kernel where
  "broken = \<lparr>sq_room = (\<lambda>round st. DEFAULT_RING_SIZE), submit_and_wait = (\<lambda>round st. WaitError (OsError EINTR))\<rparr>"

lemma broken_lawful: "lawful_kernel broken w"
  by (simp add: lawful_kernel_def broken_def)

lemma write_total:
  assumes "lawful_kernel K True" "off + length data < 2 ^ 64"
  shows "\<exists>q st. write_all_at K off data f = Some (q, st) \<and> (healthy_kernel K True \<longrightarrow> q = Inr ())"
  using drive_terminates [OF assms(1) start_loop_inv [OF assms(2)], of 0 f] by (simp add: write_all_at_def)

lemma read_total:
  assumes "lawful_kernel K False" "off + length buf < 2 ^ 64"
  shows "\<exists>q st. read_all_at K off buf f = Some (q, st)
    \<and> (healthy_kernel K False \<and> off + length buf \<le> flen f \<longrightarrow> q = Inr ())"
  using drive_terminates [OF assms(1) start_loop_inv [OF assms(2)], of 0 f]
  by (simp add: read_all_at_def start_state_def)

lemma wait_error_early:
  assumes "lawful_kernel K True" "\<And>st. submit_and_wait K 0 st = WaitError er" "data \<noteq> []" "off + length data < 2 ^ 64"
  shows "\<exists>st. write_all_at K off data f = Some (Inl er, st) \<and> in_flight st \<noteq> []"
proof -
  let ?s = "start_state DEFAULT_CHUNK_SIZE off f data"
  let ?s1 = "fill True DEFAULT_RING_SIZE (sq_room K 0 ?s) ?s"
  have "pend ?s \<noteq> {#}"
    using assms(3) by (simp add: pend_def start_state_def cut_pieces.simps DEFAULT_CHUNK_SIZE_def)
  then have "in_flight ?s1 \<noteq> []"
    using fill_not_stuck [OF start_inv(1) [OF assms(4)] assms(1), of 0 f]
      fill_keeps [OF start_inv(1) [OF assms(4)], of True DEFAULT_RING_SIZE "sq_room K 0 ?s" f] by auto
  then show ?thesis
    by (simp add: write_all_at_def drive.simps [of K True _ 0] Let_def assms(2))
qed

section \<open>Properties\<close>

text \<open>C5. A write that returns \<open>Ok\<close> wrote everything: with a kernel that keeps its documented promises,
  however it splits, delays and reorders the completions, the file then holds exactly the old content
  overwritten with the data at the offset, and no operation is left in flight.\<close>

theorem ring_write_exact:
  assumes "lawful_kernel K True" "off + length data < 2 ^ 64" "write_all_at K off data f = Some (Inr (), st)"
  shows "disk st = image_write off data f \<and> in_flight st = []"
  by (rule write_all_at_result [OF assms(3,1,2)])

theorem ring_write_exact_witness:
  "\<exists>st. write_all_at (trickle True 3) 2 [1, 2, 3, 4, 5] (image_of [9, 9, 9]) = Some (Inr (), st)
    \<and> image_bytes (disk st) = [9, 9, 1, 2, 3, 4, 5]"
proof -
  obtain st where st: "write_all_at (trickle True 3) 2 [1, 2, 3, 4, 5] (image_of [9, 9, 9]) = Some (Inr (), st)"
    using write_total [OF trickle_lawful, of 2 "[1, 2, 3, 4, 5]" 3 "image_of [9, 9, 9]"] trickle_healthy [of 3 True] by auto
  have "image_bytes (image_write 2 [1, 2, 3, 4, 5] (image_of [9, 9, 9])) = [9, 9, 1, 2, 3, 4, 5]"
    by code_simp
  with ring_write_exact [OF trickle_lawful _ st] st show ?thesis by simp
qed

text \<open>C17. A read that returns \<open>Ok\<close> filled the buffer with the file's bytes at the offset, all of them
  inside the file; the file is untouched and no operation is left in flight.\<close>

theorem ring_read_exact:
  assumes "lawful_kernel K False" "off + length buf < 2 ^ 64" "read_all_at K off buf f = Some (Inr (), st)"
  shows "mem st = image_read off (length buf) f \<and> disk st = f \<and> in_flight st = []
    \<and> (buf = [] \<or> off + length buf \<le> flen f)"
  by (rule read_all_at_result [OF assms(3,1,2)])

theorem ring_read_exact_witness:
  "\<exists>st. read_all_at (trickle False 2) 1 [0, 0, 0] (image_of [7, 8, 9, 10]) = Some (Inr (), st) \<and> mem st = [8, 9, 10]"
proof -
  obtain st where st: "read_all_at (trickle False 2) 1 [0, 0, 0] (image_of [7, 8, 9, 10]) = Some (Inr (), st)"
    using read_total [OF trickle_lawful, of 1 "[0, 0, 0]" 2 "image_of [7, 8, 9, 10]"] trickle_healthy [of 2 False]
    by (auto simp: image_of_def)
  have "image_read 1 (length [0, 0, 0 :: u8]) (image_of [7, 8, 9, 10]) = [8, 9, 10]"
    by code_simp
  with ring_read_exact [OF trickle_lawful _ st] st show ?thesis by auto
qed

text \<open>C11. The loop ends: under every kernel that keeps its promises a write and a read return, with
  \<open>Ok\<close> or an error; they return \<open>Ok\<close> if the kernel reports no error and makes progress and, for a
  read, the range lies inside the file.\<close>

theorem ring_terminates:
  assumes "off + length buf < 2 ^ 64"
  shows "(lawful_kernel K True \<longrightarrow> (\<exists>q st. write_all_at K off buf f = Some (q, st)
      \<and> (healthy_kernel K True \<longrightarrow> q = Inr ())))
    \<and> (lawful_kernel K False \<longrightarrow> (\<exists>q st. read_all_at K off buf f = Some (q, st)
      \<and> (healthy_kernel K False \<and> off + length buf \<le> flen f \<longrightarrow> q = Inr ())))"
  using write_total [of K off buf f] read_total [of K off buf f] assms by blast

theorem ring_terminates_witness:
  "\<exists>st. write_all_at (trickle True 1) 0 [1, 2, 3] (image_of []) = Some (Inr (), st)"
  using ring_terminates [of 0 "[1, 2, 3]" "trickle True 1" "image_of []"] trickle_lawful [of True 1] trickle_healthy [of 1 True]
  by auto

text \<open>C30. What the kernel is ever handed: every submission entry of a transfer, successful or not, is
  a non-empty range inside the caller's buffer, at the matching file offset, so the cast of its length to
  32 bits loses nothing and no entry reaches outside the buffer.\<close>

theorem ring_entries_in_buffer:
  assumes "off + length buf < 2 ^ 64"
    and "lawful_kernel K True \<and> write_all_at K off buf f = Some (q, st)
      \<or> lawful_kernel K False \<and> read_all_at K off buf f = Some (q, st)"
  shows "\<forall>s \<in> set (pushed st). 0 < sqe_len s \<and> sqe_ptr s + sqe_len s \<le> length buf \<and> sqe_off s = off + sqe_ptr s"
proof -
  have "list_all (good_sqe off (length buf)) (pushed st)"
    using assms(2) drive_pushed [OF _ start_loop_inv [OF assms(1)], of K _ 0 f q st]
    by (auto simp: write_all_at_def read_all_at_def)
  then show ?thesis by (auto simp: list_all_iff good_sqe_def)
qed

theorem ring_entries_in_buffer_witness:
  "\<exists>st. write_all_at broken 5 [1, 2, 3] (image_of []) = Some (Inl (OsError EINTR), st)
    \<and> (\<forall>s \<in> set (pushed st). sqe_ptr s + sqe_len s \<le> 3)"
proof -
  obtain st where st: "write_all_at broken 5 [1, 2, 3] (image_of []) = Some (Inl (OsError EINTR), st)"
    using wait_error_early [OF broken_lawful, of "OsError EINTR" "[1, 2, 3]" 5 "image_of []"] by (auto simp: broken_def)
  then show ?thesis
    using ring_entries_in_buffer [of 5 "[1, 2, 3]" broken "image_of []" "Inl (OsError EINTR)" st] broken_lawful by auto
qed

text \<open>C21. What an error return means. Whatever a lawful kernel does, when a write returns, every byte of the file is
  the old one or, inside the range, the one of the data, the file has not grown past the range, and the buffer is
  untouched; when a read returns, the file is untouched and every byte of the buffer is the old one or the
  file's. The error is one the kernel reported: the error of a wait, a negative completion, or the end of file for
  a completion that moved nothing.\<close>

theorem ring_failed_transfer:
  assumes "off + length buf < 2 ^ 64"
  shows "(lawful_kernel K True \<and> write_all_at K off buf f = Some (q, st) \<longrightarrow>
      mem st = buf \<and> flen f \<le> flen (disk st) \<and> flen (disk st) \<le> max (flen f) (off + length buf)
      \<and> (\<forall>j. byte_at (disk st) j = byte_at f j
          \<or> off \<le> j \<and> j < off + length buf \<and> byte_at (disk st) j = buf ! (j - off))
      \<and> (\<forall>e. q = Inl e \<longrightarrow> reports K e))
    \<and> (lawful_kernel K False \<and> read_all_at K off buf f = Some (q, st) \<longrightarrow>
      disk st = f \<and> length (mem st) = length buf
      \<and> (\<forall>i < length buf. mem st ! i = buf ! i \<or> mem st ! i = byte_at f (off + i))
      \<and> (\<forall>e. q = Inl e \<longrightarrow> reports K e))"
proof (intro conjI impI; elim conjE)
  assume K: "lawful_kernel K True" and run: "write_all_at K off buf f = Some (q, st)"
  from drive_mixed [OF K start_loop_inv [OF assms] start_mixed run [unfolded write_all_at_def]]
  have m: "mixed True off (length buf) f buf st" and e: "\<And>e. q = Inl e \<Longrightarrow> reports K e" by auto
  have "byte_at (disk st) j = byte_at f j \<or> off \<le> j \<and> j < off + length buf \<and> byte_at (disk st) j = buf ! (j - off)" for j
  proof (cases "off \<le> j \<and> j < off + length buf")
    case True
    then have "j - off < length buf" "off + (j - off) = j" by auto
    with m True show ?thesis unfolding mixed_def by (metis insert_iff singletonD)
  next
    case False
    with m show ?thesis by (auto simp: mixed_def framed_def)
  qed
  with m e show "mem st = buf" "flen f \<le> flen (disk st)" "flen (disk st) \<le> max (flen f) (off + length buf)"
    "\<forall>j. byte_at (disk st) j = byte_at f j \<or> off \<le> j \<and> j < off + length buf \<and> byte_at (disk st) j = buf ! (j - off)"
    "\<forall>e. q = Inl e \<longrightarrow> reports K e"
    by (auto simp: mixed_def framed_def split: if_splits)
next
  assume K: "lawful_kernel K False" and run: "read_all_at K off buf f = Some (q, st)"
  from drive_mixed [OF K start_loop_inv [OF assms] start_mixed run [unfolded read_all_at_def]]
  show "disk st = f" "length (mem st) = length buf" "\<forall>e. q = Inl e \<longrightarrow> reports K e"
    "\<forall>i < length buf. mem st ! i = buf ! i \<or> mem st ! i = byte_at f (off + i)"
    by (auto simp: mixed_def framed_def)
qed

text \<open>A kernel that moves one byte in the first round and then reports \<open>EIO\<close>.\<close>

definition flaky :: kernel where
  "flaky = \<lparr>sq_room = (\<lambda>round st. DEFAULT_RING_SIZE),
     submit_and_wait = (\<lambda>round st. Completions (case in_flight st of
         [] \<Rightarrow> []
       | (i, p) # rest \<Rightarrow> [(i, if round = 0 then int (trickle_amount True 1 p (disk st)) else - 5)]))\<rparr>"

lemma flaky_lawful: "lawful_kernel flaky True"
proof -
  have one: "lawful_round True [(i, int (trickle_amount True 1 p (disk st)))] st" and fail: "lawful_round True [(i, - 5)] st"
    if "in_flight st = (i, p) # rest" for i p rest st
    using that by (simp_all add: lawful_round_def trickle_amount_def min_le_iff_disj del: of_nat_mod)
  then show ?thesis
    by (auto simp: lawful_kernel_def flaky_def lawful_round_def [of _ "[]"] simp del: One_nat_def split: list.splits)
qed

theorem ring_failed_transfer_witness:
  "\<exists>st. write_all_at flaky 0 [7, 8] (image_of [1, 2, 3]) = Some (Inl (OsError 5), st)
    \<and> mem st = [7, 8] \<and> flen (disk st) = 3 \<and> byte_at (disk st) 0 = 7 \<and> byte_at (disk st) 2 = 3 \<and> reports flaky (OsError 5)"
proof -
  let ?f = "image_of [1, 2, 3]" and ?p = "\<lparr>file_off = 0, buf_off = 0, plen = 2\<rparr>"
    and ?q = "\<lparr>file_off = 1, buf_off = 1, plen = 1\<rparr>"
  let ?f1 = "image_write 0 [7] ?f"
  let ?s1 = "\<lparr>work = [?q], in_flight = [], next_id = 1, pushed = [make_sqe True 0 ?p], disk = ?f1, mem = [7, 8]\<rparr>"
  have cut: "cut_pieces DEFAULT_CHUNK_SIZE 0 0 2 = [?p]" by (rule one_piece) (simp_all add: DEFAULT_CHUNK_SIZE_def)
  have "start_state DEFAULT_CHUNK_SIZE 0 ?f [7, 8] =
      \<lparr>work = [?p], in_flight = [], next_id = 0, pushed = [], disk = ?f, mem = [7, 8]\<rparr>"
    using cut by (simp add: start_state_def eval_nat_numeral)
  then have "write_all_at flaky 0 [7, 8] ?f = drive flaky True DEFAULT_RING_SIZE 1 ?s1"
    unfolding write_all_at_def
    by (subst drive.simps) (simp add: Let_def flaky_def fill_one trickle_amount_def transfer_def add64_def sub64_def)
  also have "\<dots> = Some (Inl (OsError 5), \<lparr>work = [], in_flight = [], next_id = 2,
      pushed = [make_sqe True 0 ?p, make_sqe True 1 ?q], disk = ?f1, mem = [7, 8]\<rparr>)"
    by (subst drive.simps) (simp add: Let_def flaky_def fill_one)
  finally have run: "write_all_at flaky 0 [7, 8] ?f = Some (Inl (OsError 5), \<lparr>work = [], in_flight = [], next_id = 2,
      pushed = [make_sqe True 0 ?p, make_sqe True 1 ?q], disk = ?f1, mem = [7, 8]\<rparr>)" .
  with ring_failed_transfer [of 0 "[7, 8]" flaky ?f] flaky_lawful have "reports flaky (OsError 5)" by simp
  with run show ?thesis by (simp add: image_of_def image_write_def)
qed

end
