(* ===== verification/Ring_Handle.thy ===== *)
theory Ring_Handle
  imports Ring_Correct File_System
begin

text \<open>
  \<open>IoUringFile\<close> of \<open>src/src/io_uring_backend.rs\<close>: a file with a ring of its own, how it is created, opened
  or made of an open file, and its transfers. What it wraps is a parameter: a path when it was made for
  writing, the opened node when it was made for reading.
\<close>

record 'f io_uring_file =
  uring_file :: 'f
  ring_size :: nat
  chunk_size :: nat

definition uring_from_file :: "faults \<Rightarrow> 'f \<Rightarrow> io_error + 'f io_uring_file" where
  "uring_from_file flt f =
     (case flt SysRing of
        Some er \<Rightarrow> Inl er
      | None \<Rightarrow> Inr \<lparr>uring_file = f, ring_size = DEFAULT_RING_SIZE, chunk_size = DEFAULT_CHUNK_SIZE\<rparr>)"

definition uring_open :: "faults \<Rightarrow> fs_path \<Rightarrow> node \<Rightarrow> io_error + node io_uring_file" where
  "uring_open flt p fs = and_then (sys_open flt p fs) (uring_from_file flt)"

text \<open>\<open>open\<close> with \<open>O_WRONLY | O_CREAT | O_TRUNC\<close>.\<close>

definition sys_open_truncate :: "faults \<Rightarrow> fs_path \<Rightarrow> node \<Rightarrow> (io_error + path) \<times> node" where
  "sys_open_truncate flt p fs =
     (case flt (SysOpen p) of Some e \<Rightarrow> (Inl e, fs)
      | None \<Rightarrow>
          if comps p = [] then (Inl (OsError EISDIR), fs)
          else if trail p = TrailSlash then (Inl (OsError EISDIR), fs)
          else if trail p = TrailDot then
            (case lookup_path fs (comps p) of
               Inl e \<Rightarrow> (Inl (OsError e), fs)
             | Inr (File d) \<Rightarrow> (Inl (OsError ENOTDIR), fs)
             | Inr (Dir es) \<Rightarrow> (Inl (OsError EISDIR), fs))
          else
            (case lookup_path fs (butlast (comps p)) of
               Inl e \<Rightarrow> (Inl (OsError e), fs)
             | Inr (File d) \<Rightarrow> (Inl (OsError ENOTDIR), fs)
             | Inr (Dir es) \<Rightarrow>
                 if dir_at fs (comps p) then (Inl (OsError EISDIR), fs)
                 else (Inr (comps p), set_path (comps p) (File []) fs)))"

definition uring_create :: "faults \<Rightarrow> fs_path \<Rightarrow> node \<Rightarrow> (io_error + path io_uring_file) \<times> node" where
  "uring_create flt p fs =
     (let (r, fs1) = sys_open_truncate flt p fs in (and_then r (uring_from_file flt), fs1))"

definition uring_write_all_at ::
  "kernel \<Rightarrow> 'f io_uring_file \<Rightarrow> nat \<Rightarrow> bytes \<Rightarrow> file_image \<Rightarrow> ((io_error + unit) \<times> ring_state) option" where
  "uring_write_all_at K F off data f = drive K True (ring_size F) 0 (start_state (chunk_size F) off f data)"

definition uring_read_all_at ::
  "kernel \<Rightarrow> 'f io_uring_file \<Rightarrow> nat \<Rightarrow> bytes \<Rightarrow> file_image \<Rightarrow> ((io_error + unit) \<times> ring_state) option" where
  "uring_read_all_at K F off buf f = drive K False (ring_size F) 0 (start_state (chunk_size F) off f buf)"

lemma uring_from_file_Inr [res_simps]:
  "uring_from_file flt f = Inr F \<longleftrightarrow>
     flt SysRing = None \<and> F = \<lparr>uring_file = f, ring_size = DEFAULT_RING_SIZE, chunk_size = DEFAULT_CHUNK_SIZE\<rparr>"
  by (auto simp: uring_from_file_def split: option.splits)

lemma uring_transfers [simp]:
  "uring_write_all_at K \<lparr>uring_file = x, ring_size = DEFAULT_RING_SIZE, chunk_size = DEFAULT_CHUNK_SIZE\<rparr> off data f
     = write_all_at K off data f"
  "uring_read_all_at K \<lparr>uring_file = x, ring_size = DEFAULT_RING_SIZE, chunk_size = DEFAULT_CHUNK_SIZE\<rparr> off data f
     = read_all_at K off data f"
  by (simp_all add: uring_write_all_at_def uring_read_all_at_def write_all_at_def read_all_at_def)

lemma uring_create_effect:
  assumes "uring_create flt p fs = (r, fs')"
  shows "dir_at fs' = dir_at fs
    \<and> (file_at fs' = (file_at fs)(comps p \<mapsto> []) \<or> \<not> is_ok r \<and> fs' = fs)"
  using assms set_file [of "comps p" fs "[]"]
  by (auto simp: uring_create_def sys_open_truncate_def dir_at_iff [of fs "butlast (comps p)"]
      split: option.splits sum.splits node.splits if_splits)

section \<open>Properties\<close>

text \<open>C31. A file written through one ring reads back through another: if create and a write at offset 0 return \<open>Ok\<close>, and
  later, when the path still holds the written image, open and a read of the whole length return \<open>Ok\<close>, the
  buffer holds exactly the data, whatever was at the path before and however the two kernels split and reorder
  the transfers. A failing create leaves every file but its own alone.\<close>

theorem uring_roundtrip:
  assumes "uring_create flt p fs = (Inr F, fs1)" "uring_write_all_at K F 0 data (image_of []) = Some (Inr (), st)"
    and "lawful_kernel K True" "lawful_kernel K' False" "length data < 2 ^ 64"
    and "uring_open flt' p (set_path (uring_file F) (File (image_bytes (disk st))) fs1) = Inr G"
    and "uring_file G = File d" "uring_read_all_at K' G 0 (replicate (length d) 0) (image_of d) = Some (Inr (), st')"
  shows "mem st' = data \<and> file_at fs1 = (file_at fs)(comps p \<mapsto> [])"
proof -
  have F: "F = \<lparr>uring_file = comps p, ring_size = DEFAULT_RING_SIZE, chunk_size = DEFAULT_CHUNK_SIZE\<rparr>"
    using assms(1) by (auto simp: uring_create_def sys_open_truncate_def res_simps
        split: option.splits sum.splits node.splits if_splits prod.splits)
  have eff: "file_at fs1 = (file_at fs)(comps p \<mapsto> [])" "comps p \<noteq> []"
    using uring_create_effect [OF assms(1)] assms(1)
    by (auto simp: uring_create_def sys_open_truncate_def res_simps
        split: option.splits sum.splits node.splits if_splits prod.splits)
  have "disk st = image_write 0 data (image_of [])"
    using write_all_at_result [of K 0 data "image_of []" st] assms(2,3,5) by (simp add: F)
  then have img: "image_bytes (disk st) = data"
    by (cases "data = []") (auto simp: image_bytes_def image_write_def image_of_def intro!: nth_equalityI)
  have at: "file_at fs1 (comps p) = Some []" using eff(1) by simp
  from set_file(1) [OF eff(2) file_parent_dir [OF at eff(2)] file_not_dir [OF at], of data]
  have "node_at (set_path (comps p) (File data) fs1) (comps p) = Some (File data)"
    by (simp add: file_at_iff [symmetric])
  then have d: "d = data" and G: "G = \<lparr>uring_file = File d, ring_size = DEFAULT_RING_SIZE, chunk_size = DEFAULT_CHUNK_SIZE\<rparr>"
    using assms(6,7) by (auto simp: F img uring_open_def sys_open_def res_simps lookup_at
        split: option.splits sum.splits node.splits if_splits)
  have "mem st' = image_read 0 (length d) (image_of d)"
    using read_all_at_result [of K' 0 "replicate (length d) 0" "image_of d" st'] assms(4,5,8) by (simp add: G d)
  moreover have "image_read 0 (length d) (image_of d) = d"
    by (rule nth_equalityI) (simp_all add: image_read_def image_of_def)
  ultimately show ?thesis using d eff(1) by simp
qed

theorem uring_roundtrip_witness:
  "\<exists>st'. uring_read_all_at (trickle False 2)
      \<lparr>uring_file = File [1, 2, 3], ring_size = DEFAULT_RING_SIZE, chunk_size = DEFAULT_CHUNK_SIZE\<rparr>
      0 [0, 0, 0] (image_of [1, 2, 3]) = Some (Inr (), st') \<and> mem st' = [1, 2, 3]"
proof -
  let ?fs = "Dir [(''f'', File [9, 9, 9, 9, 9])]" and ?p = "FsPath [''f''] Plain"
  let ?F = "\<lparr>uring_file = [''f''], ring_size = DEFAULT_RING_SIZE, chunk_size = DEFAULT_CHUNK_SIZE\<rparr>"
  let ?G = "\<lparr>uring_file = File [1, 2, 3], ring_size = DEFAULT_RING_SIZE, chunk_size = DEFAULT_CHUNK_SIZE\<rparr>"
  obtain st where st: "write_all_at (trickle True 2) 0 [1, 2, 3] (image_of []) = Some (Inr (), st)"
    using write_total [OF trickle_lawful, of 0 "[1, 2, 3]" 2 "image_of []"] trickle_healthy [of 2 True] by auto
  obtain st' where st': "read_all_at (trickle False 2) 0 [0, 0, 0] (image_of [1, 2, 3]) = Some (Inr (), st')"
    using read_total [OF trickle_lawful, of 0 "[0, 0, 0]" 2 "image_of [1, 2, 3]"] trickle_healthy [of 2 False]
    by (auto simp: image_of_def)
  have zeros: "replicate (length [1, 2, 3 :: u8]) (0 :: u8) = [0, 0, 0]" by (simp add: numeral_3_eq_3)
  have create: "uring_create no_faults ?p ?fs = (Inr ?F, Dir [(''f'', File [])])"
    by (simp add: uring_create_def sys_open_truncate_def uring_from_file_def no_faults_def)
  have "disk st = image_write 0 [1, 2, 3] (image_of [])"
    using write_all_at_result [OF st trickle_lawful] by simp
  moreover have "image_bytes (image_write 0 [1, 2, 3] (image_of [])) = [1, 2, 3]" by code_simp
  ultimately have "image_bytes (disk st) = [1, 2, 3]" by simp
  then have open': "uring_open no_faults ?p (set_path (uring_file ?F) (File (image_bytes (disk st))) (Dir [(''f'', File [])])) = Inr ?G"
    by (simp add: uring_open_def sys_open_def uring_from_file_def no_faults_def)
  have w: "uring_write_all_at (trickle True 2) ?F 0 [1, 2, 3] (image_of []) = Some (Inr (), st)" using st by simp
  have r: "uring_read_all_at (trickle False 2) ?G 0 (replicate (length [1, 2, 3 :: u8]) 0) (image_of [1, 2, 3]) = Some (Inr (), st')"
    unfolding zeros using st' by simp
  have "mem st' = [1, 2, 3] \<and> file_at (Dir [(''f'', File [])]) = (file_at ?fs)(comps ?p \<mapsto> [])"
    by (rule uring_roundtrip [OF create w trickle_lawful trickle_lawful _ open' _ r]) simp_all
  with st' show ?thesis by (intro exI [of _ st']) simp
qed

end
