(* ===== verification/Ring_Store.thy ===== *)
theory Ring_Store
  imports Ring_Handle Local_Correct
begin

text \<open>
  \<open>IoUringStore\<close> of \<open>src/src/io_uring_backend.rs\<close>: the file-system store whose payloads go through the
  ring driver. Its environment adds to the one of \<open>LocalStore\<close> the kernel of the ring, the error of
  joining the blocking task (if that fails) and the length the file system reports for a directory.
  A put or get is \<open>None\<close> if the ring loop does not end.
\<close>

record ring_env =
  base :: local_env
  kernel_of :: kernel
  join_error :: "string option"
  dir_len :: nat

record ring_store =
  ring_root :: path
  ring_max_bytes :: "u64 option"

section \<open>Construction\<close>

definition ring_with_limits ::
  "local_env \<Rightarrow> path \<Rightarrow> u64 option \<Rightarrow> node \<Rightarrow> ring_store result \<times> node" where
  "ring_with_limits e r limit fs =
     (case create_dir_all (faults_of e) r fs of
        (Inl er, fs1) \<Rightarrow> (Inl (from_io er), fs1)
      | (Inr u, fs1) \<Rightarrow>
          (case sys_stat (faults_of e) (FsPath r Plain) fs1 of
             Inl er \<Rightarrow> (Inl (from_io er), fs1)
           | Inr (File d) \<Rightarrow> (Inl (Other (''not a directory: '' @ path_string r)), fs1)
           | Inr (Dir es) \<Rightarrow> (Inr \<lparr>ring_root = r, ring_max_bytes = limit\<rparr>, fs1)))"

definition ring_new :: "local_env \<Rightarrow> path \<Rightarrow> node \<Rightarrow> ring_store result \<times> node" where
  "ring_new e r fs = ring_with_limits e r None fs"

definition ring_new_unchecked :: "path \<Rightarrow> ring_store" where
  "ring_new_unchecked r = \<lparr>ring_root = r, ring_max_bytes = None\<rparr>"

definition ring_resolve :: "ring_store \<Rightarrow> object_key \<Rightarrow> fs_path result" where
  "ring_resolve R key =
     (if str_contains (as_str key) ''..'' then Inl (invalid_key (''key contains '..'' @ [CHR 0x27]))
      else Inr (path_join (ring_root R) (as_str key)))"

section \<open>put\<close>

text \<open>The blocking task: duplicate the handle, make a ring, write, synchronise.\<close>

definition ring_fill_temp ::
  "ring_env \<Rightarrow> path \<Rightarrow> bytes \<Rightarrow> node \<Rightarrow> ((io_error + unit) \<times> node) option" where
  "ring_fill_temp e tmp data fs =
     (case faults_of (base e) (SysClone tmp) of Some er \<Rightarrow> Some (Inl er, fs)
      | None \<Rightarrow>
     (case uring_from_file (faults_of (base e)) tmp of Inl er \<Rightarrow> Some (Inl er, fs)
      | Inr f \<Rightarrow>
     (case uring_write_all_at (kernel_of e) f 0 data (image_of []) of
        None \<Rightarrow> None
      | Some (q, st) \<Rightarrow>
          (let fs1 = set_path tmp (File (image_bytes (disk st))) fs
           in case q of
                Inl er \<Rightarrow> Some (Inl er, fs1)
              | Inr u \<Rightarrow> Some (sys_sync_all (faults_of (base e)) (uring_file f), fs1)))))"

definition ring_publish ::
  "ring_env \<Rightarrow> path \<Rightarrow> fs_path \<Rightarrow> bytes \<Rightarrow> node \<Rightarrow> (blob_id result \<times> node) option" where
  "ring_publish e tmp dest data fs =
     (let flt = faults_of (base e) in
      case sys_create_new flt tmp fs of
        (Inl er, fs1) \<Rightarrow> Some (Inl (Other (''tempfile create: '' @ tempfile_display (base e) er)), fs1)
      | (Inr u, fs1) \<Rightarrow>
     (case join_error e of
        Some m \<Rightarrow> Some (Inl (Other (''blocking put: '' @ m)), drop_temp flt tmp fs1)
      | None \<Rightarrow>
     (case ring_fill_temp e tmp data fs1 of
        None \<Rightarrow> None
      | Some (Inl er, fs2) \<Rightarrow>
          Some (Inl (Other (''io_uring write: '' @ io_display (strerror (base e)) er)), drop_temp flt tmp fs2)
      | Some (Inr u, fs2) \<Rightarrow>
     (case sys_rename flt tmp dest fs2 of
        (Inl er, fs3) \<Rightarrow> Some (Inl (from_persist_error \<lparr>pe_error = er\<rparr>), drop_temp flt tmp fs3)
      | (Inr u, fs3) \<Rightarrow> Some (Inr (blob_id_new (entropy (base e))), fs3)))))"

definition ring_put ::
  "ring_store \<Rightarrow> ring_env \<Rightarrow> object_key \<Rightarrow> bytes \<Rightarrow> node \<Rightarrow> (blob_id result \<times> node) option" where
  "ring_put R e key data fs =
     (if over_limit (ring_max_bytes R) data then Some (Inl StorageFull, fs)
      else case ring_resolve R key of
          Inl err \<Rightarrow> Some (Inl err, fs)
        | Inr dest \<Rightarrow>
            (case local_ensure_parent (faults_of (base e)) dest fs of
               (Inl err, fs1) \<Rightarrow> Some (Inl err, fs1)
             | (Inr u, fs1) \<Rightarrow>
                 (let parent = (case path_parent dest of Some p \<Rightarrow> p | None \<Rightarrow> ring_root R)
                  in ring_publish e (parent @ [''.blobkit-ring-'' @ tmp_suffix (base e)]) dest data fs1)))"

section \<open>get\<close>

text \<open>Reading an opened directory fails with \<open>EISDIR\<close>, but nothing is read if its length is 0.\<close>

definition ring_read_file :: "ring_env \<Rightarrow> fs_path \<Rightarrow> node \<Rightarrow> (io_error + bytes) option" where
  "ring_read_file e p fs =
     (case uring_open (faults_of (base e)) p fs of Inl er \<Rightarrow> Some (Inl er)
      | Inr f \<Rightarrow>
     (case faults_of (base e) (SysFstat p) of Some er \<Rightarrow> Some (Inl er)
      | None \<Rightarrow>
     (case uring_file f of
        Dir es \<Rightarrow> Some (if dir_len e = 0 then Inr [] else Inl (OsError EISDIR))
      | File d \<Rightarrow>
          (case uring_read_all_at (kernel_of e) f 0 (replicate (length d) 0) (image_of d) of
             None \<Rightarrow> None
           | Some (Inl er, st) \<Rightarrow> Some (Inl er)
           | Some (Inr u, st) \<Rightarrow> Some (Inr (mem st))))))"

definition ring_get :: "ring_store \<Rightarrow> ring_env \<Rightarrow> object_key \<Rightarrow> node \<Rightarrow> bytes result option" where
  "ring_get R e key fs =
     (case ring_resolve R key of
        Inl err \<Rightarrow> Some (Inl err)
      | Inr p \<Rightarrow>
          (case join_error e of
             Some m \<Rightarrow> Some (Inl (Other (''blocking get: '' @ m)))
           | None \<Rightarrow> map_option (\<lambda>q. case q of
                 Inr v \<Rightarrow> Inr v
               | Inl er \<Rightarrow> if io_kind er = KNotFound then Inl (not_found (as_str key)) else Inl (from_io er))
               (ring_read_file e p fs)))"

section \<open>The other operations\<close>

definition ring_delete ::
  "ring_store \<Rightarrow> ring_env \<Rightarrow> object_key \<Rightarrow> node \<Rightarrow> unit result \<times> node" where
  "ring_delete R e key fs =
     (case ring_resolve R key of
        Inl err \<Rightarrow> (Inl err, fs)
      | Inr p \<Rightarrow>
          (case sys_unlink (faults_of (base e)) p fs of
             (Inr u, fs1) \<Rightarrow> (Inr (), fs1)
           | (Inl er, fs1) \<Rightarrow>
               (if io_kind er = KNotFound then Inl (not_found (as_str key)) else Inl (from_io er), fs1)))"

definition ring_exists :: "ring_store \<Rightarrow> ring_env \<Rightarrow> object_key \<Rightarrow> node \<Rightarrow> bool result" where
  "ring_exists R e key fs = and_then (ring_resolve R key) (\<lambda>p.
     case sys_stat (faults_of (base e)) p fs of
       Inr meta \<Rightarrow> Inr True
     | Inl er \<Rightarrow> if io_kind er = KNotFound then Inr False else Inl (from_io er))"

definition ring_list :: "ring_store \<Rightarrow> ring_env \<Rightarrow> string \<Rightarrow> node \<Rightarrow> object_key list result" where
  "ring_list R e pre fs = local_list (local_new_unchecked (ring_root R)) (base e) pre fs"

definition ring_presigned_url ::
  "ring_store \<Rightarrow> ring_env \<Rightarrow> object_key \<Rightarrow> u64 \<Rightarrow> node \<Rightarrow> string result" where
  "ring_presigned_url R e key expires fs =
     local_presigned_url (local_new_unchecked (ring_root R)) (base e) key expires fs"

definition ring_presigned_url_s3 ::
  "(string \<Rightarrow> 'url option) \<Rightarrow> (string \<Rightarrow> string \<Rightarrow> 'url \<Rightarrow> 'url) \<Rightarrow> ring_store \<Rightarrow> ring_env
     \<Rightarrow> object_key \<Rightarrow> u64 \<Rightarrow> node \<Rightarrow> 'url result" where
  "ring_presigned_url_s3 from_file_path append_pair R e key expires fs =
     local_presigned_url_s3 from_file_path append_pair (local_new_unchecked (ring_root R)) (base e) key expires fs"

section \<open>The effect of put\<close>

definition as_local :: "ring_store \<Rightarrow> local_store" where
  "as_local R = \<lparr>root = ring_root R, max_bytes = ring_max_bytes R\<rparr>"

definition ring_tmp_path :: "ring_store \<Rightarrow> ring_env \<Rightarrow> object_key \<Rightarrow> path" where
  "ring_tmp_path R e k = butlast (key_path (as_local R) k) @ [''.blobkit-ring-'' @ tmp_suffix (base e)]"

lemma ring_resolve_local: "ring_resolve R k = local_resolve (as_local R) k"
  by (simp add: ring_resolve_def local_resolve_def as_local_def Let_def)

lemma image_of_bytes [simp]: "image_bytes (image_of d) = d"
  by (rule nth_equalityI) (simp_all add: image_bytes_def image_of_def)

lemma image_write_new: "image_bytes (image_write 0 d (image_of [])) = d"
  by (cases "d = []") (auto simp: image_bytes_def image_write_def image_of_def intro!: nth_equalityI)

lemma image_read_all: "image_read 0 (length d) (image_of d) = d"
  by (rule nth_equalityI) (simp_all add: image_read_def image_of_def)

lemma ring_fill_temp_effect:
  assumes "ring_fill_temp e tmp d fs = Some (r, fs')" "file_at fs tmp = Some x" "tmp \<noteq> []"
    and "lawful_kernel (kernel_of e) True" "length d < 2 ^ 64"
  shows "\<exists>y. file_at fs' = (file_at fs)(tmp \<mapsto> y) \<and> dir_at fs' = dir_at fs \<and> (is_ok r \<longrightarrow> y = d)"
proof -
  have set: "file_at (set_path tmp (File y) fs) = (file_at fs)(tmp \<mapsto> y) \<and> dir_at (set_path tmp (File y) fs) = dir_at fs" for y
    using set_file [OF assms(3) file_parent_dir [OF assms(2,3)] file_not_dir [OF assms(2)]] by simp
  have same: "file_at fs = (file_at fs)(tmp \<mapsto> x)" using assms(2) by (simp add: fun_upd_idem)
  have ok: "write_all_at (kernel_of e) 0 d (image_of []) = Some (Inr (), st) \<Longrightarrow> image_bytes (disk st) = d" for st
    using write_all_at_result [of "kernel_of e" 0 d "image_of []" st] assms(4,5) by (simp add: image_write_new)
  show ?thesis
    using assms(1) set same ok
    by (fastforce simp: ring_fill_temp_def uring_from_file_def Let_def split: option.splits prod.splits sum.splits)
qed

lemma ring_publish_effect:
  assumes "ring_publish e tmp dest d fs = Some (r, fs')" "tmp \<noteq> comps dest"
    and "lawful_kernel (kernel_of e) True" "length d < 2 ^ 64"
  shows "(\<forall>q. q \<noteq> tmp \<longrightarrow> file_at fs' q = (if is_ok r \<and> q = comps dest then Some d else file_at fs q))
    \<and> dir_at fs' = dir_at fs
    \<and> (faults_of (base e) (SysUnlink (FsPath tmp Plain)) = None \<longrightarrow> file_at fs' tmp = file_at fs tmp)"
proof -
  let ?flt = "faults_of (base e)"
  obtain r1 fs1 where mk: "sys_create_new ?flt tmp fs = (r1, fs1)" by (cases "sys_create_new ?flt tmp fs")
  show ?thesis
  proof (cases r1)
    case (Inl er)
    with assms(1) mk sys_create_new_fail [of ?flt tmp fs] show ?thesis by (auto simp: ring_publish_def Let_def)
  next
    case (Inr u)
    note c = sys_create_new_effect [OF mk [unfolded Inr]]
    have tmp1: "file_at fs1 tmp = Some []" by (simp add: c(3))
    have old: "file_at fs tmp = None" using c(2) by (simp add: node_at_None_iff)
    note drop1 = drop_temp_effect [OF tmp1 c(1), of ?flt]
    show ?thesis
    proof (cases "join_error e")
      case (Some m)
      with assms(1) mk Inr drop1 c old show ?thesis by (auto simp: ring_publish_def Let_def)
    next
      case None
      with assms(1) mk Inr obtain r2 fs2 where fillt: "ring_fill_temp e tmp d fs1 = Some (r2, fs2)"
        by (cases "ring_fill_temp e tmp d fs1") (auto simp: ring_publish_def Let_def)
      then obtain y where y: "file_at fs2 = (file_at fs1)(tmp \<mapsto> y)" "dir_at fs2 = dir_at fs1" "is_ok r2 \<longrightarrow> y = d"
        using ring_fill_temp_effect [OF fillt tmp1 c(1) assms(3,4)] by blast
      then have tmp2: "file_at fs2 tmp = Some y" by simp
      obtain r3 fs3 where rn: "sys_rename ?flt tmp dest fs2 = (r3, fs3)" by (cases "sys_rename ?flt tmp dest fs2")
      note n = sys_rename_effect [OF rn tmp2 c(1) assms(2)]
      note drop2 = drop_temp_effect [OF tmp2 c(1), of ?flt]
      from assms mk Inr None fillt rn y n c old drop2 show ?thesis
        by (auto simp: ring_publish_def Let_def fun_eq_iff split: sum.splits if_splits)
    qed
  qed
qed

lemma ring_tmp_not_key: "local_ok_key j \<Longrightarrow> key_path (as_local R) j \<noteq> ring_tmp_path R e k"
proof
  assume j: "local_ok_key j" "key_path (as_local R) j = ring_tmp_path R e k"
  then have "last (key_path (as_local R) j) = ''.blobkit-ring-'' @ tmp_suffix (base e)" by (simp add: ring_tmp_path_def)
  then have "last (key_components j) = ''.blobkit-ring-'' @ tmp_suffix (base e)" by (simp add: key_path_def)
  with j(1) show False by (simp add: local_ok_key_def)
qed

lemma ring_put_effect:
  assumes "local_ok_key k" "ring_put R e k d fs = Some (r, fs')" "lawful_kernel (kernel_of e) True" "length d < 2 ^ 64"
  shows "(\<forall>q. q \<noteq> ring_tmp_path R e k \<longrightarrow>
        file_at fs' q = (if is_ok r \<and> q = key_path (as_local R) k then Some d else file_at fs q))
    \<and> (\<forall>q. dir_at fs q \<longrightarrow> dir_at fs' q)
    \<and> (faults_of (base e) (SysUnlink (FsPath (ring_tmp_path R e k) Plain)) = None \<longrightarrow>
        file_at fs' (ring_tmp_path R e k) = file_at fs (ring_tmp_path R e k))"
proof (cases "over_limit (ring_max_bytes R) d")
  case True
  with assms(2) show ?thesis by (auto simp: ring_put_def)
next
  case False
  let ?L = "as_local R" and ?flt = "faults_of (base e)"
  let ?dest = "FsPath (key_path ?L k) Plain"
  obtain r1 fs1 where dirs: "create_dir_all ?flt (butlast (key_path ?L k)) fs = (r1, fs1)"
    by (cases "create_dir_all ?flt (butlast (key_path ?L k)) fs")
  note c = create_dir_all_effect [OF dirs]
  have res: "ring_resolve R k = Inr ?dest" using ok_key_resolve [OF assms(1)] by (simp add: ring_resolve_local)
  show ?thesis
  proof (cases r1)
    case (Inl er)
    with assms(2) False dirs c show ?thesis
      by (auto simp: ring_put_def res local_ensure_parent_def path_parent_def)
  next
    case (Inr u)
    with assms(2) False dirs have pub: "ring_publish e (ring_tmp_path R e k) ?dest d fs1 = Some (r, fs')"
      by (simp add: ring_put_def res local_ensure_parent_def path_parent_def Let_def ring_tmp_path_def)
    have "ring_tmp_path R e k \<noteq> comps ?dest" using ring_tmp_not_key [OF assms(1), of R e k] by simp
    from ring_publish_effect [OF pub this assms(3,4)] c show ?thesis by simp
  qed
qed

text \<open>Every put keeps the tree well-formed.\<close>

lemma ring_fill_temp_wf:
  assumes "ring_fill_temp e tmp d fs = Some (r, fs')" "fs_wf fs" "list_all name_ok tmp"
  shows "fs_wf fs'"
proof -
  have "fs_wf (set_path tmp (File x) fs)" for x by (rule fs_wf_set_path [OF assms(2) _ assms(3)]) simp
  with assms(1,2) show ?thesis
    by (auto simp: ring_fill_temp_def Let_def split: option.splits sum.splits prod.splits)
qed

lemma ring_publish_wf:
  assumes "ring_publish e tmp dest d fs = Some (r, fs')" "fs_wf fs" "list_all name_ok tmp" "list_all name_ok (comps dest)"
  shows "fs_wf fs'"
proof -
  let ?flt = "faults_of (base e)"
  obtain r1 fs1 where mk: "sys_create_new ?flt tmp fs = (r1, fs1)" by (cases "sys_create_new ?flt tmp fs")
  then have wf1: "fs_wf fs1" using fs_wf_calls(2) [OF assms(2,3), of ?flt] by simp
  have wf2: "fs_wf fs2" if "ring_fill_temp e tmp d fs1 = Some (r2, fs2)" for r2 fs2
    using ring_fill_temp_wf [OF that wf1 assms(3)] .
  have wf3: "fs_wf fs3" if "ring_fill_temp e tmp d fs1 = Some (r2, fs2)" "sys_rename ?flt tmp dest fs2 = (r3, fs3)" for r2 fs2 r3 fs3
    using fs_wf_calls(5) [OF wf2 [OF that(1)] assms(4), of ?flt tmp] that(2) by simp
  from assms(1) wf1 wf2 wf3 show ?thesis
    by (auto simp: ring_publish_def mk drop_temp_def fs_wf_calls(4) Let_def
        split: option.splits sum.splits prod.splits)
qed

lemma ring_put_wf:
  assumes "local_invar (as_local R) fs" "local_env_ok (base e)" "local_ok_key k" "ring_put R e k d fs = Some (r, fs')"
  shows "fs_wf fs'"
proof -
  let ?kp = "key_path (as_local R) k" and ?flt = "faults_of (base e)"
  have names: "list_all name_ok ?kp" "list_all name_ok (butlast ?kp)"
    using assms key_path_names [of k "as_local R"] by (auto simp: local_invar_def list_all_butlast)
  have tmp: "list_all name_ok (ring_tmp_path R e k)"
    using names(2) assms(2) by (auto simp: ring_tmp_path_def name_ok_def local_env_ok_def)
  obtain r1 fs1 where dirs: "create_dir_all ?flt (butlast ?kp) fs = (r1, fs1)"
    by (cases "create_dir_all ?flt (butlast ?kp) fs")
  have wf: "fs_wf fs" using assms(1) by (simp add: local_invar_def)
  with fs_wf_create_dir_all [OF wf names(2), of ?flt] dirs have wf1: "fs_wf fs1" by simp
  have res: "ring_resolve R k = Inr (FsPath ?kp Plain)" using ok_key_resolve [OF assms(3)] by (simp add: ring_resolve_local)
  from assms(4) wf wf1 ring_publish_wf [OF _ wf1 tmp, of e "FsPath ?kp Plain" d] names(1) show ?thesis
    by (auto simp: ring_put_def res local_ensure_parent_def path_parent_def dirs ring_tmp_path_def Let_def
        split: sum.splits if_splits)
qed

lemma ring_fill_temp_quiet:
  assumes "faults_of (base e) = no_faults" "lawful_kernel (kernel_of e) True" "healthy_kernel (kernel_of e) True"
    and "length d < 2 ^ 64"
  shows "ring_fill_temp e tmp d fs = Some (Inr (), set_path tmp (File d) fs)"
proof -
  obtain st where st: "write_all_at (kernel_of e) 0 d (image_of []) = Some (Inr (), st)"
    using write_total [of "kernel_of e" 0 d "image_of []"] assms by auto
  then have "image_bytes (disk st) = d"
    using write_all_at_result [OF st assms(2)] assms(4) by (simp add: image_write_new)
  with st show ?thesis
    by (simp add: ring_fill_temp_def uring_from_file_def assms(1) no_faults_def sys_sync_all_def Let_def)
qed

text \<open>With no fault and a healthy kernel the two stores publish alike, up to the temporary name.\<close>

lemma ring_put_quiet:
  assumes "local_ok_key k" "faults_of (base e) = no_faults" "join_error e = None" "\<not> over_limit (ring_max_bytes R) d"
    and "\<And>q. strict_prefix q (key_path (as_local R) k) \<Longrightarrow> file_at fs q = None"
    and "\<not> dir_at fs (key_path (as_local R) k)" "node_at fs (ring_tmp_path R e k) = None"
    and "lawful_kernel (kernel_of e) True" "healthy_kernel (kernel_of e) True" "length d < 2 ^ 64"
  shows "\<exists>fs'. ring_put R e k d fs = Some (Inr (blob_id_new (entropy (base e))), fs')
    \<and> file_at fs' = (file_at fs)(key_path (as_local R) k \<mapsto> d)
    \<and> (\<forall>q. dir_at fs' q \<longleftrightarrow> dir_at fs q \<or> prefix q (butlast (key_path (as_local R) k)))"
proof -
  let ?L = "as_local R" let ?kp = "key_path ?L k" let ?par = "butlast ?kp" and ?tmp = "ring_tmp_path R e k"
  have "prefix q ?par \<Longrightarrow> file_at fs q = None" for q
    using assms(5) [of q] strict_prefix_butlast [of q ?kp] by simp
  from create_dir_all_quiet [OF this] obtain fs1 where dirs: "create_dir_all no_faults ?par fs = (Inr (), fs1)"
      "\<And>q. dir_at fs1 q \<longleftrightarrow> dir_at fs q \<or> prefix q ?par" "file_at fs1 = file_at fs" by blast
  have np: "\<not> prefix ?kp ?par" using strict_prefix_butlast [of ?kp ?kp] by auto
  have longer: "\<not> prefix (?par @ [x]) ?par" for x by (simp add: prefix_def)
  have tmp: "?tmp \<noteq> []" "butlast ?tmp = ?par" by (simp_all add: ring_tmp_path_def)
  have par: "dir_at fs1 ?par" using dirs(2) by simp
  have nodir: "\<not> dir_at fs1 ?kp" using dirs(2) [of ?kp] assms(6) np by blast
  have free: "node_at fs1 ?tmp = None"
    using assms(7) dirs(2,3) longer by (simp add: node_at_None_iff ring_tmp_path_def)
  obtain fs2 where mk: "sys_create_new no_faults ?tmp fs1 = (Inr (), fs2)"
    using tmp par free by (auto simp: sys_create_new_def no_faults_def dir_at_iff lookup_at)
  note c = sys_create_new_effect [OF mk]
  have t2: "file_at fs2 ?tmp = Some []" by (simp add: c(3))
  note f = ring_fill_temp_quiet [OF assms(2,8-10), of ?tmp fs2]
  let ?fs3 = "set_path ?tmp (File d) fs2"
  have fs3: "file_at ?fs3 ?tmp = Some d" "dir_at ?fs3 = dir_at fs1"
    using set_file [OF tmp(1) file_parent_dir [OF t2 tmp(1)] file_not_dir [OF t2]] c(4) by auto
  have "dir_at ?fs3 ?par" using par fs3(2) by simp
  then obtain es where "node_at ?fs3 ?par = Some (Dir es)" by (auto simp: dir_at_iff)
  with fs3 nodir obtain fs4 where rn: "sys_rename no_faults ?tmp (FsPath ?kp Plain) ?fs3 = (Inr (), fs4)"
    by (auto simp: sys_rename_def no_faults_def lookup_at)
  have pub: "ring_publish e ?tmp (FsPath ?kp Plain) d fs1 = Some (Inr (blob_id_new (entropy (base e))), fs4)"
    by (simp add: ring_publish_def assms(2,3) mk f rn Let_def)
  then have put: "ring_put R e k d fs = Some (Inr (blob_id_new (entropy (base e))), fs4)"
    using assms(4) dirs(1) ok_key_resolve [OF assms(1), of ?L]
    by (simp add: ring_put_def ring_resolve_local local_ensure_parent_def path_parent_def assms(2) Let_def ring_tmp_path_def)
  have upd: "file_at fs4 q = ((file_at fs)(?kp \<mapsto> d)) q" for q
    using ring_put_effect [OF assms(1) put assms(8,10)] ring_tmp_not_key [OF assms(1), of R e k]
    by (cases "q = ?tmp") (auto simp: assms(2) no_faults_def)
  have "dir_at fs4 = dir_at fs1"
    using ring_publish_effect [OF pub _ assms(8,10)] ring_tmp_not_key [OF assms(1), of R e k] by simp
  moreover from upd have "file_at fs4 = (file_at fs)(?kp \<mapsto> d)" by (rule ext)
  ultimately show ?thesis using put dirs(2) by auto
qed

text \<open>What a quiet call reads, and the operations that share \<open>LocalStore\<close>'s code.\<close>

lemma ring_read_quiet:
  assumes "faults_of (base e) = no_faults" "dir_at fs (comps p) \<Longrightarrow> dir_len e \<noteq> 0"
    and "lawful_kernel (kernel_of e) False" "healthy_kernel (kernel_of e) False"
    and "\<And>d. file_at fs (comps p) = Some d \<Longrightarrow> length d < 2 ^ 64"
  shows "ring_read_file e p fs = Some (sys_read no_faults p fs)"
proof (cases "lookup_path fs (comps p)")
  case (Inl er)
  then show ?thesis by (simp add: ring_read_file_def uring_open_def uring_from_file_def sys_open_def sys_read_def assms(1) no_faults_def)
next
  case (Inr n)
  show ?thesis
  proof (cases n)
    case (Dir es)
    with Inr have "dir_len e \<noteq> 0" by (intro assms(2)) (simp add: dir_at_iff)
    with Dir Inr show ?thesis
      by (simp add: ring_read_file_def uring_open_def uring_from_file_def sys_open_def sys_read_def assms(1) no_faults_def lookup_at)
  next
    case (File d)
    with Inr have len: "length d < 2 ^ 64" by (intro assms(5)) (simp add: file_at_iff)
    obtain st where st: "read_all_at (kernel_of e) 0 (replicate (length d) 0) (image_of d) = Some (Inr (), st)"
      using read_total [of "kernel_of e" 0 "replicate (length d) 0" "image_of d"] assms(3,4) len
      by (auto simp: image_of_def)
    have "mem st = d"
      using read_all_at_result [OF st assms(3)] len by (simp add: image_read_all)
    with st Inr File show ?thesis
      by (simp add: ring_read_file_def uring_open_def uring_from_file_def sys_open_def sys_read_def assms(1) no_faults_def lookup_at)
  qed
qed

lemma ring_others_local:
  "ring_delete R e k fs = local_delete (as_local R) (base e) k fs"
  "ring_exists R e k fs = local_exists (as_local R) (base e) k fs"
  "ring_list R e pre fs = local_list (as_local R) (base e) pre fs"
  "ring_presigned_url R e k x fs = local_presigned_url (as_local R) (base e) k x fs"
proof -
  have root: "root (local_new_unchecked (ring_root R)) = root (as_local R)"
    by (simp add: local_new_unchecked_def as_local_def)
  moreover from root have "local_resolve (local_new_unchecked (ring_root R)) k = local_resolve (as_local R) k"
    by (simp add: local_resolve_def)
  ultimately show "ring_delete R e k fs = local_delete (as_local R) (base e) k fs"
    "ring_exists R e k fs = local_exists (as_local R) (base e) k fs"
    "ring_list R e pre fs = local_list (as_local R) (base e) pre fs"
    "ring_presigned_url R e k x fs = local_presigned_url (as_local R) (base e) k x fs"
    by (simp_all add: ring_delete_def local_delete_def ring_exists_def local_exists_def ring_resolve_local
        ring_list_def local_list_def ring_presigned_url_def local_presigned_url_def cong: if_cong)
qed

lemma ring_get_quiet:
  assumes "faults_of (base e) = no_faults" "join_error e = None"
    and "\<And>p. local_resolve (as_local R) k = Inr p \<Longrightarrow> dir_at fs (comps p) \<Longrightarrow> dir_len e \<noteq> 0"
    and "lawful_kernel (kernel_of e) False" "healthy_kernel (kernel_of e) False"
    and "\<And>p d. local_resolve (as_local R) k = Inr p \<Longrightarrow> file_at fs (comps p) = Some d \<Longrightarrow> length d < 2 ^ 64"
  shows "ring_get R e k fs = Some (local_get (as_local R) (base e) k fs)"
  using ring_read_quiet [OF assms(1) _ assms(4,5)] assms(3,6)
  by (cases "local_resolve (as_local R) k")
     (simp_all add: ring_get_def local_get_def ring_resolve_local assms(1,2))

text \<open>A key that names a directory: opening it succeeds, and nothing is read of an empty length.\<close>

lemma get_directory:
  assumes "faults_of (base e) = no_faults" "join_error e = None" "local_resolve (as_local R) k = Inr p" "dir_at fs (comps p)"
  shows "local_get (as_local R) (base e) k fs = Inl (from_io (OsError EISDIR))"
    and "dir_len e = 0 \<Longrightarrow> ring_get R e k fs = Some (Inr [])"
  using assms
  by (auto simp: dir_at_iff local_get_def ring_get_def ring_resolve_local ring_read_file_def uring_open_def
      uring_from_file_def sys_open_def sys_read_def no_faults_def lookup_at decode_errno_def errno_defs)

section \<open>Properties\<close>

text \<open>An environment for the examples, with a kernel that moves one byte a round.\<close>

definition ring_calm :: ring_env where
  "ring_calm = \<lparr>base = calm, kernel_of = trickle True 1, join_error = None, dir_len = 4096\<rparr>"

definition ring_r :: ring_store where
  "ring_r = \<lparr>ring_root = [''r''], ring_max_bytes = Some 4\<rparr>"

lemma ring_r_simps [simp]: "as_local ring_r = store_r" "ring_root ring_r = [''r'']" "ring_max_bytes ring_r = Some 4"
  by (simp_all add: ring_r_def as_local_def store_r_def)

text \<open>C18. The ring store keeps \<open>LocalStore\<close>'s atomicity: whatever system calls fail and however the
  kernel splits, delays or fails the transfers, when a put returns, the destination holds the whole
  payload exactly when it returned \<open>Ok\<close>, all other files and directories are kept, and the temporary
  file is gone unless its removal failed.\<close>

theorem ring_put_atomic:
  assumes "local_ok_key k" "ring_put R e k d fs = Some (r, fs')" "lawful_kernel (kernel_of e) True" "length d < 2 ^ 64"
  shows "(\<forall>q. q \<noteq> ring_tmp_path R e k \<longrightarrow>
        file_at fs' q = (if is_ok r \<and> q = key_path (as_local R) k then Some d else file_at fs q))
    \<and> (\<forall>q. dir_at fs q \<longrightarrow> dir_at fs' q)
    \<and> (faults_of (base e) (SysUnlink (FsPath (ring_tmp_path R e k) Plain)) = None \<longrightarrow>
        file_at fs' (ring_tmp_path R e k) = file_at fs (ring_tmp_path R e k))"
  by (rule ring_put_effect [OF assms])

theorem ring_put_atomic_witness:
  "\<exists>er fs'. ring_put ring_r (ring_calm\<lparr>join_error := Some ''cancelled''\<rparr>) (ObjectKey ''d/g'') [9] tree_r = Some (Inl er, fs')
    \<and> file_at fs' [''r'', ''d'', ''f''] = Some [1]"
proof -
  let ?e = "ring_calm\<lparr>join_error := Some ''cancelled''\<rparr>"
  have kp: "key_path store_r (ObjectKey ''d/g'') = [''r'', ''d'', ''g'']"
    by (simp add: key_path_def key_components_def)
  have "local_ensure_parent no_faults (FsPath [''r'', ''d'', ''g''] Plain) tree_r = (Inr (), tree_r)"
    by code_simp
  moreover obtain fs1 where "sys_create_new no_faults [''r'', ''d'', ''.blobkit-ring-x1''] tree_r = (Inr (), fs1)"
    by (auto simp: sys_create_new_def no_faults_def tree_r_def)
  ultimately obtain er fs' where put: "ring_put ring_r ?e (ObjectKey ''d/g'') [9] tree_r = Some (Inl er, fs')"
    by (simp add: ring_put_def ring_resolve_local ok_key_resolve [OF key_g] kp ring_publish_def ring_calm_def
        over_limit_def path_parent_def Let_def)
  have "lawful_kernel (kernel_of ?e) True" by (simp add: ring_calm_def trickle_lawful)
  from ring_put_atomic [OF key_g put this] put show ?thesis
    by (simp add: kp ring_tmp_path_def ring_calm_def tree_r_def)
qed

text \<open>C28. Reading parity with \<open>LocalStore\<close> on the same tree. Delete, exists, list and presigned_url agree for every
  key, every tree and under any faults. Get agrees when no call fails, the blocking task is not lost, the kernel keeps
  its promises and makes progress, and no file is of \<open>2 ^ 64\<close> bytes or more; except for one case, a key
  that names a directory whose length the file system reports as 0: there \<open>LocalStore\<close> returns an I/O error and
  the ring store \<open>Ok\<close> with no bytes.\<close>

theorem ring_matches_local:
  "ring_delete R e k fs = local_delete (as_local R) (base e) k fs
    \<and> ring_exists R e k fs = local_exists (as_local R) (base e) k fs
    \<and> ring_list R e pre fs = local_list (as_local R) (base e) pre fs
    \<and> ring_presigned_url R e k x fs = local_presigned_url (as_local R) (base e) k x fs
    \<and> (faults_of (base e) = no_faults \<and> join_error e = None
        \<and> lawful_kernel (kernel_of e) False \<and> healthy_kernel (kernel_of e) False
        \<and> (\<forall>p d. file_at fs p = Some d \<longrightarrow> length d < 2 ^ 64) \<longrightarrow>
      (if dir_len e = 0 \<and> (\<exists>p. local_resolve (as_local R) k = Inr p \<and> dir_at fs (comps p))
       then ring_get R e k fs = Some (Inr []) \<and> local_get (as_local R) (base e) k fs = Inl (from_io (OsError EISDIR))
       else ring_get R e k fs = Some (local_get (as_local R) (base e) k fs)))"
  using ring_get_quiet [of e R k fs] get_directory [of e R k _ fs] by (auto simp: ring_others_local)

text \<open>A failing unlink, and gets of a file and of a directory of length 0.\<close>

theorem ring_matches_local_witness:
  "(let e = ring_calm\<lparr>kernel_of := trickle False 1, dir_len := 0\<rparr>;
        e' = ring_calm\<lparr>base := calm\<lparr>faults_of := (\<lambda>c. case c of SysUnlink p \<Rightarrow> Some (OsError EBUSY) | _ \<Rightarrow> None)\<rparr>\<rparr>
    in ring_get ring_r e (ObjectKey ''d/f'') tree_r = Some (Inr [1])
     \<and> ring_get ring_r e (ObjectKey ''d'') tree_r = Some (Inr [])
     \<and> local_get store_r calm (ObjectKey ''d'') tree_r = Inl (from_io (OsError EISDIR))
     \<and> fst (ring_delete ring_r e' (ObjectKey ''d/f'') tree_r) = Inl (from_io (OsError EBUSY))
     \<and> ring_exists ring_r e (ObjectKey ''d/f'') tree_r = Inr True
     \<and> ring_list ring_r e ''d'' tree_r = Inr [ObjectKey ''d/f'']
     \<and> ring_presigned_url ring_r e (ObjectKey ''x'') 60 tree_r = Inl (NotFound ''x''))"
proof -
  let ?e = "ring_calm\<lparr>kernel_of := trickle False 1, dir_len := 0\<rparr>"
  let ?c = "calm\<lparr>faults_of := (\<lambda>c. case c of SysUnlink p \<Rightarrow> Some (OsError EBUSY) | _ \<Rightarrow> None)\<rparr>"
  let ?e' = "ring_calm\<lparr>base := ?c\<rparr>"
  have len: "\<forall>p d. file_at tree_r p = Some d \<longrightarrow> length d < 2 ^ 64"
  proof (intro allI impI)
    fix p d assume f: "file_at tree_r p = Some d"
    then have "p \<in> set (tree_files tree_r)"
      using tree_files_file_at [of tree_r p] store_r_simps(3) by (simp add: local_invar_def)
    with f show "length d < 2 ^ 64" by (auto simp: tree_r_def)
  qed
  have f: "local_resolve store_r (ObjectKey ''d/f'') = Inr (FsPath [''r'', ''d'', ''f''] Plain)"
    "local_resolve store_r (ObjectKey ''d'') = Inr (FsPath [''r'', ''d''] Plain)" by code_simp+
  have dirs: "\<not> dir_at tree_r [''r'', ''d'', ''f'']" "dir_at tree_r [''r'', ''d'']" by (simp_all add: tree_r_def)
  have loc: "local_get store_r calm (ObjectKey ''d/f'') tree_r = Inr [1]"
    "fst (local_delete store_r ?c (ObjectKey ''d/f'') tree_r) = Inl (from_io (OsError EBUSY))"
    "local_exists store_r calm (ObjectKey ''d/f'') tree_r = Inr True"
    "local_list store_r calm ''d'' tree_r = Inr [ObjectKey ''d/f'']"
    "local_presigned_url store_r calm (ObjectKey ''x'') 60 tree_r = Inl (NotFound ''x'')" by code_simp+
  have "base ?e = calm" "base ?e' = ?c" by (simp_all add: ring_calm_def)
  with loc f dirs len trickle_lawful [of False 1] trickle_healthy [of 1 False]
    ring_matches_local [of ring_r ?e "ObjectKey ''d/f''" tree_r "''d''" 60]
    ring_matches_local [of ring_r ?e "ObjectKey ''d''" tree_r "''d''" 60]
    ring_matches_local [of ring_r ?e' "ObjectKey ''d/f''" tree_r "''d''" 60]
    ring_matches_local [of ring_r ?e "ObjectKey ''x''" tree_r "''d''" 60]
  show ?thesis unfolding Let_def by (simp add: ring_calm_def)
qed

text \<open>C27. Writing parity with \<open>LocalStore\<close>: without faults, for a storable key with nothing in its way,
  both stores put the payload, return the same identifier, and leave the same files.\<close>

theorem ring_put_matches_local:
  assumes "local_ok_key k" "local_quiet (base e)" "join_error e = None" "\<not> over_limit (ring_max_bytes R) d"
    and "\<And>q. strict_prefix q (key_path (as_local R) k) \<Longrightarrow> file_at fs q = None"
    and "\<not> dir_at fs (key_path (as_local R) k)"
    and "node_at fs (ring_tmp_path R e k) = None" "node_at fs (tmp_path (as_local R) (base e) k) = None"
    and "lawful_kernel (kernel_of e) True" "healthy_kernel (kernel_of e) True" "length d < 2 ^ 64"
  shows "\<exists>fs1 fs2. ring_put R e k d fs = Some (Inr (blob_id_new (entropy (base e))), fs1)
    \<and> local_put (as_local R) (base e) k d fs = (Inr (blob_id_new (entropy (base e))), fs2)
    \<and> file_at fs1 = file_at fs2"
proof -
  let ?L = "as_local R"
  have quiet: "faults_of (base e) = no_faults" using assms(2) by (simp add: local_quiet_def)
  obtain fs1 where r: "ring_put R e k d fs = Some (Inr (blob_id_new (entropy (base e))), fs1)"
    using ring_put_quiet [OF assms(1) quiet assms(3-7) assms(9-11)] by blast
  have lim: "\<not> over_limit (max_bytes ?L) d" using assms(4) by (simp add: as_local_def)
  obtain fs2 where l: "local_put ?L (base e) k d fs = (Inr (blob_id_new (entropy (base e))), fs2)"
    using local_put_quiet [OF assms(1,2) lim assms(5,6,8)] by blast
  note re = ring_put_effect [OF assms(1) r assms(9,11)] and le = local_put_effect [OF assms(1) l]
  have "file_at fs1 (ring_tmp_path R e k) = file_at fs (ring_tmp_path R e k)"
    and "file_at fs2 (tmp_path ?L (base e) k) = file_at fs (tmp_path ?L (base e) k)"
    using re le quiet by (simp_all add: no_faults_def)
  note same = this
  have "file_at fs1 q = (if q = key_path ?L k then Some d else file_at fs q)" for q
    using re same(1) ring_tmp_not_key [OF assms(1), of R e k] by (cases "q = ring_tmp_path R e k") simp_all
  moreover have "file_at fs2 q = (if q = key_path ?L k then Some d else file_at fs q)" for q
    using le same(2) tmp_not_key [OF assms(1), of ?L "base e" k] by (cases "q = tmp_path ?L (base e) k") simp_all
  ultimately have "file_at fs1 = file_at fs2" by (simp add: fun_eq_iff)
  with r l show ?thesis by blast
qed

theorem ring_put_matches_local_witness:
  "\<exists>fs1. ring_put ring_r ring_calm (ObjectKey ''d/g'') [7, 8] tree_r = Some (Inr (blob_id_new 1), fs1)
    \<and> file_at fs1 [''r'', ''d'', ''g''] = Some [7, 8]"
proof -
  have kp: "key_path store_r (ObjectKey ''d/g'') = [''r'', ''d'', ''g'']"
    by (simp add: key_path_def key_components_def)
  have "file_at tree_r q = None" if "strict_prefix q [''r'', ''d'', ''g'']" for q
    using that by (auto simp: strict_prefix_def prefix_Cons tree_r_def)
  moreover have "\<not> dir_at tree_r [''r'', ''d'', ''g'']" "node_at tree_r [''r'', ''d'', ''.blobkit-x1''] = None"
      "node_at tree_r [''r'', ''d'', ''.blobkit-ring-x1''] = None"
    by (simp_all add: tree_r_def)
  ultimately obtain fs1 fs2 where res: "ring_put ring_r ring_calm (ObjectKey ''d/g'') [7, 8] tree_r = Some (Inr (blob_id_new 1), fs1)"
      "local_put store_r calm (ObjectKey ''d/g'') [7, 8] tree_r = (Inr (blob_id_new 1), fs2)" "file_at fs1 = file_at fs2"
    using ring_put_matches_local [of "ObjectKey ''d/g''" ring_calm ring_r "[7, 8]" tree_r] key_g trickle_lawful [of True 1]
      trickle_healthy [of 1 True]
    by (auto simp: kp tmp_path_def ring_tmp_path_def over_limit_def ring_calm_def)
  from local_put_effect [OF key_g res(2)] have "file_at fs2 [''r'', ''d'', ''g''] = Some [7, 8]"
    by (simp add: kp tmp_path_def)
  with res show ?thesis by simp
qed

end
