(* ===== verification/Ring_Tasks.thy ===== *)
theory Ring_Tasks
  imports Local_Concurrent Ring_Store
begin

text \<open>
  The operations of \<open>IoUringStore\<close> as tasks that run concurrently on the tree, one system call a step, like
  those of \<open>LocalStore\<close>; a transfer through the ring is one step, which may never return. A get keeps the
  file it opened while others replace it. The tasks keep the protocol of the tree.
\<close>

section \<open>Tasks\<close>

datatype ring_task =
    RPutStart object_key bytes
  | RPutDirs object_key bytes fs_path mk_pc
  | RPutTemp object_key bytes fs_path
  | RPutHandle object_key bytes fs_path path
  | RPutWrite object_key bytes fs_path path "path io_uring_file"
  | RPutSync object_key bytes fs_path path "path io_uring_file"
  | RPutPersist object_key bytes fs_path path
  | RPutDrop object_key bytes path blob_error
  | RPutDone object_key bytes "blob_id result"
  | RGetStart object_key
  | RGetFile object_key fs_path "node io_uring_file"
  | RGetDone object_key "bytes result"
  | RDeleteStart object_key
  | RDeleteDone object_key "unit result"
  | RExistsStart object_key
  | RExistsDone object_key "bool result"

definition ring_temp_of :: "ring_store \<Rightarrow> ring_env \<Rightarrow> fs_path \<Rightarrow> path" where
  "ring_temp_of R e dest =
     (case path_parent dest of Some p \<Rightarrow> p | None \<Rightarrow> ring_root R) @ [''.blobkit-ring-'' @ tmp_suffix (base e)]"

definition ring_write_error :: "ring_env \<Rightarrow> io_error \<Rightarrow> blob_error" where
  "ring_write_error e er = Other (''io_uring write: '' @ io_display (strerror (base e)) er)"

definition ring_got :: "object_key \<Rightarrow> io_error + bytes \<Rightarrow> bytes result" where
  "ring_got k q = (case q of
      Inr v \<Rightarrow> Inr v
    | Inl er \<Rightarrow> if io_kind er = KNotFound then Inl (not_found (as_str k)) else Inl (from_io er))"

fun ring_task_step ::
  "ring_store \<Rightarrow> ring_env \<Rightarrow> ring_task \<Rightarrow> node \<Rightarrow> (ring_task \<times> node \<times> effect) option" where
  "ring_task_step R e (RPutStart k d) fs =
     Some (if over_limit (ring_max_bytes R) d then RPutDone k d (Inl StorageFull)
       else case ring_resolve R k of
           Inl err \<Rightarrow> RPutDone k d (Inl err)
         | Inr dest \<Rightarrow> (case path_parent dest of
             Some parent \<Rightarrow> RPutDirs k d dest (MkTry parent [])
           | None \<Rightarrow> RPutTemp k d dest), fs, NoEffect)"
| "ring_task_step R e (RPutDirs k d dest m) fs =
     Some (case mk_result m of
        Some (Inl er) \<Rightarrow> (RPutDone k d (Inl (from_io er)), fs, NoEffect)
      | Some (Inr u) \<Rightarrow> (RPutTemp k d dest, fs, NoEffect)
      | None \<Rightarrow> (let (m', fs1) = mk_step (faults_of (base e)) m fs in (RPutDirs k d dest m', fs1, NoEffect)))"
| "ring_task_step R e (RPutTemp k d dest) fs =
     (let tmp = ring_temp_of R e dest
      in case sys_create_new (faults_of (base e)) tmp fs of
          (Inl er, fs1) \<Rightarrow>
            Some (RPutDone k d (Inl (Other (''tempfile create: '' @ tempfile_display (base e) er))), fs1, NoEffect)
        | (Inr u, fs1) \<Rightarrow> Some (RPutHandle k d dest tmp, fs1, Created tmp))"
| "ring_task_step R e (RPutHandle k d dest tmp) fs =
     Some (case join_error e of
        Some m \<Rightarrow> RPutDrop k d tmp (Other (''blocking put: '' @ m))
      | None \<Rightarrow>
     (case faults_of (base e) (SysClone tmp) of
        Some er \<Rightarrow> RPutDrop k d tmp (ring_write_error e er)
      | None \<Rightarrow>
     (case uring_from_file (faults_of (base e)) tmp of
        Inl er \<Rightarrow> RPutDrop k d tmp (ring_write_error e er)
      | Inr f \<Rightarrow> RPutWrite k d dest tmp f)), fs, NoEffect)"
| "ring_task_step R e (RPutWrite k d dest tmp f) fs =
     (case uring_write_all_at (kernel_of e) f 0 d (image_of []) of
        None \<Rightarrow> None
      | Some (q, st) \<Rightarrow>
          Some (case q of Inl er \<Rightarrow> RPutDrop k d tmp (ring_write_error e er) | Inr u \<Rightarrow> RPutSync k d dest tmp f,
            set_path tmp (File (image_bytes (disk st))) fs, Written tmp))"
| "ring_task_step R e (RPutSync k d dest tmp f) fs =
     Some (case sys_sync_all (faults_of (base e)) (uring_file f) of
        Inl er \<Rightarrow> (RPutDrop k d tmp (ring_write_error e er), fs, NoEffect)
      | Inr u \<Rightarrow> (RPutPersist k d dest tmp, fs,
          case file_at fs tmp of Some x \<Rightarrow> Synced tmp x | None \<Rightarrow> NoEffect))"
| "ring_task_step R e (RPutPersist k d dest tmp) fs =
     (case sys_rename (faults_of (base e)) tmp dest fs of
        (Inl er, fs1) \<Rightarrow> Some (RPutDrop k d tmp (from_persist_error \<lparr>pe_error = er\<rparr>), fs1, NoEffect)
      | (Inr u, fs1) \<Rightarrow> Some (RPutDone k d (Inr (blob_id_new (entropy (base e)))), fs1, Renamed tmp (comps dest)))"
| "ring_task_step R e (RPutDrop k d tmp err) fs =
     (case sys_unlink (faults_of (base e)) (FsPath tmp Plain) fs of
        (Inl er, fs1) \<Rightarrow> Some (RPutDone k d (Inl err), fs1, NoEffect)
      | (Inr u, fs1) \<Rightarrow> Some (RPutDone k d (Inl err), fs1, Unlinked tmp))"
| "ring_task_step R e (RGetStart k) fs =
     Some (case ring_resolve R k of
        Inl err \<Rightarrow> RGetDone k (Inl err)
      | Inr p \<Rightarrow>
     (case join_error e of
        Some m \<Rightarrow> RGetDone k (Inl (Other (''blocking get: '' @ m)))
      | None \<Rightarrow>
     (case uring_open (faults_of (base e)) p fs of
        Inl er \<Rightarrow> RGetDone k (ring_got k (Inl er))
      | Inr f \<Rightarrow> RGetFile k p f)), fs, NoEffect)"
| "ring_task_step R e (RGetFile k p f) fs =
     (case faults_of (base e) (SysFstat p) of
        Some er \<Rightarrow> Some (RGetDone k (ring_got k (Inl er)), fs, NoEffect)
      | None \<Rightarrow>
     (case uring_file f of
        Dir es \<Rightarrow> Some (RGetDone k (ring_got k (if dir_len e = 0 then Inr [] else Inl (OsError EISDIR))), fs, NoEffect)
      | File d \<Rightarrow>
     (case uring_read_all_at (kernel_of e) f 0 (replicate (length d) 0) (image_of d) of
        None \<Rightarrow> None
      | Some (Inl er, st) \<Rightarrow> Some (RGetDone k (ring_got k (Inl er)), fs, NoEffect)
      | Some (Inr u, st) \<Rightarrow> Some (RGetDone k (ring_got k (Inr (mem st))), fs, NoEffect))))"
| "ring_task_step R e (RDeleteStart k) fs =
     (case ring_resolve R k of
        Inl err \<Rightarrow> Some (RDeleteDone k (Inl err), fs, NoEffect)
      | Inr p \<Rightarrow>
          (case sys_unlink (faults_of (base e)) p fs of
             (Inr u, fs1) \<Rightarrow> Some (RDeleteDone k (Inr ()), fs1, Unlinked (comps p))
           | (Inl er, fs1) \<Rightarrow>
               Some (RDeleteDone k (if io_kind er = KNotFound then Inl (not_found (as_str k)) else Inl (from_io er)),
                 fs1, NoEffect)))"
| "ring_task_step R e (RExistsStart k) fs = Some (RExistsDone k (ring_exists R e k fs), fs, NoEffect)"
| "ring_task_step R e t fs = Some (t, fs, NoEffect)"

fun ring_finished :: "ring_task \<Rightarrow> bool" where
  "ring_finished (RPutDone k d r) = True"
| "ring_finished (RGetDone k r) = True"
| "ring_finished (RDeleteDone k r) = True"
| "ring_finished (RExistsDone k r) = True"
| "ring_finished t = False"

fun ring_steps_left :: "local_store \<Rightarrow> ring_task \<Rightarrow> nat" where
  "ring_steps_left L (RPutStart k d) =
     (case local_resolve L k of Inr dest \<Rightarrow> 3 * length (comps dest) | Inl err \<Rightarrow> 0) + 10"
| "ring_steps_left L (RPutDirs k d dest m) = mk_left m + 7"
| "ring_steps_left L (RPutTemp k d dest) = 6"
| "ring_steps_left L (RPutHandle k d dest tmp) = 5"
| "ring_steps_left L (RPutWrite k d dest tmp f) = 4"
| "ring_steps_left L (RPutSync k d dest tmp f) = 3"
| "ring_steps_left L (RPutPersist k d dest tmp) = 2"
| "ring_steps_left L (RPutDrop k d tmp err) = 1"
| "ring_steps_left L (RGetStart k) = 2"
| "ring_steps_left L (RGetFile k p f) = 1"
| "ring_steps_left L (RDeleteStart k) = 1"
| "ring_steps_left L (RExistsStart k) = 1"
| "ring_steps_left L t = 0"

lemma ring_resolve_root: "root L = ring_root R \<Longrightarrow> ring_resolve R k = local_resolve L k"
  by (simp add: ring_resolve_def local_resolve_def Let_def)

lemma ring_task_step_left:
  assumes "\<not> ring_finished t" "ring_task_step R e t fs = Some (t', fs', ef)" "root L = ring_root R"
  shows "ring_steps_left L t' < ring_steps_left L t"
  using assms(1,2)
  by (cases "(R, e, t, fs)" rule: ring_task_step.cases)
    (auto simp: ring_resolve_root [OF assms(3)] path_parent_def Let_def dest: mk_step_left
      split: sum.splits prod.splits option.splits node.splits if_splits)

section \<open>A task alone\<close>

function ring_run :: "ring_store \<Rightarrow> ring_env \<Rightarrow> ring_task \<Rightarrow> node \<Rightarrow> (ring_task \<times> node) option" where
  "ring_run R e t fs =
     (if ring_finished t then Some (t, fs)
      else case ring_task_step R e t fs of
        None \<Rightarrow> None
      | Some (t', fs', ef) \<Rightarrow> ring_run R e t' fs')"
  by pat_completeness auto
termination
  by (relation "measure (\<lambda>(R, e, t, fs). ring_steps_left (as_local R) t)")
    (auto simp: as_local_def intro: ring_task_step_left)

declare ring_run.simps [simp del]

lemma ring_run_finished [simp]: "ring_finished t \<Longrightarrow> ring_run R e t fs = Some (t, fs)"
  by (subst ring_run.simps) simp

lemma ring_run_dirs:
  "ring_run R e (RPutDirs k d dest m) fs =
     (case mk_run (faults_of (base e)) m fs of
        (Inl er, fs1) \<Rightarrow> Some (RPutDone k d (Inl (from_io er)), fs1)
      | (Inr u, fs1) \<Rightarrow> ring_run R e (RPutTemp k d dest) fs1)"
proof (induction "faults_of (base e)" m fs rule: mk_run.induct)
  case (1 m fs)
  obtain m' fs1 where "mk_step (faults_of (base e)) m fs = (m', fs1)" by (cases "mk_step (faults_of (base e)) m fs")
  with 1 show ?case
    by (subst ring_run.simps, subst mk_run.simps) (auto split: option.splits sum.splits)
qed

lemma ring_run_drop:
  "ring_run R e (RPutDrop k d tmp err) fs = Some (RPutDone k d (Inl err), drop_temp (faults_of (base e)) tmp fs)"
  by (subst ring_run.simps) (auto simp: drop_temp_def split: prod.splits sum.splits)

lemma ring_run_publish:
  fixes R :: ring_store and e :: ring_env and dest :: fs_path
  defines "tmp \<equiv> ring_temp_of R e dest"
  shows "ring_run R e (RPutTemp k d dest) fs =
    map_option (\<lambda>(r, fs'). (RPutDone k d r, fs')) (ring_publish e tmp dest d fs)"
proof -
  let ?flt = "faults_of (base e)"
  have persist: "ring_run R e (RPutPersist k d dest tmp) fs2 = Some
      (case sys_rename ?flt tmp dest fs2 of
         (Inl er, fs3) \<Rightarrow> (RPutDone k d (Inl (from_persist_error \<lparr>pe_error = er\<rparr>)), drop_temp ?flt tmp fs3)
       | (Inr u, fs3) \<Rightarrow> (RPutDone k d (Inr (blob_id_new (entropy (base e)))), fs3))" for fs2
    by (subst ring_run.simps) (auto simp: ring_run_drop split: prod.splits sum.splits)
  have sync: "ring_run R e (RPutSync k d dest tmp f) fs2 =
      (case sys_sync_all ?flt (uring_file f) of
         Inl er \<Rightarrow> Some (RPutDone k d (Inl (ring_write_error e er)), drop_temp ?flt tmp fs2)
       | Inr u \<Rightarrow> ring_run R e (RPutPersist k d dest tmp) fs2)" for f fs2
    by (subst ring_run.simps) (auto simp: ring_run_drop split: sum.splits)
  have wr: "ring_run R e (RPutWrite k d dest tmp f) fs2 =
      (case uring_write_all_at (kernel_of e) f 0 d (image_of []) of
         None \<Rightarrow> None
       | Some (Inl er, st) \<Rightarrow> Some (RPutDone k d (Inl (ring_write_error e er)),
           drop_temp ?flt tmp (set_path tmp (File (image_bytes (disk st))) fs2))
       | Some (Inr u, st) \<Rightarrow> ring_run R e (RPutSync k d dest tmp f) (set_path tmp (File (image_bytes (disk st))) fs2))"
    for f fs2
    by (subst ring_run.simps) (auto simp: ring_run_drop split: option.splits sum.splits)
  have handle: "ring_run R e (RPutHandle k d dest tmp) fs1 =
      (case join_error e of
         Some m \<Rightarrow> Some (RPutDone k d (Inl (Other (''blocking put: '' @ m))), drop_temp ?flt tmp fs1)
       | None \<Rightarrow> (case ring_fill_temp e tmp d fs1 of
           None \<Rightarrow> None
         | Some (Inl er, fs2) \<Rightarrow> Some (RPutDone k d (Inl (ring_write_error e er)), drop_temp ?flt tmp fs2)
         | Some (Inr u, fs2) \<Rightarrow> ring_run R e (RPutPersist k d dest tmp) fs2))" for fs1
    by (subst ring_run.simps)
      (auto simp: ring_run_drop ring_fill_temp_def wr sync Let_def split: option.splits sum.splits)
  show ?thesis
    by (subst ring_run.simps)
      (auto simp: ring_publish_def handle persist tmp_def [symmetric] ring_write_error_def Let_def
        split: prod.splits sum.splits option.splits)
qed

section \<open>Property\<close>

text \<open>The tasks are the operations: a task of the ring store that runs alone in an unchanging environment, step by
  step to its end, returns and leaves exactly what the operation does, and does not return exactly when it does not.\<close>

theorem ring_task_alone:
  "ring_run R e (RPutStart k d) fs = map_option (\<lambda>(r, fs'). (RPutDone k d r, fs')) (ring_put R e k d fs)
   \<and> ring_run R e (RGetStart k) fs = map_option (\<lambda>r. (RGetDone k r, fs)) (ring_get R e k fs)
   \<and> ring_run R e (RDeleteStart k) fs = (case ring_delete R e k fs of (r, fs') \<Rightarrow> Some (RDeleteDone k r, fs'))
   \<and> ring_run R e (RExistsStart k) fs = Some (RExistsDone k (ring_exists R e k fs), fs)"
proof (intro conjI)
  show "ring_run R e (RPutStart k d) fs = map_option (\<lambda>(r, fs'). (RPutDone k d r, fs')) (ring_put R e k d fs)"
    by (subst ring_run.simps)
      (auto simp: ring_put_def local_ensure_parent_def ring_run_dirs mk_run_create_dir_all ring_run_publish
        ring_temp_of_def path_parent_def Let_def split: sum.splits prod.splits option.splits if_splits)
  have opened: "ring_run R e (RGetFile k p f) fs =
      (case faults_of (base e) (SysFstat p) of
         Some er \<Rightarrow> Some (RGetDone k (ring_got k (Inl er)), fs)
       | None \<Rightarrow> (case uring_file f of
           Dir es \<Rightarrow> Some (RGetDone k (ring_got k (if dir_len e = 0 then Inr [] else Inl (OsError EISDIR))), fs)
         | File d \<Rightarrow> (case uring_read_all_at (kernel_of e) f 0 (replicate (length d) 0) (image_of d) of
             None \<Rightarrow> None
           | Some (Inl er, st) \<Rightarrow> Some (RGetDone k (ring_got k (Inl er)), fs)
           | Some (Inr u, st) \<Rightarrow> Some (RGetDone k (ring_got k (Inr (mem st))), fs))))" for p f
    by (subst ring_run.simps) (auto split: option.splits sum.splits node.splits)
  show "ring_run R e (RGetStart k) fs = map_option (\<lambda>r. (RGetDone k r, fs)) (ring_get R e k fs)"
    by (subst ring_run.simps)
      (auto simp: ring_get_def ring_read_file_def opened ring_got_def split: option.splits sum.splits node.splits)
  show "ring_run R e (RDeleteStart k) fs = (case ring_delete R e k fs of (r, fs') \<Rightarrow> Some (RDeleteDone k r, fs'))"
    by (subst ring_run.simps) (auto simp: ring_delete_def split: sum.splits prod.splits)
  show "ring_run R e (RExistsStart k) fs = Some (RExistsDone k (ring_exists R e k fs), fs)"
    by (subst ring_run.simps) simp
qed

end
