(* ===== verification/Ring_Concurrent.thy ===== *)
theory Ring_Concurrent
  imports Ring_Tasks
begin

text \<open>
  The tasks of \<open>IoUringStore\<close> keep the protocol of the tree, if the kernel of the ring keeps its promises: for
  a read also that it does not report \<open>ENOENT\<close> on an open file, and that no directory has length 0.
\<close>

section \<open>Kernels that do not report a missing file\<close>

definition never_missing :: "kernel \<Rightarrow> bool" where
  "never_missing K \<longleftrightarrow> (\<forall>round st. case submit_and_wait K round st of
      WaitError er \<Rightarrow> io_kind er \<noteq> KNotFound
    | Completions cs \<Rightarrow> (\<forall>(i, r) \<in> set cs. r < 0 \<longrightarrow> io_kind (OsError (nat (- r))) \<noteq> KNotFound))"

lemma reap_kind:
  "\<forall>(i, r) \<in> set cs. r < 0 \<longrightarrow> io_kind (OsError (nat (- r))) \<noteq> KNotFound \<Longrightarrow> reap w cs st = (Inl er, st') \<Longrightarrow>
    io_kind er \<noteq> KNotFound"
  by (induction cs arbitrary: st) (auto simp: reap_settle simp del: reap.simps(2) split: option.splits if_splits)

lemma drive_kind:
  assumes "drive K w ring round st = Some (Inl er, st')" "never_missing K"
  shows "io_kind er \<noteq> KNotFound"
proof -
  let ?P = "\<lambda>K (w :: bool) (ring :: nat) (round :: nat) (st :: ring_state) (q :: (io_error + unit) \<times> ring_state). never_missing K \<longrightarrow> (\<forall>er. fst q = Inl er \<longrightarrow> io_kind er \<noteq> KNotFound)"
  have "?P K w ring round st (Inl er, st')"
  proof (rule drive.raw_induct [of ?P, OF _ assms(1)])
    fix drv and K :: kernel and w :: bool and ring round :: nat and st :: ring_state and q
    assume IH: "\<And>K w ring round st q. drv K w ring round st = Some q \<Longrightarrow> ?P K w ring round st q"
      and run: "(let st1 = fill w ring (sq_room K round st) st
        in if in_flight st1 = [] then Some (Inr (), st1)
           else case submit_and_wait K round st1 of
               WaitError e \<Rightarrow> Some (Inl e, st1)
             | Completions cs \<Rightarrow>
                 (case reap w cs st1 of
                    (Inl e, st2) \<Rightarrow> Some (Inl e, st2)
                  | (Inr u, st2) \<Rightarrow> drv K w ring (round + 1) st2)) = Some q"
    let ?st1 = "fill w ring (sq_room K round st) st"
    show "?P K w ring round st q"
    proof (intro impI allI)
      fix er
      assume K: "never_missing K" and q: "fst q = Inl er"
      show "io_kind er \<noteq> KNotFound"
      proof (cases "submit_and_wait K round ?st1")
        case (WaitError e)
        with K [unfolded never_missing_def, rule_format, of round ?st1] run q show ?thesis
          by (auto simp: Let_def split: if_splits)
      next
        case (Completions cs)
        have "\<forall>(i, r) \<in> set cs. r < 0 \<longrightarrow> io_kind (OsError (nat (- r))) \<noteq> KNotFound"
          using K [unfolded never_missing_def, rule_format, of round ?st1] Completions by simp
        note kind = reap_kind [OF this, of w ?st1 er]
        obtain r st2 where reap: "reap w cs ?st1 = (r, st2)" by (cases "reap w cs ?st1")
        show ?thesis
        proof (cases r)
          case (Inl er')
          with run q reap Completions kind [of st2] show ?thesis by (cases q) (auto simp: Let_def split: if_splits)
        next
          case (Inr u)
          with run q reap K Completions IH [of K w ring "Suc round" st2 q] show ?thesis
            by (auto simp: Let_def split: if_splits)
        qed
      qed
    qed
  qed
  with assms(2) show ?thesis by simp
qed

section \<open>What the protocol sees of a task\<close>

fun ring_starting :: "ring_task \<Rightarrow> bool" where
  "ring_starting (RPutStart k d) = True"
| "ring_starting (RGetStart k) = True"
| "ring_starting (RDeleteStart k) = True"
| "ring_starting (RExistsStart k) = True"
| "ring_starting t = False"

fun ring_key :: "ring_task \<Rightarrow> object_key" where
  "ring_key (RPutStart k d) = k"
| "ring_key (RPutDirs k d dest m) = k"
| "ring_key (RPutTemp k d dest) = k"
| "ring_key (RPutHandle k d dest tmp) = k"
| "ring_key (RPutWrite k d dest tmp f) = k"
| "ring_key (RPutSync k d dest tmp f) = k"
| "ring_key (RPutPersist k d dest tmp) = k"
| "ring_key (RPutDrop k d tmp err) = k"
| "ring_key (RPutDone k d r) = k"
| "ring_key (RGetStart k) = k"
| "ring_key (RGetFile k p f) = k"
| "ring_key (RGetDone k r) = k"
| "ring_key (RDeleteStart k) = k"
| "ring_key (RDeleteDone k r) = k"
| "ring_key (RExistsStart k) = k"
| "ring_key (RExistsDone k r) = k"

text \<open>The destination is the key's path, handles are as \<open>from_file\<close> made them, and lengths fit \<open>u64\<close>.\<close>

definition fresh_handle :: "'f \<Rightarrow> 'f io_uring_file" where
  "fresh_handle f = \<lparr>uring_file = f, ring_size = DEFAULT_RING_SIZE, chunk_size = DEFAULT_CHUNK_SIZE\<rparr>"

lemma fresh_handle_simps [simp]:
  "uring_file (fresh_handle x) = x" "uring_write_all_at K (fresh_handle x) off d f = write_all_at K off d f"
  "uring_read_all_at K (fresh_handle x) off d f = read_all_at K off d f"
  by (simp_all add: fresh_handle_def)

fun ring_sound :: "local_store \<Rightarrow> ring_task \<Rightarrow> bool" where
  "ring_sound L (RPutStart k d) \<longleftrightarrow> length d < 2 ^ 64"
| "ring_sound L (RPutDirs k d dest m) \<longleftrightarrow> length d < 2 ^ 64 \<and> dest = FsPath (key_path L k) Plain"
| "ring_sound L (RPutTemp k d dest) \<longleftrightarrow> length d < 2 ^ 64 \<and> dest = FsPath (key_path L k) Plain"
| "ring_sound L (RPutHandle k d dest tmp) \<longleftrightarrow> length d < 2 ^ 64 \<and> dest = FsPath (key_path L k) Plain"
| "ring_sound L (RPutWrite k d dest tmp f) \<longleftrightarrow>
     length d < 2 ^ 64 \<and> dest = FsPath (key_path L k) Plain \<and> f = fresh_handle tmp"
| "ring_sound L (RPutSync k d dest tmp f) \<longleftrightarrow> dest = FsPath (key_path L k) Plain"
| "ring_sound L (RPutPersist k d dest tmp) \<longleftrightarrow> dest = FsPath (key_path L k) Plain"
| "ring_sound L (RGetFile k p f) \<longleftrightarrow>
     f = fresh_handle (uring_file f) \<and> (case uring_file f of File d \<Rightarrow> length d < 2 ^ 64 | Dir es \<Rightarrow> True)"
| "ring_sound L t \<longleftrightarrow> True"

fun ring_temp :: "ring_task \<Rightarrow> path option" where
  "ring_temp (RPutHandle k d dest tmp) = Some tmp"
| "ring_temp (RPutWrite k d dest tmp f) = Some tmp"
| "ring_temp (RPutSync k d dest tmp f) = Some tmp"
| "ring_temp (RPutPersist k d dest tmp) = Some tmp"
| "ring_temp (RPutDrop k d tmp err) = Some tmp"
| "ring_temp t = None"

fun ring_filled :: "ring_task \<Rightarrow> bytes option" where
  "ring_filled (RPutSync k d dest tmp f) = Some d"
| "ring_filled (RPutPersist k d dest tmp) = Some d"
| "ring_filled t = None"

fun ring_stored :: "ring_task \<Rightarrow> bytes option" where
  "ring_stored (RPutPersist k d dest tmp) = Some d"
| "ring_stored t = None"

fun ring_outcome :: "ring_task \<Rightarrow> (object_key \<times> bytes option) option" where
  "ring_outcome (RPutDone k d (Inr i)) = Some (k, Some d)"
| "ring_outcome (RDeleteDone k (Inr u)) = Some (k, None)"
| "ring_outcome t = None"

text \<open>An opened file is an answer already: what the key held when it was opened.\<close>

fun ring_answers :: "ring_task \<Rightarrow> (object_key \<Rightarrow> bytes option) \<Rightarrow> bool" where
  "ring_answers (RGetFile k p f) v \<longleftrightarrow> (case uring_file f of File d \<Rightarrow> v k = Some d | Dir es \<Rightarrow> True)"
| "ring_answers (RGetDone k (Inr d)) v \<longleftrightarrow> v k = Some d"
| "ring_answers (RGetDone k (Inl (NotFound m))) v \<longleftrightarrow> v k = None"
| "ring_answers (RExistsDone k (Inr False)) v \<longleftrightarrow> v k = None"
| "ring_answers t v \<longleftrightarrow> True"

fun ring_looked :: "ring_task \<Rightarrow> bool" where
  "ring_looked (RGetFile k p f) = True"
| "ring_looked t = ring_finished t"

fun ring_paths :: "ring_task \<Rightarrow> path set" where
  "ring_paths (RPutDirs k d dest m) = insert (comps dest) (mk_paths m)"
| "ring_paths (RPutTemp k d dest) = {comps dest}"
| "ring_paths (RPutHandle k d dest tmp) = {comps dest, tmp}"
| "ring_paths (RPutWrite k d dest tmp f) = {comps dest, tmp}"
| "ring_paths (RPutSync k d dest tmp f) = {comps dest, tmp}"
| "ring_paths (RPutPersist k d dest tmp) = {comps dest, tmp}"
| "ring_paths (RPutDrop k d tmp err) = {tmp}"
| "ring_paths t = {}"

definition ring_protocol :: "ring_task protocol" where
  "ring_protocol =
     \<lparr>t_starting = ring_starting, t_ended = ring_finished, t_key = ring_key, t_sound = ring_sound,
      t_temp = ring_temp, t_filled = ring_filled, t_stored = ring_stored, t_outcome = ring_outcome,
      t_answers = ring_answers, t_looked = ring_looked, t_left = ring_steps_left, t_paths = ring_paths\<rparr>"

lemma ring_protocol_simps [simp]:
  "t_starting ring_protocol = ring_starting" "t_ended ring_protocol = ring_finished" "t_key ring_protocol = ring_key"
  "t_sound ring_protocol = ring_sound" "t_temp ring_protocol = ring_temp" "t_filled ring_protocol = ring_filled"
  "t_stored ring_protocol = ring_stored" "t_outcome ring_protocol = ring_outcome"
  "t_answers ring_protocol = ring_answers" "t_looked ring_protocol = ring_looked"
  "t_left ring_protocol = ring_steps_left" "t_paths ring_protocol = ring_paths"
  by (simp_all add: ring_protocol_def)

text \<open>A step in some environment whose calls, and whose ring, keep their promises.\<close>

definition ring_env_ok :: "ring_task \<Rightarrow> ring_env \<Rightarrow> bool" where
  "ring_env_ok t e \<longleftrightarrow> local_env_ok (base e) \<and> (case t of
      RPutWrite k d dest tmp f \<Rightarrow> lawful_kernel (kernel_of e) True
    | RGetFile k p f \<Rightarrow> lawful_kernel (kernel_of e) False \<and> never_missing (kernel_of e) \<and> dir_len e \<noteq> 0
    | _ \<Rightarrow> True)"

text \<open>The file a get is about to open has a length that fits \<open>u64\<close>.\<close>

definition opened_fits :: "ring_store \<Rightarrow> ring_task \<Rightarrow> node \<Rightarrow> bool" where
  "opened_fits R t fs = (case t of
      RGetStart k \<Rightarrow> (case file_at fs (ring_root R @ key_components k) of Some d \<Rightarrow> length d < 2 ^ 64 | None \<Rightarrow> True)
    | _ \<Rightarrow> True)"

definition ring_move :: "ring_store \<Rightarrow> ring_task \<Rightarrow> node \<Rightarrow> ring_task \<Rightarrow> node \<Rightarrow> effect \<Rightarrow> bool" where
  "ring_move R t fs t' fs' ef \<longleftrightarrow>
     \<not> ring_finished t \<and> opened_fits R t fs
     \<and> (\<exists>e. ring_env_ok t e \<and> ring_task_step R e t fs = Some (t', fs', ef))"

section \<open>The laws\<close>

abbreviation "task_okR \<equiv> task_ok ring_protocol"

abbreviation "step_okR \<equiv> step_ok ring_protocol"

lemma ring_start_ok:
  assumes "task_okR L fs h t" "ring_starting t" "ring_task_step R e t fs = Some (t', fs', ef)" "root L = ring_root R"
    and "opened_fits R t fs"
  shows "step_okR L t fs h t' fs' (persist ef h)"
proof -
  from assms(1) have res: "ring_resolve R (ring_key t) = Inr (FsPath (key_path L (ring_key t)) Plain)"
    by (simp add: task_ok_def ring_resolve_root [OF assms(4)] ok_key_resolve)
  show ?thesis
  proof (cases t)
    case (RPutStart k d)
    with assms(1,3) res show ?thesis
      by (intro same_files_ok) (auto simp: task_ok_def path_parent_def split: if_splits)
  next
    case (RGetStart k)
    have fit: "length d < 2 ^ 64" if "lookup_path fs (key_path L k) = Inr (File d)" for d
      using that assms(4,5) RGetStart by (auto simp: opened_fits_def key_path_def lookup_at simp flip: file_at_iff)
    from RGetStart assms(1,3) res fit show ?thesis
      by (intro same_files_ok)
        (auto simp: task_ok_def uring_open_def sys_open_def uring_from_file_def fresh_handle_def
          split: option.splits sum.splits node.splits)
  next
    case (RExistsStart k)
    with assms show ?thesis by (intro same_files_ok) auto
  next
    case (RDeleteStart k)
    obtain r fs1 where u: "sys_unlink (faults_of (base e)) (FsPath (key_path L k) Plain) fs = (r, fs1)"
      by (cases "sys_unlink (faults_of (base e)) (FsPath (key_path L k) Plain) fs")
    show ?thesis
    proof (cases r)
      case (Inl er)
      with RDeleteStart assms(1,3) res u sys_unlink_effect(1) [OF u] show ?thesis
        by (intro same_files_ok) (auto split: if_splits)
    next
      case (Inr v)
      with RDeleteStart assms(3) res u delete_key_ok [OF assms(1), of "faults_of (base e)" v fs1 t'] show ?thesis
        by auto
    qed
  qed (use assms(2) in auto)
qed

lemma ring_temp_made_ok:
  assumes "task_okR L fs h (RPutTemp k d dest)" "ring_task_step R e (RPutTemp k d dest) fs = Some (t', fs', ef)"
  shows "step_okR L (RPutTemp k d dest) fs h t' fs' (persist ef h)"
proof -
  let ?tmp = "ring_temp_of R e dest"
  from assms(1) have dest: "dest = FsPath (key_path L k) Plain" and len: "length d < 2 ^ 64"
    by (auto simp: task_ok_def)
  then have name: "temp_name ?tmp"
    by (simp add: temp_name_def ring_temp_of_def path_parent_def starts_with_iff)
  obtain r fs1 where mk: "sys_create_new (faults_of (base e)) ?tmp fs = (r, fs1)"
    by (cases "sys_create_new (faults_of (base e)) ?tmp fs")
  show ?thesis
  proof (cases r)
    case (Inl er)
    with assms mk sys_create_new_fail [of "faults_of (base e)" ?tmp fs er] show ?thesis
      by (intro same_files_ok) auto
  next
    case (Inr u)
    with assms(2) mk have t': "t' = RPutHandle k d dest ?tmp" "fs' = fs1" "ef = Created ?tmp"
      by (auto simp: Let_def)
    with dest len name show ?thesis
      unfolding t' by (intro create_temp_ok [OF assms(1) mk [unfolded Inr]]) auto
  qed
qed

lemma ring_write_step_ok:
  assumes ok: "task_okR L fs h t" and t: "t = RPutWrite k d dest tmp f" and e: "ring_env_ok t e"
    and step: "ring_task_step R e t fs = Some (t', fs', ef)"
  shows "step_okR L t fs h t' fs' (persist ef h)"
proof -
  from ok t obtain x where tmp: "tmp \<noteq> []" "file_at fs tmp = Some x" and sound: "ring_sound L t"
    by (auto simp: task_ok_def temp_name_def)
  have owns: "t_temp ring_protocol t = Some tmp" by (simp add: t)
  from sound t have f: "f = fresh_handle tmp" and len: "length d < 2 ^ 64" and dest: "dest = FsPath (key_path L k) Plain" by auto
  from t step obtain q st where wr: "write_all_at (kernel_of e) 0 d (image_of []) = Some (q, st)"
    and t': "t' = (case q of Inl er \<Rightarrow> RPutDrop k d tmp (ring_write_error e er) | Inr u \<Rightarrow> RPutSync k d dest tmp (fresh_handle tmp))"
    and fs': "fs' = set_path tmp (File (image_bytes (disk st))) fs" "ef = Written tmp"
    by (auto simp: f split: option.splits)
  have full: "image_bytes (disk st) = d" if "q = Inr u" for u
    using write_all_at_result [of "kernel_of e" 0 d "image_of []" st] wr that e len t
    by (simp add: image_write_new ring_env_ok_def)
  have "file_at fs' = (file_at fs)(tmp \<mapsto> image_bytes (disk st))"
    using set_file [OF tmp(1) file_parent_dir [OF tmp(2,1)] file_not_dir [OF tmp(2)]] by (simp add: fs')
  from fill_temp_ok [OF ok owns this, of t'] full show ?thesis
    by (cases q) (auto simp: t' fs'(2) t dest)
qed

lemma ring_put_step_ok:
  assumes "task_okR L fs h t" "ring_temp t = Some tmp" "ring_task_step R e t fs = Some (t', fs', ef)"
    and "ring_env_ok t e"
  shows "step_okR L t fs h t' fs' (persist ef h)"
proof -
  from assms(1,2) obtain x where tmp: "tmp \<noteq> []" "file_at fs tmp = Some x" and sound: "ring_sound L t"
    by (auto simp: task_ok_def temp_name_def)
  note ok = assms(1) and owns = assms(2) [folded ring_protocol_simps(5)]
  show ?thesis
  proof (cases t)
    case (RPutHandle k d dest tmp')
    with assms(2,3) sound show ?thesis
      by (intro keep_temp_ok [OF ok owns])
        (auto simp: uring_from_file_def fresh_handle_def split: sum.splits option.splits)
  next
    case (RPutWrite k d dest tmp' f)
    from ring_write_step_ok [OF assms(1) this assms(4,3)] show ?thesis .
  next
    case (RPutSync k d dest tmp' f)
    with assms(2,3) sound keep_temp_ok [OF ok owns, of fs h t'] sync_temp_ok [OF ok owns, of d t'] show ?thesis
      by (auto split: sum.splits)
  next
    case (RPutPersist k d dest tmp')
    with assms(2) sound have [simp]: "tmp' = tmp" "dest = FsPath (key_path L k) Plain" by simp_all
    obtain r fs1 where rn: "sys_rename (faults_of (base e)) tmp dest fs = (r, fs1)"
      by (cases "sys_rename (faults_of (base e)) tmp dest fs")
    show ?thesis
    proof (cases r)
      case (Inl er)
      with RPutPersist assms(3) rn sys_rename_fail [of "faults_of (base e)" tmp dest fs er fs1] show ?thesis
        by (intro keep_temp_ok [OF ok owns]) auto
    next
      case (Inr u)
      with RPutPersist assms(3) rn rename_temp_ok [OF ok owns, of d "faults_of (base e)" u fs1 t'] show ?thesis by auto
    qed
  next
    case (RPutDrop k d tmp' err)
    with assms(2) have [simp]: "tmp' = tmp" by simp
    obtain r fs1 where u: "sys_unlink (faults_of (base e)) (FsPath tmp Plain) fs = (r, fs1)"
      by (cases "sys_unlink (faults_of (base e)) (FsPath tmp Plain) fs")
    from assms(3) RPutDrop u sys_unlink_effect(3) [OF u] keep_temp_ok [OF ok owns, of fs h t']
      remove_temp_ok [OF ok owns, of "faults_of (base e)" _ fs1 t'] show ?thesis
      by (cases r) auto
  qed (use assms(2) in auto)
qed

lemma ring_step_ok:
  assumes "task_okR L fs h t" "\<not> ring_finished t" "ring_task_step R e t fs = Some (t', fs', ef)"
    and "root L = ring_root R" "opened_fits R t fs" "ring_env_ok t e"
  shows "step_okR L t fs h t' fs' (persist ef h)"
proof (cases "ring_temp t")
  case (Some tmp)
  then show ?thesis using ring_put_step_ok [OF assms(1) _ assms(3,6)] by simp
next
  case None
  show ?thesis
  proof (cases t)
    case (RPutDirs k d dest m)
    show ?thesis
    proof (cases "mk_result m")
      case None
      obtain m' fs1 where "mk_step (faults_of (base e)) m fs = (m', fs1)" by (cases "mk_step (faults_of (base e)) m fs")
      with None RPutDirs assms(1,3) mk_step_effect [of "faults_of (base e)" m fs m' fs1] show ?thesis
        by (intro same_files_ok) (auto simp: task_ok_def)
    next
      case (Some r)
      with RPutDirs assms(1,3) show ?thesis by (cases r; intro same_files_ok) (auto simp: task_ok_def)
    qed
  next
    case (RPutTemp k d dest)
    with assms show ?thesis using ring_temp_made_ok by simp
  next
    case (RGetFile k p f)
    with assms(1,3) show ?thesis
      by (intro same_files_ok) (auto simp: ring_got_def split: option.splits sum.splits node.splits)
  qed (use None assms ring_start_ok [OF assms(1) _ assms(3-5)] in simp_all)
qed

text \<open>What a get and an exists return.\<close>

lemma ring_file_answers:
  assumes "ring_task_step R e (RGetFile k p f) fs = Some (t', fs', ef)" "ring_sound L (RGetFile k p f)"
    and "ring_env_ok (RGetFile k p f) e" "ring_answers (RGetFile k p f) v"
  shows "ring_answers t' v"
proof -
  from assms(3) have env: "local_env_ok (base e)" "dir_len e \<noteq> 0" "lawful_kernel (kernel_of e) False"
      "never_missing (kernel_of e)" by (auto simp: ring_env_ok_def)
  from assms(2) obtain n where f: "f = fresh_handle n" and fit: "case n of File d \<Rightarrow> length d < 2 ^ 64 | Dir es \<Rightarrow> True"
    by auto
  show ?thesis
  proof (cases "faults_of (base e) (SysFstat p)")
    case (Some er)
    then have "io_kind er \<noteq> KNotFound" using env(1) by (auto simp: local_env_ok_def)
    with Some assms(1) show ?thesis by (auto simp: ring_got_def)
  next
    case None
    show ?thesis
    proof (cases n)
      case (Dir es)
      with None assms(1) env(2) f show ?thesis
        by (auto simp: ring_got_def decode_errno_def errno_defs)
    next
      case (File d)
      with assms(1) None f obtain q st where rd: "read_all_at (kernel_of e) 0 (replicate (length d) 0) (image_of d) = Some (q, st)"
        and t': "t' = RGetDone k (ring_got k (case q of Inl er \<Rightarrow> Inl er | Inr u \<Rightarrow> Inr (mem st)))"
        by (auto split: option.splits prod.splits sum.splits)
      show ?thesis
      proof (cases q)
        case (Inl er)
        from drive_kind [OF rd [unfolded read_all_at_def Inl] env(4)] Inl t' show ?thesis by (auto simp: ring_got_def)
      next
        case (Inr u)
        have "mem st = d"
          using read_all_at_result [of "kernel_of e" 0 "replicate (length d) 0" "image_of d" st] rd Inr env(3) fit File
          by (simp add: image_read_all)
        with Inr t' assms(4) File f show ?thesis by (auto simp: ring_got_def)
      qed
    qed
  qed
qed

lemma ring_answers_exists: "ring_answers (RExistsDone k (Inr b)) v \<longleftrightarrow> (\<not> b \<longrightarrow> v k = None)"
  by (cases b) auto

lemma ring_step_answers:
  assumes "local_ok_key (ring_key t)" "ring_sound L t" "\<not> ring_finished t"
    and "ring_task_step R e t fs = Some (t', fs', ef)" "root L = ring_root R" "ring_env_ok t e"
  shows "ring_answers t' (local_view L fs)
    \<or> ring_looked t \<and> (\<forall>v. ring_answers t v \<longrightarrow> ring_answers t' v)"
proof -
  have env: "local_env_ok (base e)" using assms(6) by (simp add: ring_env_ok_def)
  have res: "ring_resolve R (ring_key t) = Inr (FsPath (key_path L (ring_key t)) Plain)"
    using assms(1) by (simp add: ring_resolve_root [OF assms(5)] ok_key_resolve)
  show ?thesis
  proof (cases t)
    case (RGetFile k p f)
    with ring_file_answers [of R e k p f fs t' fs' ef L] assms(2,4,6) show ?thesis by auto
  next
    case (RGetStart k)
    let ?o = "uring_open (faults_of (base e)) (FsPath (key_path L k) Plain) fs"
    show ?thesis
    proof (cases ?o)
      case (Inl er)
      have "local_view L fs k = None" if "io_kind er = KNotFound"
        using that Inl env by (cases fs "key_path L k" rule: node_cases_at)
          (auto simp: uring_open_def sys_open_def uring_from_file_def local_view_def local_env_ok_def lookup_at
            split: option.splits sum.splits if_splits)
      with Inl RGetStart assms(4) res show ?thesis by (auto simp: ring_got_def split: option.splits)
    next
      case (Inr f)
      then have "case uring_file f of File d \<Rightarrow> local_view L fs k = Some d | Dir es \<Rightarrow> True"
        by (auto simp: uring_open_def sys_open_def uring_from_file_def local_view_def file_at_iff lookup_at
            split: option.splits sum.splits node.splits if_splits)
      with Inr RGetStart assms(4) res show ?thesis by (auto split: option.splits)
    qed
  next
    case (RExistsStart k)
    have "ring_exists R e k fs = local_exists L (base e) k fs"
      using RExistsStart res assms(1) by (simp add: ring_exists_def local_exists_def ok_key_resolve)
    moreover note local_exists_False [OF _ env, of k L fs]
    ultimately show ?thesis
      using RExistsStart assms(1,4) by (cases "local_exists L (base e) k fs") (auto simp: ring_answers_exists)
  qed (use assms(3,4) in \<open>auto split: sum.splits prod.splits option.splits if_splits simp: Let_def\<close>)
qed

lemma ring_tmp_name_ok: "local_env_ok e \<Longrightarrow> name_ok (''.blobkit-ring-'' @ tmp_suffix e)"
  by (auto simp: name_ok_def local_env_ok_def)

lemma ring_dirs_step_wf:
  assumes "ring_task_step R e (RPutDirs k d dest m) fs = Some (t', fs', ef)" "fs_wf fs" "names_ok (ring_paths (RPutDirs k d dest m))"
  shows "fs_wf fs' \<and> names_ok (ring_paths t')"
proof (cases "mk_result m")
  case None
  obtain m' fs1 where m: "mk_step (faults_of (base e)) m fs = (m', fs1)" by (cases "mk_step (faults_of (base e)) m fs")
  have "names_ok (mk_paths m)" using assms(3) by (auto simp: names_ok_def)
  from mk_step_wf [OF m assms(2) this] None m assms(1,3) show ?thesis by (auto simp: names_ok_def)
next
  case (Some r)
  with assms show ?thesis by (cases r) (auto simp: names_ok_def)
qed

lemma ring_step_wf:
  assumes "ring_task_step R e t fs = Some (t', fs', ef)" "local_invar L fs" "local_env_ok (base e)"
    and "local_ok_key (ring_key t)" "root L = ring_root R" "names_ok (ring_paths t)"
  shows "fs_wf fs' \<and> names_ok (ring_paths t')"
proof -
  have wf: "fs_wf fs" and rt: "list_all name_ok (root L)" using assms(2) by (auto simp: local_invar_def)
  have key: "list_all name_ok (key_path L (ring_key t))" using key_path_names [OF assms(4) rt] .
  have res: "ring_resolve R (ring_key t) = Inr (FsPath (key_path L (ring_key t)) Plain)"
    by (simp add: ring_resolve_root [OF assms(5)] ok_key_resolve assms(4))
  note calls = fs_wf_calls [OF wf, where flt = "faults_of (base e)"]
  show ?thesis
  proof (cases t)
    case (RPutStart k d)
    with assms(1) res key wf show ?thesis
      by (auto simp: names_ok_def path_parent_def list_all_butlast split: if_splits)
  next
    case (RPutDirs k d dest m)
    from ring_dirs_step_wf [OF assms(1) [unfolded this] wf assms(6) [unfolded this]] show ?thesis .
  next
    case (RPutTemp k d dest)
    have "list_all name_ok (ring_temp_of R e dest)"
      using ring_tmp_name_ok [OF assms(3)] rt assms(5,6) RPutTemp
      by (auto simp: ring_temp_of_def path_parent_def names_ok_def list_all_butlast)
    with calls(2) [of "ring_temp_of R e dest"] RPutTemp assms(1,6) show ?thesis
      by (auto simp: Let_def names_ok_def split: prod.splits sum.splits)
  next
    case (RPutWrite k d dest tmp f)
    then have "list_all name_ok tmp" using assms(6) by (simp add: names_ok_def)
    then have "fs_wf (set_path tmp (File x) fs)" for x
      by (intro fs_wf_set_path [OF wf]) auto
    with RPutWrite assms(1,6) show ?thesis
      by (auto simp: names_ok_def split: option.splits sum.splits)
  next
    case (RPutPersist k d dest tmp)
    with calls(5) [of dest tmp] assms(1,6) show ?thesis
      by (auto simp: names_ok_def split: prod.splits sum.splits)
  next
    case (RPutDrop k d tmp err)
    with calls(4) [of "FsPath tmp Plain"] assms(1,6) show ?thesis
      by (auto simp: names_ok_def split: prod.splits sum.splits)
  next
    case (RDeleteStart k)
    with calls(4) assms(1) wf show ?thesis
      by (auto simp: names_ok_def split: prod.splits sum.splits) (metis snd_conv)+
  qed (use assms(1,6) wf in \<open>auto simp: names_ok_def split: sum.splits option.splits node.splits\<close>)
qed

lemma ring_answers_cong: "v (ring_key t) = w (ring_key t) \<Longrightarrow> ring_answers t v \<longleftrightarrow> ring_answers t w"
  by (cases "(t, v)" rule: ring_answers.cases) (auto split: node.splits)

lemma ring_outcome_finished: "ring_outcome t \<noteq> None \<Longrightarrow> ring_finished t"
  by (cases t rule: ring_outcome.cases) auto

lemma ring_unlooked: "\<not> ring_looked t \<Longrightarrow> ring_answers t v"
  by (cases t) auto

text \<open>The \<open>LocalStore\<close> that shares the root, with a limit of its own.\<close>

definition sibling :: "ring_store \<Rightarrow> u64 option \<Rightarrow> local_store" where
  "sibling R m = \<lparr>root = ring_root R, max_bytes = m\<rparr>"

lemma sibling_root [simp]: "root (sibling R m) = ring_root R"
  by (simp add: sibling_def)

interpretation rtasks: tree_tasks "sibling R m" ring_protocol "ring_move R" for R m
proof
  fix t fs t' fs' ef h
  assume "ring_move R t fs t' fs' ef"
  then obtain e where m: "\<not> ring_finished t" "opened_fits R t fs" "ring_env_ok t e"
      "ring_task_step R e t fs = Some (t', fs', ef)"
    by (auto simp: ring_move_def)
  then have env: "local_env_ok (base e)" by (simp add: ring_env_ok_def)
  show "\<not> t_ended ring_protocol t" using m(1) by simp
  show "t_left ring_protocol (sibling R m) t' < t_left ring_protocol (sibling R m) t"
    using ring_task_step_left [OF m(1,4), of "sibling R m"] by simp
  show "step_okR (sibling R m) t fs h t' fs' (persist ef h)" if "task_okR (sibling R m) fs h t"
    by (rule ring_step_ok [OF that m(1,4) _ m(2,3)]) simp
  show "t_answers ring_protocol t' (local_view (sibling R m) fs)
      \<or> t_looked ring_protocol t \<and> (\<forall>v. t_answers ring_protocol t v \<longrightarrow> t_answers ring_protocol t' v)"
    if "local_ok_key (t_key ring_protocol t)" "t_sound ring_protocol (sibling R m) t"
    using ring_step_answers [OF _ _ m(1,4) _ m(3), of "sibling R m"] that by simp
  show "fs_wf fs' \<and> names_ok (t_paths ring_protocol t')"
    if "local_invar (sibling R m) fs" "local_ok_key (t_key ring_protocol t)" "names_ok (t_paths ring_protocol t)"
    using ring_step_wf [OF m(4) that(1) env] that by simp
next
  fix t
  show "t_answers ring_protocol t v" if "\<not> t_looked ring_protocol t" for v
    using that by (simp add: ring_unlooked)
  show "t_ended ring_protocol t" if "t_outcome ring_protocol t \<noteq> None"
    using that by (simp add: ring_outcome_finished)
  show "t_answers ring_protocol t v = t_answers ring_protocol t w"
    if "v (t_key ring_protocol t) = w (t_key ring_protocol t)" for v w
    using that ring_answers_cong [of v t w] by simp
  show "t_temp ring_protocol t = None \<and> \<not> t_ended ring_protocol t \<and> t_paths ring_protocol t = {}"
    if "t_starting ring_protocol t"
    using that by (cases t) auto
qed

end
