(* ===== verification/Shared_Tree.thy ===== *)
theory Shared_Tree
  imports Local_Listing Ring_Concurrent
begin

text \<open>
  A \<open>LocalStore\<close> and an \<open>IoUringStore\<close> on one root directory, each with its own size limit and any number of
  operations in progress. Each keeps the protocol of the tree, so both do together.
\<close>

section \<open>The two stores\<close>

abbreviation shared_protocol :: "(task + ring_task) protocol" where
  "shared_protocol \<equiv> beside local_protocol ring_protocol"

abbreviation shared_moves ::
  "ring_store \<Rightarrow> u64 option \<Rightarrow> task + ring_task \<Rightarrow> node \<Rightarrow> task + ring_task \<Rightarrow> node \<Rightarrow> effect \<Rightarrow> bool" where
  "shared_moves R m \<equiv> moves (local_move (sibling R m)) (ring_move R)"

interpretation shared: two_stores "sibling R m" local_protocol "local_move (sibling R m)" ring_protocol "ring_move R" for R m
  by unfold_locales

section \<open>Every task can move\<close>

lemma trickle_never_missing: "never_missing (trickle w n)"
  by (auto simp: never_missing_def trickle_def split: list.splits)

lemma ring_can_move:
  assumes "\<not> ring_finished t" "ring_sound L t" "opened_fits R t fs"
  shows "\<exists>t' fs' ef. ring_move R t fs t' fs' ef"
proof -
  let ?w = "case t of RPutWrite k d dest tmp f \<Rightarrow> True | _ \<Rightarrow> False"
  let ?e = "ring_calm\<lparr>kernel_of := trickle ?w 1\<rparr>"
  have "ring_env_ok t ?e"
    by (cases t) (simp_all add: ring_env_ok_def ring_calm_def trickle_lawful trickle_never_missing)
  moreover have "ring_task_step R ?e t fs \<noteq> None"
  proof (cases t)
    case (RPutWrite k d dest tmp f)
    with assms(2) write_total [OF trickle_lawful, of 0 d 1 "image_of []"] trickle_healthy [of 1 True] show ?thesis by auto
  next
    case (RGetFile k p f)
    with assms(2) obtain n where "f = fresh_handle n" "case n of File d \<Rightarrow> length d < 2 ^ 64 | Dir es \<Rightarrow> True" by auto
    moreover have "\<exists>st. read_all_at (trickle False 1) 0 (replicate (length d) 0) (image_of d) = Some (Inr (), st)"
      if "length d < 2 ^ 64" for d
      using read_total [OF trickle_lawful, of 0 "replicate (length d) 0" 1 "image_of d"] that trickle_healthy [of 1 False]
      by (auto simp: image_of_def)
    ultimately show ?thesis using RGetFile by (cases n) (fastforce split: option.splits)+
  qed (auto split: prod.splits sum.splits option.splits simp: Let_def)
  ultimately show ?thesis using assms(1,3) unfolding ring_move_def by fast
qed

lemma listing_run:
  assumes "listing P M L pre ts c w" "trun M c c'"
  shows "\<exists>us. listing P M L pre us c' w"
  using assms(2) by (induction rule: rtranclp_induct) (use assms(1) in \<open>blast intro: listing.others\<close>)+

section \<open>A run, for the examples\<close>

definition shared_exec ::
  "ring_store \<Rightarrow> u64 option \<Rightarrow> local_env + ring_env \<Rightarrow> task + ring_task \<Rightarrow> node
     \<Rightarrow> ((task + ring_task) \<times> node \<times> effect) option" where
  "shared_exec R m e t fs = (case (e, t) of
      (Inl le, Inl lt) \<Rightarrow> map_option (\<lambda>(t', fs', ef). (Inl t', fs', ef)) (local_exec (sibling R m) le lt fs)
    | (Inr re, Inr rt) \<Rightarrow>
        if ring_finished rt then None
        else map_option (\<lambda>(t', fs', ef). (Inr t', fs', ef)) (ring_task_step R re rt fs)
    | _ \<Rightarrow> None)"

text \<open>A schedule whose every step is one the stores can make.\<close>

fun checked ::
  "(local_env + ring_env \<Rightarrow> task + ring_task \<Rightarrow> node \<Rightarrow> bool) \<Rightarrow> ring_store \<Rightarrow> u64 option \<Rightarrow> (nat \<times> (local_env + ring_env)) list
     \<Rightarrow> (task + ring_task) config \<Rightarrow> bool" where
  "checked G R m [] c \<longleftrightarrow> True"
| "checked G R m ((i, e) # s) c \<longleftrightarrow>
     i < length (tasks c) \<and> G e (tasks c ! i) (tree c) \<and> checked G R m s (exec_step (shared_exec R m) i e c)"

definition sound_step :: "ring_store \<Rightarrow> local_env + ring_env \<Rightarrow> task + ring_task \<Rightarrow> node \<Rightarrow> bool" where
  "sound_step R e t fs \<longleftrightarrow> (case (e, t) of
      (Inl le, Inl lt) \<Rightarrow> local_env_ok le
    | (Inr re, Inr rt) \<Rightarrow> ring_env_ok rt re \<and> opened_fits R rt fs
    | _ \<Rightarrow> True)"

lemma checked_mono:
  "checked G R m s c \<Longrightarrow> (\<And>i e t fs. (i, e) \<in> set s \<Longrightarrow> G e t fs \<Longrightarrow> H e t fs) \<Longrightarrow> checked H R m s c"
  by (induction G R m s c rule: checked.induct) auto

lemma checked_run: "checked (sound_step R) R m s c \<Longrightarrow> trun (shared_moves R m) c (exec_run (shared_exec R m) s c)"
proof (induction "sound_step R" R m s c rule: checked.induct)
  case (2 R m i e s c)
  have "trun (shared_moves R m) c (exec_step (shared_exec R m) i e c)"
  proof (cases "shared_exec R m e (tasks c ! i) (tree c)")
    case None
    then show ?thesis by (simp add: exec_step_def)
  next
    case (Some q)
    obtain t fs ef where q: "q = (t, fs, ef)" by (cases q)
    have "shared_moves R m (tasks c ! i) (tree c) t fs ef"
      using Some 2(2) unfolding q
      by (cases e; cases "tasks c ! i")
        (auto simp: sound_step_def shared_exec_def local_exec_def local_move_def ring_move_def split: if_splits)
    with exec_tstep [of "shared_exec R m" e c i t fs ef "shared_moves R m"] Some q 2(2) show ?thesis by auto
  qed
  with 2 show ?case by (auto intro: rtranclp_trans)
qed simp

text \<open>A put through each store to one key, and a get through the ring that opens the file between the two.\<close>

definition pair :: "(task + ring_task) config" where
  "pair = \<lparr>tasks = [Inl (PutStart (ObjectKey ''d/g'') [7]), Inr (RPutStart (ObjectKey ''d/g'') [8, 9]),
       Inr (RGetStart (ObjectKey ''d/g''))],
     tree = tree_r, history = (\<lambda>p. [settled (file_at tree_r p)])\<rparr>"

definition ring_reads :: ring_env where
  "ring_reads = ring_calm\<lparr>kernel_of := trickle False 1\<rparr>"

lemma ring_calm_simps [simp]:
  "base ring_calm = calm" "join_error ring_calm = None" "base ring_reads = calm" "join_error ring_reads = None"
  by (simp_all add: ring_calm_def ring_reads_def)

lemma ring_examples_ok [simp]:
  "ring_env_ok t ring_calm \<longleftrightarrow> (case t of RGetFile k p f \<Rightarrow> lawful_kernel (kernel_of ring_calm) False | _ \<Rightarrow> True)"
  "ring_env_ok (RGetStart k) ring_reads" "ring_env_ok (RGetFile k p f) ring_reads"
  by (auto simp: ring_env_ok_def ring_calm_def ring_reads_def trickle_lawful trickle_never_missing split: ring_task.splits)

text \<open>After the local put, when the ring store has made its temporary file.\<close>

definition pair_a :: "(task + ring_task) config" where
  "pair_a = exec_run (shared_exec ring_r (Some 4)) (replicate 9 (0, Inl calm) @ replicate 5 (1, Inr ring_calm)) pair"

lemma pair_a_facts:
  "tasks pair_a = [Inl (PutDone (ObjectKey ''d/g'') [7] (Inr (blob_id_new 1))),
     Inr (RPutHandle (ObjectKey ''d/g'') [8, 9] (FsPath [''r'', ''d'', ''g''] Plain) [''r'', ''d'', ''.blobkit-ring-x1'']),
     Inr (RGetStart (ObjectKey ''d/g''))]"
  "tree pair_a = Dir [(''r'', Dir [(''d'', Dir [(''f'', File [1]), (''g'', File [7]), (''.blobkit-ring-x1'', File [])]),
     (''a..b'', File [2]), (''f'', File [3])])]"
  "history pair_a [''r'', ''d'', ''g''] = [Whole [7], Absent]"
  by code_simp+

lemma ring_calm_write:
  assumes "length d < 2 ^ 64"
  shows "ring_task_step R ring_calm (RPutWrite k d dest tmp (fresh_handle tmp)) fs =
    Some (RPutSync k d dest tmp (fresh_handle tmp), set_path tmp (File d) fs, Written tmp)"
proof -
  obtain st where st: "write_all_at (trickle True 1) 0 d (image_of []) = Some (Inr (), st)"
    using write_total [OF trickle_lawful, of 0 d 1 "image_of []"] trickle_healthy [of 1 True] assms by auto
  then have "image_bytes (disk st) = d"
    using write_all_at_result [OF st trickle_lawful] assms by (simp add: image_write_new)
  with st show ?thesis by (simp add: ring_calm_def)
qed

lemma ring_reads_file:
  assumes "length d < 2 ^ 64"
  shows "ring_task_step R ring_reads (RGetFile k p (fresh_handle (File d))) fs = Some (RGetDone k (Inr d), fs, NoEffect)"
proof -
  obtain st where st: "read_all_at (trickle False 1) 0 (replicate (length d) 0) (image_of d) = Some (Inr (), st)"
    using read_total [OF trickle_lawful, of 0 "replicate (length d) 0" 1 "image_of d"] trickle_healthy [of 1 False] assms
    by (auto simp: image_of_def)
  then have "mem st = d"
    using read_all_at_result [OF st trickle_lawful] assms by (simp add: image_read_all)
  with st show ?thesis by (simp add: ring_reads_def ring_calm_def no_faults_def ring_got_def)
qed

lemma uring_from_file_calm [simp]: "uring_from_file no_faults f = Inr (fresh_handle f)"
  by (simp add: uring_from_file_def no_faults_def fresh_handle_def)

text \<open>The get opens its file, then the ring store puts, then the get reads.\<close>

definition pair_schedule :: "(nat \<times> (local_env + ring_env)) list" where
  "pair_schedule =
     [(2, Inr ring_reads), (1, Inr ring_calm), (1, Inr ring_calm), (1, Inr ring_calm), (1, Inr ring_calm), (2, Inr ring_reads)]"

definition pair_end :: "(task + ring_task) config" where
  "pair_end = exec_run (shared_exec ring_r (Some 4)) pair_schedule pair_a"

lemmas run_simps = exec_step_def shared_exec_def pair_a_facts ring_resolve_local ok_key_resolve key_g key_path_def
  key_components_def uring_open_def sys_open_def no_faults_def ring_calm_write ring_reads_file sys_sync_all_def
  sys_rename_def

lemma pair_end_facts:
  "tasks pair_end = [Inl (PutDone (ObjectKey ''d/g'') [7] (Inr (blob_id_new 1))),
     Inr (RPutDone (ObjectKey ''d/g'') [8, 9] (Inr (blob_id_new 1))), Inr (RGetDone (ObjectKey ''d/g'') (Inr [7]))]"
  "tree pair_end = Dir [(''r'', Dir [(''d'', Dir [(''f'', File [1]), (''g'', File [8, 9])]), (''a..b'', File [2]), (''f'', File [3])])]"
  "history pair_end [''r'', ''d'', ''g''] = [Whole [8, 9], Whole [7], Absent]"
  by (simp_all add: pair_end_def pair_schedule_def run_simps del: ring_task_step.simps(5) ring_task_step.simps(10))

lemma pair_a_run: "trun (shared_moves ring_r (Some 4)) pair pair_a"
proof -
  let ?G = "\<lambda>(e :: local_env + ring_env) (t :: task + ring_task) (fs :: node).
    case t of Inr (RGetStart k) \<Rightarrow> False | Inr (RGetFile k p f) \<Rightarrow> False | _ \<Rightarrow> True"
  let ?s = "replicate 9 (0, Inl calm) @ replicate 5 (1, Inr ring_calm)"
  have "checked ?G ring_r (Some 4) ?s pair" by code_simp
  then have "checked (sound_step ring_r) ring_r (Some 4) ?s pair"
    by (rule checked_mono)
      (auto simp: sound_step_def opened_fits_def split: sum.splits ring_task.splits)
  from checked_run [OF this] show ?thesis by (simp add: pair_a_def)
qed

lemma pair_rest_run: "trun (shared_moves ring_r (Some 4)) pair_a pair_end"
proof -
  have "checked (sound_step ring_r) ring_r (Some 4) pair_schedule pair_a"
    by (simp add: sound_step_def opened_fits_def pair_schedule_def run_simps
        del: ring_task_step.simps(5) ring_task_step.simps(10))
  from checked_run [OF this, folded pair_end_def] show ?thesis .
qed

lemma pair_run: "trun (shared_moves ring_r (Some 4)) pair pair_end"
  by (rule rtranclp_trans [OF pair_a_run pair_rest_run])

lemma pair_starts: "starts shared_protocol (sibling ring_r (Some 4)) pair"
  by (simp add: starts_def history_ok_def pair_def key_g local_view_def)

section \<open>Properties\<close>

text \<open>C1. Linearisability: however the operations of a \<open>LocalStore\<close> and of an \<open>IoUringStore\<close> on one root are
  interleaved between their system calls, and whatever calls fail, from any moment \<open>c\<close> of a run to any later one \<open>d\<close>
  the objects change as if the puts and deletes that returned \<open>Ok\<close> in between had run one after the other, each at
  once, and those that failed or have not returned had not run; every get and every negative answer of exists
  that had not looked at the tree at \<open>c\<close> is what one of the maps in between holds.\<close>

theorem stores_linearisable:
  assumes "starts shared_protocol (sibling R m) c0" "trun (shared_moves R m) c0 c" "trun (shared_moves R m) c d"
  defines "v \<equiv> local_view (sibling R m)" and "outcome \<equiv> t_outcome shared_protocol"
  shows "\<exists>log. distinct log
     \<and> set log = {i. i < length (tasks d) \<and> outcome (tasks c ! i) = None \<and> outcome (tasks d ! i) \<noteq> None}
     \<and> (\<forall>k. local_ok_key k \<longrightarrow> v (tree d) k = replay shared_protocol (v (tree c)) (tasks d) log k)
     \<and> (\<forall>i. i < length (tasks d) \<and> \<not> t_looked shared_protocol (tasks c ! i) \<longrightarrow>
          (\<exists>n \<le> length log.
             t_answers shared_protocol (tasks d ! i) (replay shared_protocol (v (tree c)) (tasks d) (take n log))))"
  using shared.both.linearisable [OF assms(1-3)] unfolding linearised_def v_def outcome_def .

text \<open>The get that opened its file before the second put returns the payload of the first.\<close>

theorem stores_linearisable_witness:
  "\<exists>log. distinct log \<and> set log = {0, 1}
     \<and> replay shared_protocol (local_view (sibling ring_r (Some 4)) tree_r) (tasks pair_end) log (ObjectKey ''d/g'') = Some [8, 9]
     \<and> (\<exists>n \<le> length log. replay shared_protocol (local_view (sibling ring_r (Some 4)) tree_r) (tasks pair_end) (take n log)
           (ObjectKey ''d/g'') = Some [7])"
proof -
  let ?v = "local_view (sibling ring_r (Some 4))"
  from stores_linearisable [OF pair_starts rtranclp.rtrancl_refl pair_run] obtain log where log: "distinct log"
      "set log = {i. i < length (tasks pair_end) \<and> t_outcome shared_protocol (tasks pair ! i) = None
         \<and> t_outcome shared_protocol (tasks pair_end ! i) \<noteq> None}"
      "\<And>k. local_ok_key k \<Longrightarrow> ?v (tree pair_end) k = replay shared_protocol (?v (tree pair)) (tasks pair_end) log k"
      "\<And>i. i < length (tasks pair_end) \<and> \<not> t_looked shared_protocol (tasks pair ! i) \<Longrightarrow> \<exists>n \<le> length log.
         t_answers shared_protocol (tasks pair_end ! i) (replay shared_protocol (?v (tree pair)) (tasks pair_end) (take n log))"
    by blast
  have "i \<in> set log \<longleftrightarrow> i = 0 \<or> i = 1" for i
  proof -
    have "i < 3 \<longleftrightarrow> i = 0 \<or> i = 1 \<or> i = 2" by linarith
    then show ?thesis unfolding log(2) by (auto simp: pair_end_facts pair_def)
  qed
  then have "set log = {0, 1}" by blast
  moreover have "?v (tree pair_end) (ObjectKey ''d/g'') = Some [8, 9]"
    by (simp add: local_view_def key_path_def key_components_def pair_end_facts)
  moreover have "tree pair = tree_r" "\<not> t_looked shared_protocol (tasks pair ! 2)" "2 < length (tasks pair_end)"
      "t_answers shared_protocol (tasks pair_end ! 2) w \<longleftrightarrow> w (ObjectKey ''d/g'') = Some [7]" for w
    by (simp_all add: pair_def pair_end_facts)
  ultimately show ?thesis using log(1) log(3) [OF key_g] log(4) [of 2] by metis
qed

text \<open>C6. Power failure: at every moment of every interleaving of the two stores, what a failure may leave under a storable key is
  exactly what it could have left at the start, or a whole payload that a put of that key returned \<open>Ok\<close> for, or
  nothing if a delete of it returned \<open>Ok\<close>: never part of a payload, since both stores sync the temporary file before
  the rename. The old content is never ruled out: the directory is not synced, so an \<open>Ok\<close> put may be lost.\<close>

theorem stores_power_failure:
  assumes "starts shared_protocol (sibling R m) c0" "trun (shared_moves R m) c0 c" "local_ok_key k"
  shows "set (history c (key_path (sibling R m) k)) = set (history c0 (key_path (sibling R m) k))
     \<union> {settled x | x. \<exists>t \<in> set (tasks c). t_outcome shared_protocol t = Some (k, x)}
    \<and> hd (history c (key_path (sibling R m) k)) = settled (local_view (sibling R m) (tree c) k)"
  by (rule shared.both.power_failure [OF assms])

theorem stores_power_failure_witness:
  "set (history pair_end [''r'', ''d'', ''g'']) = {Whole [7], Whole [8, 9], Absent}
   \<and> hd (history pair_end [''r'', ''d'', ''g'']) = Whole [8, 9]"
  using stores_power_failure [OF pair_starts pair_run key_g] pair_end_facts(2,3)
  by (auto simp: key_path_def key_components_def settled_def local_view_def)

text \<open>C19. Temporary files: at every moment of every interleaving no two running puts, of either store, share a temporary
  file, none is the file of a storable key, each is in the tree, holds the whole payload once written, and is on the
  disk as a whole before it can be renamed.\<close>

theorem stores_temps_private:
  assumes "starts shared_protocol (sibling R m) c0" "trun (shared_moves R m) c0 c" "i < length (tasks c)"
    and "t_temp shared_protocol (tasks c ! i) = Some tmp"
  shows "(\<forall>j < length (tasks c). t_temp shared_protocol (tasks c ! j) = Some tmp \<longrightarrow> j = i)
    \<and> (\<forall>k. local_ok_key k \<longrightarrow> key_path (sibling R m) k \<noteq> tmp)
    \<and> file_at (tree c) tmp \<noteq> None
    \<and> (t_filled shared_protocol (tasks c ! i) = Some d \<longrightarrow> file_at (tree c) tmp = Some d)
    \<and> (t_stored shared_protocol (tasks c ! i) = Some d \<longrightarrow> hd (history c tmp) = Whole d)"
  by (rule shared.both.temps_private [OF assms])

theorem stores_temps_private_witness:
  "key_path (sibling ring_r (Some 4)) (ObjectKey ''d/g'') \<noteq> [''r'', ''d'', ''.blobkit-ring-x1'']
   \<and> file_at (tree pair_a) [''r'', ''d'', ''.blobkit-ring-x1''] \<noteq> None"
  using stores_temps_private [OF pair_starts pair_a_run, of 1 "[''r'', ''d'', ''.blobkit-ring-x1'']"] key_g
  by (simp add: pair_a_facts)

text \<open>C20. Every operation of the two stores ends, whatever runs beside it, if every transfer of the ring returns: a run takes at
  most as many steps as its tasks have left, and it can go on until every task has returned.\<close>

theorem stores_wait_free:
  assumes "starts shared_protocol (sibling R m) c0" "trun (shared_moves R m) c0 c"
    and "\<forall>u. Inr u \<in> set (tasks c) \<longrightarrow> opened_fits R u (tree c)"
  shows "((tstep (shared_moves R m) ^^ n) c d \<longrightarrow> n \<le> sum_list (map (t_left shared_protocol (sibling R m)) (tasks c)))
    \<and> ((\<exists>d. tstep (shared_moves R m) c d) \<longleftrightarrow> (\<exists>t \<in> set (tasks c). \<not> t_ended shared_protocol t))"
proof (intro conjI impI)
  show "n \<le> sum_list (map (t_left shared_protocol (sibling R m)) (tasks c))" if "(tstep (shared_moves R m) ^^ n) c d"
    using shared.both.wait_free [OF that] by simp
  have good: "tgood shared_protocol (sibling R m) c"
    using shared.both.trun_good [OF assms(2) shared.both.initial_good [OF assms(1)]] .
  show "(\<exists>d. tstep (shared_moves R m) c d) \<longleftrightarrow> (\<exists>t \<in> set (tasks c). \<not> t_ended shared_protocol t)"
  proof (rule shared.both.progress)
    fix t
    assume t: "t \<in> set (tasks c)" "\<not> t_ended shared_protocol t"
    then have sound: "t_sound shared_protocol (sibling R m) t" using good by (simp add: tgood_def task_ok_def)
    show "\<exists>t' fs' ef. shared_moves R m t (tree c) t' fs' ef"
    proof (cases t)
      case (Inl u)
      with t(2) local_can_move [of u "sibling R m" "tree c"] obtain t' fs' ef
        where "local_move (sibling R m) u (tree c) t' fs' ef" by auto
      then have "shared_moves R m t (tree c) (Inl t') fs' ef" by (simp add: Inl)
      then show ?thesis by blast
    next
      case (Inr u)
      with t sound assms(3) ring_can_move [of u "sibling R m" R "tree c"] obtain t' fs' ef
        where "ring_move R u (tree c) t' fs' ef" by auto
      then have "shared_moves R m t (tree c) (Inr t') fs' ef" by (simp add: Inr)
      then show ?thesis by blast
    qed
  qed
qed

theorem stores_wait_free_witness:
  "\<not> (\<exists>d. (tstep (shared_moves ring_r (Some 4)) ^^ 41) pair d) \<and> (\<exists>d. tstep (shared_moves ring_r (Some 4)) pair d)"
proof -
  have "sum_list (map (t_left shared_protocol (sibling ring_r (Some 4))) (tasks pair)) = 40"
    by (simp add: pair_def ok_key_resolve key_g key_path_def key_components_def)
  moreover have "\<exists>t \<in> set (tasks pair). \<not> t_ended shared_protocol t" by (simp add: pair_def)
  moreover have "\<forall>u. Inr u \<in> set (tasks pair) \<longrightarrow> opened_fits ring_r u (tree pair)"
    by (simp add: pair_def opened_fits_def key_components_def tree_r_def)
  ultimately show ?thesis
    using stores_wait_free [OF pair_starts rtranclp.rtrancl_refl, of 41] by fastforce
qed

text \<open>Well-formed trees: under every interleaving of the two stores, and whatever calls fail, the tree stays one of
  distinct, legal names in every directory, and every path an operation in progress will write to is made of legal names.\<close>

theorem stores_tree_wf:
  assumes "starts shared_protocol (sibling R m) c0" "local_invar (sibling R m) (tree c0)" "trun (shared_moves R m) c0 c"
  shows "fs_wf (tree c) \<and> list_all (\<lambda>t. names_ok (t_paths shared_protocol t)) (tasks c)"
  using shared.both.trun_tree_good [OF assms] by (auto simp: tree_good_def local_invar_def list_all_iff)

theorem stores_tree_wf_witness: "fs_wf (tree pair_end)"
proof -
  have "local_invar (sibling ring_r (Some 4)) (tree pair)" using store_r_simps(3) by (simp add: local_invar_def pair_def)
  from stores_tree_wf [OF pair_starts this pair_run] show ?thesis by simp
qed

text \<open>C9. Listing while both stores write: a list that returns \<open>Ok\<close>, however puts and deletes of both stores are interleaved
  with its directory reads, is sorted, has no key twice, has only valid keys with the prefix that were stored at some
  moment of it, and has every storable key with the prefix that was stored at all moments of it.\<close>

theorem stores_list_concurrent:
  assumes "listing shared_protocol (shared_moves R m) (sibling R m) pre ts c (Returned (Inr ks))"
  shows "sorted ks \<and> distinct ks
    \<and> (k \<in> set ks \<longrightarrow> key_wf k \<and> starts_with (as_str k) pre \<and> (\<exists>fs \<in> set ts. local_view (sibling R m) fs k \<noteq> None))
    \<and> (local_ok_key k \<and> starts_with (as_str k) pre \<and> (\<forall>fs \<in> set ts. local_view (sibling R m) fs k \<noteq> None) \<longrightarrow> k \<in> set ks)"
  by (rule shared.both.list_concurrent [OF assms])

text \<open>A listing of \<open>d/\<close> that begins when the ring store has made its temporary file, and reads the directory after its rename.\<close>

theorem stores_list_concurrent_witness:
  "\<exists>ts. listing shared_protocol (shared_moves ring_r (Some 4)) (sibling ring_r (Some 4)) ''d/'' ts pair_end
       (Returned (Inr [ObjectKey ''d/f'', ObjectKey ''d/g'']))
     \<and> (\<exists>fs \<in> set ts. local_view (sibling ring_r (Some 4)) fs (ObjectKey ''d/g'') \<noteq> None)"
proof -
  let ?P = shared_protocol and ?M = "shared_moves ring_r (Some 4)" and ?L = "sibling ring_r (Some 4)"
  have inv: "local_invar ?L (tree pair)" using store_r_simps(3) by (simp add: local_invar_def pair_def)
  have w1: "walk_step ?L calm ''d/'' (tree pair_a) (Walking [root ?L] []) = Walking [[''r'', ''d'']] []"
    unfolding pair_a_facts by code_simp
  have w2: "walk_step ?L calm ''d/'' (tree pair_end) (Walking [[''r'', ''d'']] [])
      = Walking [] [ObjectKey ''d/f'', ObjectKey ''d/g'']" unfolding pair_end_facts by code_simp
  have w3: "walk_step ?L calm ''d/'' (tree pair_end) (Walking [] [ObjectKey ''d/f'', ObjectKey ''d/g''])
      = Returned (Inr [ObjectKey ''d/f'', ObjectKey ''d/g''])" unfolding pair_end_facts
    by code_simp
  from listing_run [OF listing.scans [OF listing.begins [OF pair_starts inv pair_a_run, of "''d/''"] calm_simps(3), unfolded w1]
      pair_rest_run]
  obtain ts where "listing ?P ?M ?L ''d/'' ts pair_end (Walking [[''r'', ''d'']] [])" by blast
  from listing.scans [OF listing.scans [OF this calm_simps(3), unfolded w2] calm_simps(3), unfolded w3]
  have l: "listing ?P ?M ?L ''d/'' ts pair_end (Returned (Inr [ObjectKey ''d/f'', ObjectKey ''d/g'']))" .
  with stores_list_concurrent [OF l, of "ObjectKey ''d/g''"] show ?thesis by auto
qed

end
