(* ===== verification/S3_Store.thy ===== *)
theory S3_Store
  imports Bucket_Name Blob_Metadata Blob_Store
begin

text \<open>
  \<open>src/src/s3.rs\<close>: the configuration with its redacting \<open>Debug\<close>, the mapping of service errors, the
  settings \<open>S3Store::new\<close> hands to the SDK, and the operations over an SDK client. The client
  (\<open>aws-sdk-s3\<close>) is a parameter: a record of requests over the state of the service. What S3 documents
  of them is the predicate \<open>s3_lawful\<close>: a request that succeeds takes effect, one that fails may or may
  not have.
\<close>

section \<open>Configuration\<close>

datatype credentials_mode = FromEnv | FromProfile | Static (access_key: string) (secret_key: string)

record s3_config =
  s3_bucket :: bucket_name
  region :: string
  endpoint :: "string option"
  path_style :: bool
  credentials_mode :: credentials_mode
  timeout :: "nat option"

text \<open>Durations are nanoseconds.\<close>

definition s3_config_new :: "bucket_name \<Rightarrow> string \<Rightarrow> s3_config" where
  "s3_config_new bucket r = \<lparr>s3_bucket = bucket, region = r, endpoint = None, path_style = False,
     credentials_mode = FromEnv, timeout = Some (30 * 1000000000)\<rparr>"

definition with_endpoint :: "string \<Rightarrow> s3_config \<Rightarrow> s3_config" where
  "with_endpoint u c = c\<lparr>endpoint := Some u\<rparr>"

definition with_path_style :: "bool \<Rightarrow> s3_config \<Rightarrow> s3_config" where
  "with_path_style b c = c\<lparr>path_style := b\<rparr>"

definition with_credentials :: "credentials_mode \<Rightarrow> s3_config \<Rightarrow> s3_config" where
  "with_credentials m c = c\<lparr>credentials_mode := m\<rparr>"

definition with_timeout :: "nat option \<Rightarrow> s3_config \<Rightarrow> s3_config" where
  "with_timeout t c = c\<lparr>timeout := t\<rparr>"

section \<open>Debug\<close>

text \<open>
  \<open>core::fmt\<close>'s \<open>debug_struct\<close> in its one-line form. How a string, a URL or a duration debugs is a
  parameter.
\<close>

record formatter =
  debug_str :: "string \<Rightarrow> string"
  debug_url :: "string \<Rightarrow> string"
  debug_duration :: "nat \<Rightarrow> string"

fun debug_fields :: "(string \<times> string) list \<Rightarrow> string" where
  "debug_fields [] = []"
| "debug_fields [(n, v)] = n @ '': '' @ v"
| "debug_fields ((n, v) # f # fs) = n @ '': '' @ v @ '', '' @ debug_fields (f # fs)"

definition debug_struct :: "string \<Rightarrow> (string \<times> string) list \<Rightarrow> string" where
  "debug_struct name fs = (if fs = [] then name else name @ '' { '' @ debug_fields fs @ '' }'')"

fun debug_option :: "('a \<Rightarrow> string) \<Rightarrow> 'a option \<Rightarrow> string" where
  "debug_option f None = ''None''"
| "debug_option f (Some x) = ''Some('' @ f x @ '')''"

definition debug_bool :: "bool \<Rightarrow> string" where
  "debug_bool b = (if b then ''true'' else ''false'')"

fun debug_credentials :: "formatter \<Rightarrow> credentials_mode \<Rightarrow> string" where
  "debug_credentials F FromEnv = debug_struct ''CredentialsMode::FromEnv'' []"
| "debug_credentials F FromProfile = debug_struct ''CredentialsMode::FromProfile'' []"
| "debug_credentials F (Static ak sk) = debug_struct ''CredentialsMode::Static''
     [(''access_key'', debug_str F ak), (''secret_key'', debug_str F ''[redacted]'')]"

definition debug_s3_config :: "formatter \<Rightarrow> s3_config \<Rightarrow> string" where
  "debug_s3_config F c = debug_struct ''S3Config''
     [(''bucket'', ''BucketName('' @ debug_str F (bucket_str (s3_bucket c)) @ '')''),
      (''region'', debug_str F (region c)),
      (''endpoint'', debug_option (debug_url F) (endpoint c)),
      (''path_style'', debug_bool (path_style c)),
      (''credentials_mode'', debug_credentials F (credentials_mode c)),
      (''timeout'', debug_option (debug_duration F) (timeout c))]"

section \<open>Errors\<close>

record sdk_error =
  raw_status :: "nat option"
  service_code :: "string option"
  sdk_display :: string

definition not_found_codes :: "string list" where
  "not_found_codes = [''NoSuchKey'', ''NotFound'', ''NoSuchBucket'']"

definition denied_codes :: "string list" where
  "denied_codes = [''AccessDenied'', ''InvalidAccessKeyId'', ''SignatureDoesNotMatch'']"

definition code_in :: "string option \<Rightarrow> string list \<Rightarrow> bool" where
  "code_in code cs = (case code of Some c \<Rightarrow> List.member cs c | None \<Rightarrow> False)"

definition map_service_error :: "nat option \<Rightarrow> string option \<Rightarrow> string \<Rightarrow> blob_error" where
  "map_service_error status code display =
     (if status = Some 404 \<or> code_in code not_found_codes then not_found display
      else if status = Some 401 \<or> status = Some 403 \<or> code_in code denied_codes
        then permission_denied display
      else Other display)"

definition map_sdk_error :: "sdk_error \<Rightarrow> blob_error" where
  "map_sdk_error err = map_service_error (raw_status err) (service_code err) (sdk_display err)"

section \<open>The client and its settings\<close>

record sdk_settings =
  static_credentials :: "(string \<times> string) option"
  set_region :: "string option"
  force_path_style :: "bool option"
  endpoint_url :: "string option"
  operation_timeout :: "nat option"

text \<open>\<open>load\<close> is \<open>aws_config\<close>'s loader: the ambient settings with the given overrides.\<close>

definition s3_settings ::
  "((string \<times> string) option \<Rightarrow> string \<Rightarrow> sdk_settings) \<Rightarrow> s3_config \<Rightarrow> sdk_settings" where
  "s3_settings load c =
     (let creds = (case credentials_mode c of Static ak sk \<Rightarrow> Some (ak, sk) | FromEnv \<Rightarrow> None | FromProfile \<Rightarrow> None);
          conf = (load creds (region c))\<lparr>force_path_style := Some (path_style c)\<rparr>;
          conf = (case endpoint c of Some u \<Rightarrow> conf\<lparr>endpoint_url := Some u\<rparr> | None \<Rightarrow> conf)
      in case timeout c of Some t \<Rightarrow> conf\<lparr>operation_timeout := Some t\<rparr> | None \<Rightarrow> conf)"

record ('s, 'url) s3_client =
  put_object :: "string \<Rightarrow> string \<Rightarrow> string \<Rightarrow> bytes \<Rightarrow> 's \<Rightarrow> (sdk_error + unit) \<times> 's"
  get_object :: "string \<Rightarrow> string \<Rightarrow> 's \<Rightarrow> sdk_error + (string + bytes)"
  delete_object :: "string \<Rightarrow> string \<Rightarrow> 's \<Rightarrow> (sdk_error + unit) \<times> 's"
  head_object :: "string \<Rightarrow> string \<Rightarrow> 's \<Rightarrow> sdk_error + unit"
  presigning_config :: "nat \<Rightarrow> string + nat"
  presign_get :: "string \<Rightarrow> string \<Rightarrow> nat \<Rightarrow> 's \<Rightarrow> sdk_error + string"
  parse_url :: "string \<Rightarrow> string + 'url"

record ('s, 'url) s3_store =
  s3_cfg :: s3_config
  client :: "('s, 'url) s3_client"

definition s3_new ::
  "((string \<times> string) option \<Rightarrow> string \<Rightarrow> sdk_settings) \<Rightarrow> (sdk_settings \<Rightarrow> ('s, 'url) s3_client)
     \<Rightarrow> s3_config \<Rightarrow> ('s, 'url) s3_store result" where
  "s3_new load from_conf c = Inr \<lparr>s3_cfg = c, client = from_conf (s3_settings load c)\<rparr>"

definition s3_from_bucket_region ::
  "((string \<times> string) option \<Rightarrow> string \<Rightarrow> sdk_settings) \<Rightarrow> (sdk_settings \<Rightarrow> ('s, 'url) s3_client)
     \<Rightarrow> bucket_name \<Rightarrow> string \<Rightarrow> ('s, 'url) s3_store result" where
  "s3_from_bucket_region load from_conf bucket r = s3_new load from_conf (s3_config_new bucket r)"

section \<open>Operations\<close>

definition s3_put ::
  "('s, 'url) s3_store \<Rightarrow> crates \<Rightarrow> u64 \<Rightarrow> object_key \<Rightarrow> bytes \<Rightarrow> 's \<Rightarrow> blob_id result \<times> 's" where
  "s3_put S cr h key data s =
     (let ct = guess_content_type cr key;
          (r, s') = put_object (client S) (bucket_str (s3_bucket (s3_cfg S))) (as_str key) ct data s
      in (and_then (map_err map_sdk_error r) (\<lambda>u. Inr (blob_id_new h)), s'))"

definition s3_get :: "('s, 'url) s3_store \<Rightarrow> object_key \<Rightarrow> 's \<Rightarrow> bytes result" where
  "s3_get S key s =
     and_then (map_err map_sdk_error (get_object (client S) (bucket_str (s3_bucket (s3_cfg S))) (as_str key) s))
       (\<lambda>body. map_err (\<lambda>e. Other (''failed to read object body: '' @ e)) body)"

definition s3_delete :: "('s, 'url) s3_store \<Rightarrow> object_key \<Rightarrow> 's \<Rightarrow> unit result \<times> 's" where
  "s3_delete S key s =
     (let (r, s') = delete_object (client S) (bucket_str (s3_bucket (s3_cfg S))) (as_str key) s
      in (map_err map_sdk_error r, s'))"

definition s3_exists :: "('s, 'url) s3_store \<Rightarrow> object_key \<Rightarrow> 's \<Rightarrow> bool result" where
  "s3_exists S key s =
     (case head_object (client S) (bucket_str (s3_bucket (s3_cfg S))) (as_str key) s of
        Inr u \<Rightarrow> Inr True
      | Inl err \<Rightarrow> if is_not_found (map_sdk_error err) then Inr False else Inl (map_sdk_error err))"

definition s3_presigned_url :: "('s, 'url) s3_store \<Rightarrow> object_key \<Rightarrow> nat \<Rightarrow> 's \<Rightarrow> 'url result" where
  "s3_presigned_url S key expires s =
     and_then (map_err (\<lambda>e. Other (''invalid presigning config: '' @ e)) (presigning_config (client S) expires)) (\<lambda>p.
     and_then (map_err map_sdk_error
       (presign_get (client S) (bucket_str (s3_bucket (s3_cfg S))) (as_str key) p s)) (\<lambda>uri.
     map_err (\<lambda>e. Other (''invalid presigned URL: '' @ e)) (parse_url (client S) uri)))"

text \<open>Without the feature every operation is \<open>Unsupported\<close>; \<open>list\<close> is the trait's default in both builds.\<close>

definition s3_stub_new :: "s3_config \<Rightarrow> s3_config result" where
  "s3_stub_new c = Inr c"

definition s3_stub_from_bucket_region :: "bucket_name \<Rightarrow> string \<Rightarrow> s3_config result" where
  "s3_stub_from_bucket_region bucket r = s3_stub_new (s3_config_new bucket r)"

definition s3_stub_ops :: "('e, s3_config) blob_ops" where
  "s3_stub_ops =
     \<lparr>op_put = (\<lambda>e key data s. (Inl (unsupported ''S3Store requires the `s3` feature''), s)),
      op_get = (\<lambda>e key s. Inl (unsupported ''S3Store requires the `s3` feature'')),
      op_delete = (\<lambda>e key s. (Inl (unsupported ''S3Store requires the `s3` feature''), s)),
      op_exists = (\<lambda>e key s. Inl (unsupported ''S3Store requires the `s3` feature'')),
      op_list = default_list,
      op_presigned_url = (\<lambda>e key x s. Inl (unsupported ''S3Store requires the `s3` feature''))\<rparr>"

section \<open>What S3 documents\<close>

text \<open>
  How S3 reports that there is no such object: with status 404, or, where a body comes with the error,
  with one of its codes for a missing key or bucket. \<open>HeadObject\<close> has no body, and \<open>NotFound\<close> stands for its 404.
\<close>

definition absence_reported :: "sdk_error \<Rightarrow> bool" where
  "absence_reported err \<longleftrightarrow> raw_status err = Some 404
     \<or> service_code err \<in> {Some ''NoSuchKey'', Some ''NoSuchBucket'', Some ''NotFound''}"

definition s3_lawful :: "('s, 'url) s3_client \<Rightarrow> ('s \<Rightarrow> string \<times> string \<Rightarrow> bytes option) \<Rightarrow> bool" where
  "s3_lawful C view \<longleftrightarrow>
     (\<forall>b k ct d s r s'. put_object C b k ct d s = (r, s') \<longrightarrow>
        view s' = (view s)((b, k) \<mapsto> d) \<or> \<not> is_ok r \<and> view s' = view s)
     \<and> (\<forall>b k s r s'. delete_object C b k s = (r, s') \<longrightarrow>
        view s' = (view s)((b, k) := None) \<or> \<not> is_ok r \<and> view s' = view s)
     \<and> (\<forall>b k s d. get_object C b k s = Inr (Inr d) \<longrightarrow> view s (b, k) = Some d)
     \<and> (\<forall>b k s. head_object C b k s = Inr () \<longrightarrow> view s (b, k) \<noteq> None)
     \<and> (\<forall>b k s err. head_object C b k s = Inl err \<and> absence_reported err \<longrightarrow> view s (b, k) = None)
     \<and> (\<forall>b k s err. get_object C b k s = Inl err \<and> absence_reported err \<longrightarrow> view s (b, k) = None)"

definition s3_view ::
  "('s \<Rightarrow> string \<times> string \<Rightarrow> bytes option) \<Rightarrow> ('s, 'url) s3_store \<Rightarrow> 's \<Rightarrow> object_key \<Rightarrow> bytes option" where
  "s3_view view S s k = view s (bucket_str (s3_bucket (s3_cfg S)), as_str k)"

lemma code_in_iff: "code_in code cs \<longleftrightarrow> (\<exists>c \<in> set cs. code = Some c)"
  by (auto simp: code_in_def split: option.splits)

section \<open>The effect of the operations\<close>

text \<open>The code's classification of errors recognises exactly the reports of absence.\<close>

lemma map_sdk_absence:
  "map_sdk_error err = NotFound m \<longleftrightarrow> absence_reported err \<and> m = sdk_display err"
  "is_not_found (map_sdk_error err) \<longleftrightarrow> absence_reported err"
  by (auto simp: map_sdk_error_def map_service_error_def code_in_iff not_found_codes_def absence_reported_def)

lemma s3_lawfulD:
  assumes "s3_lawful C view"
  shows "put_object C b k ct d s = (r, s') \<Longrightarrow> view s' = (view s)((b, k) \<mapsto> d) \<or> \<not> is_ok r \<and> view s' = view s"
    and "delete_object C b k s = (r, s') \<Longrightarrow> view s' = (view s)((b, k) := None) \<or> \<not> is_ok r \<and> view s' = view s"
    and "get_object C b k s = Inr (Inr d) \<Longrightarrow> view s (b, k) = Some d"
    and "head_object C b k s = Inr () \<Longrightarrow> view s (b, k) \<noteq> None"
    and "head_object C b k s = Inl err \<Longrightarrow> absence_reported err \<Longrightarrow> view s (b, k) = None"
    and "get_object C b k s = Inl err \<Longrightarrow> absence_reported err \<Longrightarrow> view s (b, k) = None"
proof -
  note c = assms [unfolded s3_lawful_def]
  show "view s' = (view s)((b, k) \<mapsto> d) \<or> \<not> is_ok r \<and> view s' = view s" if "put_object C b k ct d s = (r, s')"
    by (rule c [THEN conjunct1, rule_format, OF that])
  show "view s' = (view s)((b, k) := None) \<or> \<not> is_ok r \<and> view s' = view s" if "delete_object C b k s = (r, s')"
    by (rule c [THEN conjunct2, THEN conjunct1, rule_format, OF that])
qed (use assms in \<open>auto simp only: s3_lawful_def\<close>)

lemma s3_view_upd: "view s' = (view s)((bucket_str (s3_bucket (s3_cfg S)), as_str k) := v) \<Longrightarrow>
    s3_view view S s' = (s3_view view S s)(k := v)"
  by (auto simp: s3_view_def fun_eq_iff intro: object_key.expand)

lemma s3_put_view:
  assumes "s3_lawful (client S) view" "s3_put S cr h k d s = (r, s')"
  shows "s3_view view S s' = (s3_view view S s)(k \<mapsto> d) \<or> \<not> is_ok r \<and> s3_view view S s' = s3_view view S s"
proof -
  let ?b = "bucket_str (s3_bucket (s3_cfg S))"
  from assms(2) obtain r1 where put: "put_object (client S) ?b (as_str k) (guess_content_type cr k) d s = (r1, s')"
      "is_ok r = is_ok r1"
    by (auto simp: s3_put_def is_ok_iff res_simps split: prod.splits)
  from s3_lawfulD(1) [OF assms(1) put(1)] put(2) show ?thesis by (auto simp: s3_view_upd s3_view_def)
qed

lemma s3_delete_view:
  assumes "s3_lawful (client S) view" "s3_delete S k s = (q, s')"
  shows "s3_view view S s' = (s3_view view S s)(k := None) \<or> \<not> is_ok q \<and> s3_view view S s' = s3_view view S s"
proof -
  let ?b = "bucket_str (s3_bucket (s3_cfg S))"
  from assms(2) obtain r1 where del: "delete_object (client S) ?b (as_str k) s = (r1, s')" "is_ok q = is_ok r1"
    by (auto simp: s3_delete_def is_ok_iff res_simps split: prod.splits)
  from s3_lawfulD(2) [OF assms(1) del(1)] del(2) show ?thesis by (auto simp: s3_view_upd s3_view_def)
qed

lemma s3_get_view:
  assumes "s3_lawful (client S) view"
  shows "s3_get S k s = Inr x \<Longrightarrow> s3_view view S s k = Some x"
    and "s3_get S k s = Inl (NotFound m) \<Longrightarrow> s3_view view S s k = None"
proof -
  show "s3_view view S s k = Some x" if "s3_get S k s = Inr x"
    using that s3_lawfulD(3) [OF assms] by (auto simp: s3_get_def s3_view_def res_simps)
  show "s3_view view S s k = None" if get: "s3_get S k s = Inl (NotFound m)"
  proof -
    from get obtain e where e: "get_object (client S) (bucket_str (s3_bucket (s3_cfg S))) (as_str k) s = Inl e"
        "map_sdk_error e = NotFound m"
      by (auto simp: s3_get_def res_simps)
    from s3_lawfulD(6) [OF assms e(1)] e(2) show ?thesis by (simp add: s3_view_def map_sdk_absence)
  qed
qed

lemma s3_exists_view:
  assumes "s3_lawful (client S) view" "s3_exists S k s = Inr b"
  shows "b \<longleftrightarrow> s3_view view S s k \<noteq> None"
  using assms(2) s3_lawfulD(4,5) [OF assms(1)] by (auto simp: s3_exists_def s3_view_def map_sdk_absence split: sum.splits if_splits)

lemma s3_absence_recognised:
  "get_object (client S) (bucket_str (s3_bucket (s3_cfg S))) (as_str k) s = Inl err \<Longrightarrow>
     (\<exists>m. s3_get S k s = Inl (NotFound m)) \<longleftrightarrow> absence_reported err"
  "head_object (client S) (bucket_str (s3_bucket (s3_cfg S))) (as_str k) s = Inl err \<Longrightarrow>
     s3_exists S k s = Inr False \<longleftrightarrow> absence_reported err"
  by (simp_all add: s3_get_def s3_exists_def map_sdk_absence)

section \<open>A bucket in memory, for the examples\<close>

definition missing_error :: sdk_error where
  "missing_error = \<lparr>raw_status = Some 404, service_code = Some ''NoSuchKey'', sdk_display = ''service error''\<rparr>"

definition map_client :: "(string \<times> string \<Rightarrow> bytes option, string) s3_client" where
  "map_client =
     \<lparr>put_object = (\<lambda>b k ct d s. (Inr (), s((b, k) \<mapsto> d))),
      get_object = (\<lambda>b k s. case s (b, k) of Some d \<Rightarrow> Inr (Inr d) | None \<Rightarrow> Inl missing_error),
      delete_object = (\<lambda>b k s. (Inr (), s((b, k) := None))),
      head_object = (\<lambda>b k s. if s (b, k) = None then Inl missing_error else Inr ()),
      presigning_config = Inr,
      presign_get = (\<lambda>b k p s. Inr (''https://'' @ b @ ''/'' @ k)),
      parse_url = Inr\<rparr>"

definition map_s3 :: "(string \<times> string \<Rightarrow> bytes option, string) s3_store" where
  "map_s3 = \<lparr>s3_cfg = s3_config_new (BucketName ''bkt'') ''us-east-1'', client = map_client\<rparr>"

lemma map_client_lawful: "s3_lawful (client map_s3) (\<lambda>s. s)"
  by (simp add: s3_lawful_def map_s3_def map_client_def split: option.splits if_splits)

section \<open>Properties\<close>

text \<open>C35. Error classes: an SDK error is \<open>NotFound\<close> exactly for status 404 or one of three codes, otherwise
  \<open>PermissionDenied\<close> exactly for 401, 403 or one of three codes, otherwise \<open>Other\<close>; absence wins over
  denial, and the SDK's text is kept in every class.\<close>

theorem s3_error_classes:
  "(map_sdk_error e = NotFound m \<longleftrightarrow> m = sdk_display e \<and>
      (raw_status e = Some 404 \<or> service_code e \<in> Some ` {''NoSuchKey'', ''NotFound'', ''NoSuchBucket''}))
   \<and> (map_sdk_error e = PermissionDenied m \<longleftrightarrow> m = sdk_display e \<and>
      \<not> (raw_status e = Some 404 \<or> service_code e \<in> Some ` {''NoSuchKey'', ''NotFound'', ''NoSuchBucket''}) \<and>
      (raw_status e \<in> {Some 401, Some 403}
        \<or> service_code e \<in> Some ` {''AccessDenied'', ''InvalidAccessKeyId'', ''SignatureDoesNotMatch''}))
   \<and> map_sdk_error e \<in> {NotFound (sdk_display e), PermissionDenied (sdk_display e), Other (sdk_display e)}"
  by (auto simp: map_sdk_error_def map_service_error_def code_in_iff not_found_codes_def denied_codes_def)

text \<open>C29. The S3 store against the service's documented behaviour: a put that returned \<open>Ok\<close> stored
  exactly the bytes under the key and changed nothing else, one that failed stored them or nothing; a
  get returns stored bytes only and reports \<open>NotFound\<close> only for an absent key; \<open>exists\<close> answers
  truthfully; a delete that returned \<open>Ok\<close> left the key absent (it need not have existed). The service
  reports absence with status 404 or its codes; get and \<open>exists\<close> recognise that report and no other, so
  that a denied or failed request is never answered as an absent object.\<close>

theorem s3_contract:
  assumes "s3_lawful (client S) view"
  shows "(s3_put S cr h k d s = (r, s') \<longrightarrow>
      s3_view view S s' = (s3_view view S s)(k \<mapsto> d) \<or> \<not> is_ok r \<and> s3_view view S s' = s3_view view S s)
    \<and> (s3_delete S k s = (q, s') \<longrightarrow>
      s3_view view S s' = (s3_view view S s)(k := None) \<or> \<not> is_ok q \<and> s3_view view S s' = s3_view view S s)
    \<and> (s3_get S k s = Inr x \<longrightarrow> s3_view view S s k = Some x)
    \<and> (s3_get S k s = Inl (NotFound m) \<longrightarrow> s3_view view S s k = None)
    \<and> (s3_exists S k s = Inr b \<longrightarrow> (b \<longleftrightarrow> s3_view view S s k \<noteq> None))
    \<and> (get_object (client S) (bucket_str (s3_bucket (s3_cfg S))) (as_str k) s = Inl err \<longrightarrow>
      ((\<exists>m. s3_get S k s = Inl (NotFound m)) \<longleftrightarrow> absence_reported err))
    \<and> (head_object (client S) (bucket_str (s3_bucket (s3_cfg S))) (as_str k) s = Inl err \<longrightarrow>
      (s3_exists S k s = Inr False \<longleftrightarrow> absence_reported err))"
  by (intro conjI impI)
    (erule s3_put_view [OF assms] s3_delete_view [OF assms] s3_get_view [OF assms] s3_exists_view [OF assms]
      s3_absence_recognised)+

theorem s3_contract_witness:
  "s3_view (\<lambda>s. s) map_s3 (snd (s3_put map_s3 \<lparr>mime_guess = None, sha256_digest = None, clock_now = None\<rparr> 1
       (ObjectKey ''k'') [5] Map.empty)) (ObjectKey ''k'') = Some [5]
   \<and> fst (s3_delete map_s3 (ObjectKey ''absent'') Map.empty) = Inr ()
   \<and> (\<exists>m. s3_get map_s3 (ObjectKey ''absent'') Map.empty = Inl (NotFound m))"
proof -
  let ?cr = "\<lparr>mime_guess = None, sha256_digest = None, clock_now = None\<rparr>"
  obtain r s' where put: "s3_put map_s3 ?cr 1 (ObjectKey ''k'') [5] Map.empty = (r, s')"
    by (cases "s3_put map_s3 ?cr 1 (ObjectKey ''k'') [5] Map.empty")
  then have "is_ok r" by (auto simp: s3_put_def map_s3_def map_client_def)
  with put s3_contract [OF map_client_lawful, where cr = ?cr and h = 1 and k = "ObjectKey ''k''" and d = "[5]"
      and s = Map.empty and r = r and s' = s']
    s3_contract [OF map_client_lawful, where k = "ObjectKey ''absent''" and s = Map.empty and err = missing_error]
  show ?thesis by (auto simp: s3_delete_def map_s3_def map_client_def absence_reported_def missing_error_def)
qed

text \<open>Configuration wins over the environment: the client is built with the configured region, path
  style, endpoint and timeout whatever the ambient settings are, with static credentials exactly when
  the mode is \<open>Static\<close>, and leaves the ambient endpoint and timeout when none is configured.\<close>

theorem s3_settings_override:
  "(let st = s3_settings load c;
        amb = load (case credentials_mode c of Static ak sk \<Rightarrow> Some (ak, sk) | _ \<Rightarrow> None) (region c)
    in force_path_style st = Some (path_style c)
      \<and> endpoint_url st = (case endpoint c of Some u \<Rightarrow> Some u | None \<Rightarrow> endpoint_url amb)
      \<and> operation_timeout st = (case timeout c of Some t \<Rightarrow> Some t | None \<Rightarrow> operation_timeout amb)
      \<and> static_credentials st = static_credentials amb \<and> set_region st = set_region amb)"
  by (cases "credentials_mode c") (auto simp: s3_settings_def Let_def split: option.splits)

end
