(* ===== verification/Object_Backend.thy ===== *)
theory Object_Backend
  imports S3_Store
begin

text \<open>
  \<open>src/src/object_store_backend.rs\<close>: the GCS and Azure configurations with their redacting \<open>Debug\<close>,
  the constructors, the error mapping, and the operations over an \<open>object_store\<close> client. The client,
  the path parser and the builders are parameters; what the crate documents of a client is the
  predicate \<open>os_lawful\<close>.
\<close>

section \<open>Configuration\<close>

datatype gcs_credentials = GcsFromEnv | ServiceAccountKey string

record gcs_config =
  gcs_bucket :: string
  gcs_creds :: gcs_credentials

definition gcs_config_new :: "string \<Rightarrow> gcs_config" where
  "gcs_config_new b = \<lparr>gcs_bucket = b, gcs_creds = GcsFromEnv\<rparr>"

definition gcs_with_credentials :: "gcs_credentials \<Rightarrow> gcs_config \<Rightarrow> gcs_config" where
  "gcs_with_credentials cr c = c\<lparr>gcs_creds := cr\<rparr>"

datatype azure_credentials = AzureFromEnv | AccountKey (account: string) (account_key: string)

record azure_config =
  azure_container :: string
  azure_creds :: azure_credentials

definition azure_config_new :: "string \<Rightarrow> azure_config" where
  "azure_config_new n = \<lparr>azure_container = n, azure_creds = AzureFromEnv\<rparr>"

definition azure_with_credentials :: "azure_credentials \<Rightarrow> azure_config \<Rightarrow> azure_config" where
  "azure_with_credentials cr c = c\<lparr>azure_creds := cr\<rparr>"

fun debug_gcs_credentials :: "formatter \<Rightarrow> gcs_credentials \<Rightarrow> string" where
  "debug_gcs_credentials F GcsFromEnv = debug_struct ''GcsCredentials::FromEnv'' []"
| "debug_gcs_credentials F (ServiceAccountKey j) = debug_struct ''GcsCredentials::ServiceAccountKey''
     [(''key'', debug_str F ''[redacted]'')]"

definition debug_gcs_config :: "formatter \<Rightarrow> gcs_config \<Rightarrow> string" where
  "debug_gcs_config F c = debug_struct ''GcsConfig''
     [(''bucket'', debug_str F (gcs_bucket c)), (''credentials'', debug_gcs_credentials F (gcs_creds c))]"

fun debug_azure_credentials :: "formatter \<Rightarrow> azure_credentials \<Rightarrow> string" where
  "debug_azure_credentials F AzureFromEnv = debug_struct ''AzureCredentials::FromEnv'' []"
| "debug_azure_credentials F (AccountKey a k) = debug_struct ''AzureCredentials::AccountKey''
     [(''account'', debug_str F a), (''key'', debug_str F ''[redacted]'')]"

definition debug_azure_config :: "formatter \<Rightarrow> azure_config \<Rightarrow> string" where
  "debug_azure_config F c = debug_struct ''AzureConfig''
     [(''container'', debug_str F (azure_container c)), (''credentials'', debug_azure_credentials F (azure_creds c))]"

section \<open>Errors\<close>

text \<open>\<open>object_store::Error\<close>; the last constructor stands for every other variant, with its text.\<close>

datatype os_error =
    OsNotFound string | OsPermissionDenied string | OsUnauthenticated string | OsAlreadyExists string
  | OsNotSupported string | OsNotImplemented string | OsInvalidPath string | OsOther string

fun map_object_store_error :: "os_error \<Rightarrow> blob_error" where
  "map_object_store_error (OsNotFound path) = not_found path"
| "map_object_store_error (OsPermissionDenied path) = permission_denied path"
| "map_object_store_error (OsUnauthenticated path) = permission_denied path"
| "map_object_store_error (OsAlreadyExists path) = AlreadyExists"
| "map_object_store_error (OsNotSupported source) = unsupported source"
| "map_object_store_error (OsNotImplemented operation) = unsupported operation"
| "map_object_store_error (OsInvalidPath source) = invalid_key source"
| "map_object_store_error (OsOther m) = Other m"

section \<open>The client\<close>

text \<open>
  A path is the text of an \<open>object_store::path::Path\<close>. A listing is the stream's items, in order.
\<close>

record ('s, 'url) os_client =
  os_put :: "string \<Rightarrow> bytes \<Rightarrow> 's \<Rightarrow> (os_error + unit) \<times> 's"
  os_get :: "string \<Rightarrow> 's \<Rightarrow> os_error + (os_error + bytes)"
  os_delete :: "string \<Rightarrow> 's \<Rightarrow> (os_error + unit) \<times> 's"
  os_head :: "string \<Rightarrow> 's \<Rightarrow> os_error + unit"
  os_list :: "string option \<Rightarrow> 's \<Rightarrow> (os_error + string) list"
  os_signed_url :: "string \<Rightarrow> nat \<Rightarrow> 's \<Rightarrow> os_error + 'url"

datatype ('s, 'url) backend =
    Gcs gcs_config "('s, 'url) os_client"
  | Azure azure_config "('s, 'url) os_client"

fun debug_backend :: "formatter \<Rightarrow> ('s, 'url) backend \<Rightarrow> string" where
  "debug_backend F (Gcs c st) = debug_struct ''ObjectStoreBackend::Gcs'' [(''config'', debug_gcs_config F c)]"
| "debug_backend F (Azure c st) = debug_struct ''ObjectStoreBackend::Azure'' [(''config'', debug_azure_config F c)]"

fun gcs_config_of :: "('s, 'url) backend \<Rightarrow> gcs_config option" where
  "gcs_config_of (Gcs c st) = Some c"
| "gcs_config_of (Azure c st) = None"

fun azure_config_of :: "('s, 'url) backend \<Rightarrow> azure_config option" where
  "azure_config_of (Azure c st) = Some c"
| "azure_config_of (Gcs c st) = None"

fun backend_bucket :: "('s, 'url) backend \<Rightarrow> string option" where
  "backend_bucket (Gcs c st) = Some (gcs_bucket c)"
| "backend_bucket (Azure c st) = None"

fun backend_container :: "('s, 'url) backend \<Rightarrow> string option" where
  "backend_container (Azure c st) = Some (azure_container c)"
| "backend_container (Gcs c st) = None"

fun store_of :: "('s, 'url) backend \<Rightarrow> ('s, 'url) os_client" where
  "store_of (Gcs c st) = st"
| "store_of (Azure c st) = st"

section \<open>Constructors\<close>

text \<open>
  \<open>s.trim().is_empty()\<close>: every character is Unicode white space. On the bytes: 9 to 13, 32, U+0085,
  U+00A0, U+1680, U+2000 to U+200A, U+2028, U+2029, U+202F, U+205F and U+3000.
\<close>

definition white3 :: "nat \<Rightarrow> nat \<Rightarrow> nat \<Rightarrow> bool" where
  "white3 a b c \<longleftrightarrow> (a, b, c) = (0xE1, 0x9A, 0x80)
     \<or> (a, b) = (0xE2, 0x80) \<and> (0x80 \<le> c \<and> c \<le> 0x8A \<or> c = 0xA8 \<or> c = 0xA9 \<or> c = 0xAF)
     \<or> (a, b, c) = (0xE2, 0x81, 0x9F) \<or> (a, b, c) = (0xE3, 0x80, 0x80)"

fun trim_is_empty :: "string \<Rightarrow> bool" where
  "trim_is_empty [] = True"
| "trim_is_empty (c # s) =
     (let x = of_char c :: nat in
      if 9 \<le> x \<and> x \<le> 13 \<or> x = 32 then trim_is_empty s
      else case s of
          [] \<Rightarrow> False
        | d # s' \<Rightarrow>
            (let y = of_char d :: nat in
             if x = 0xC2 \<and> (y = 0x85 \<or> y = 0xA0) then trim_is_empty s'
             else case s' of
                 [] \<Rightarrow> False
               | e # s'' \<Rightarrow> white3 x y (of_char e) \<and> trim_is_empty s''))"

definition GOOGLE_APPLICATION_CREDENTIALS_JSON_ENV :: string where
  "GOOGLE_APPLICATION_CREDENTIALS_JSON_ENV = ''GOOGLE_APPLICATION_CREDENTIALS_JSON''"

text \<open>The service-account key handed to the builder, if any.\<close>

definition gcs_key :: "(string \<Rightarrow> string option) \<Rightarrow> gcs_credentials \<Rightarrow> string option" where
  "gcs_key env cr =
     (case cr of
        GcsFromEnv \<Rightarrow>
          (case env GOOGLE_APPLICATION_CREDENTIALS_JSON_ENV of
             Some json \<Rightarrow> Some json
           | None \<Rightarrow> env ''GOOGLE_SERVICE_ACCOUNT_KEY'')
      | ServiceAccountKey json \<Rightarrow> Some json)"

definition backend_gcs ::
  "(string \<Rightarrow> string option) \<Rightarrow> (string \<Rightarrow> string option \<Rightarrow> os_error + ('s, 'url) os_client)
     \<Rightarrow> gcs_config \<Rightarrow> ('s, 'url) backend result" where
  "backend_gcs env build c =
     (if trim_is_empty (gcs_bucket c) then Inl (invalid_key ''GCS bucket must not be empty'')
      else and_then (map_err map_object_store_error (build (gcs_bucket c) (gcs_key env (gcs_creds c))))
        (\<lambda>st. Inr (Gcs c st)))"

definition azure_keys_missing :: "azure_credentials \<Rightarrow> bool" where
  "azure_keys_missing cr = (case cr of AzureFromEnv \<Rightarrow> False | AccountKey a k \<Rightarrow> trim_is_empty a \<or> trim_is_empty k)"

text \<open>The builder gets the container and either the environment or the account and its key.\<close>

definition backend_azure ::
  "(string \<Rightarrow> (string \<times> string) option \<Rightarrow> os_error + ('s, 'url) os_client)
     \<Rightarrow> azure_config \<Rightarrow> ('s, 'url) backend result" where
  "backend_azure build c =
     (if trim_is_empty (azure_container c) then Inl (invalid_key ''Azure container must not be empty'')
      else if azure_keys_missing (azure_creds c) then Inl (invalid_key ''Azure account and key must not be empty'')
      else and_then (map_err map_object_store_error (build (azure_container c)
          (case azure_creds c of AzureFromEnv \<Rightarrow> None | AccountKey a k \<Rightarrow> Some (a, k))))
        (\<lambda>st. Inr (Azure c st)))"

section \<open>Operations\<close>

text \<open>\<open>parse\<close> is \<open>object_store::path::Path::parse\<close>: an error text, or the path's text.\<close>

definition key_path_of :: "(string \<Rightarrow> string + string) \<Rightarrow> object_key \<Rightarrow> string result" where
  "key_path_of parse key = map_err invalid_key (parse (as_str key))"

definition backend_put ::
  "('s, 'url) backend \<Rightarrow> (string \<Rightarrow> string + string) \<Rightarrow> u64 \<Rightarrow> object_key \<Rightarrow> bytes \<Rightarrow> 's \<Rightarrow> blob_id result \<times> 's" where
  "backend_put B parse h key data s =
     (case key_path_of parse key of
        Inl err \<Rightarrow> (Inl err, s)
      | Inr path \<Rightarrow>
          (let (r, s') = os_put (store_of B) path data s
           in (and_then (map_err map_object_store_error r) (\<lambda>u. Inr (blob_id_new h)), s')))"

definition backend_get ::
  "('s, 'url) backend \<Rightarrow> (string \<Rightarrow> string + string) \<Rightarrow> object_key \<Rightarrow> 's \<Rightarrow> bytes result" where
  "backend_get B parse key s =
     and_then (key_path_of parse key) (\<lambda>path.
     and_then (map_err map_object_store_error (os_get (store_of B) path s)) (\<lambda>body.
     map_err map_object_store_error body))"

definition backend_exists ::
  "('s, 'url) backend \<Rightarrow> (string \<Rightarrow> string + string) \<Rightarrow> object_key \<Rightarrow> 's \<Rightarrow> bool result" where
  "backend_exists B parse key s =
     and_then (key_path_of parse key) (\<lambda>path.
     case os_head (store_of B) path s of
       Inr u \<Rightarrow> Inr True
     | Inl err \<Rightarrow> (case map_object_store_error err of NotFound m \<Rightarrow> Inr False | other \<Rightarrow> Inl other))"

text \<open>\<open>between\<close> is what other clients do to the service between the check and the deletion.\<close>

definition backend_delete ::
  "('s, 'url) backend \<Rightarrow> (string \<Rightarrow> string + string) \<Rightarrow> ('s \<Rightarrow> 's) \<Rightarrow> object_key \<Rightarrow> 's \<Rightarrow> unit result \<times> 's" where
  "backend_delete B parse between key s =
     (case key_path_of parse key of
        Inl err \<Rightarrow> (Inl err, s)
      | Inr path \<Rightarrow>
          (case backend_exists B parse key s of
             Inl err \<Rightarrow> (Inl err, s)
           | Inr ex \<Rightarrow>
               if \<not> ex then (Inl (not_found (as_str key)), s)
               else (case os_delete (store_of B) path (between s) of
                   (Inr u, s') \<Rightarrow> (Inr (), s')
                 | (Inl err, s') \<Rightarrow>
                     (case map_object_store_error err of
                        NotFound m \<Rightarrow> (Inr (), s')
                      | other \<Rightarrow> (Inl other, s')))))"

definition backend_signed_url ::
  "('s, 'url) backend \<Rightarrow> (string \<Rightarrow> string + string) \<Rightarrow> object_key \<Rightarrow> nat \<Rightarrow> 's \<Rightarrow> 'url result" where
  "backend_signed_url B parse key expires s =
     and_then (key_path_of parse key) (\<lambda>path.
     map_err map_object_store_error (os_signed_url (store_of B) path expires s))"

definition backend_presigned_url ::
  "('s, 'url) backend \<Rightarrow> (string \<Rightarrow> string + string) \<Rightarrow> ('url \<Rightarrow> string) \<Rightarrow> object_key \<Rightarrow> nat \<Rightarrow> 's \<Rightarrow> string result" where
  "backend_presigned_url B parse to_string key expires s =
     and_then (backend_signed_url B parse key expires s) (\<lambda>u. Inr (to_string u))"

definition trim_slashes :: "string \<Rightarrow> string" where
  "trim_slashes s = rev (dropWhile (\<lambda>c. c = CHR ''/'') (rev (dropWhile (\<lambda>c. c = CHR ''/'') s)))"

text \<open>Draining the stream: the first error ends the listing.\<close>

fun collect_keys :: "string \<Rightarrow> (os_error + string) list \<Rightarrow> object_key list \<Rightarrow> object_key list result" where
  "collect_keys pre [] keys = Inr keys"
| "collect_keys pre (Inl err # items) keys = Inl (map_object_store_error err)"
| "collect_keys pre (Inr raw # items) keys =
     (if \<not> starts_with raw pre then collect_keys pre items keys
      else case key_new raw of
          Inr key \<Rightarrow> collect_keys pre items (keys @ [key])
        | Inl err \<Rightarrow> collect_keys pre items keys)"

definition backend_list ::
  "('s, 'url) backend \<Rightarrow> (string \<Rightarrow> string + string) \<Rightarrow> string \<Rightarrow> 's \<Rightarrow> object_key list result" where
  "backend_list B parse pre s =
     (let trimmed = trim_slashes pre in
      and_then (if trimmed = [] then Inr None
                else and_then (key_path_of parse (key_new_unchecked trimmed)) (\<lambda>p. Inr (Some p)))
        (\<lambda>prefix_path. collect_keys pre (os_list (store_of B) prefix_path s) []))"

section \<open>What object_store documents\<close>

definition parse_lawful :: "(string \<Rightarrow> string + string) \<Rightarrow> bool" where
  "parse_lawful parse \<longleftrightarrow>
     (\<forall>s p. parse s = Inr p \<and> \<not> starts_with s ''/'' \<and> \<not> ends_with s ''/'' \<longrightarrow> p = s)"

text \<open>A prefix is matched by whole segments and the order of a listing is not promised.\<close>

definition os_under :: "string option \<Rightarrow> string \<Rightarrow> bool" where
  "os_under p l = (case p of None \<Rightarrow> True | Some q \<Rightarrow> starts_with l (q @ ''/''))"

definition os_lawful :: "('s, 'url) os_client \<Rightarrow> ('s \<Rightarrow> string \<Rightarrow> bytes option) \<Rightarrow> bool" where
  "os_lawful C view \<longleftrightarrow>
     (\<forall>p d s r s'. os_put C p d s = (r, s') \<longrightarrow> view s' = (view s)(p \<mapsto> d) \<or> \<not> is_ok r \<and> view s' = view s)
     \<and> (\<forall>p s r s'. os_delete C p s = (r, s') \<longrightarrow> view s' = (view s)(p := None) \<or> \<not> is_ok r \<and> view s' = view s)
     \<and> (\<forall>p s m s'. os_delete C p s = (Inl (OsNotFound m), s') \<longrightarrow> view s' p = None)
     \<and> (\<forall>p s d. os_get C p s = Inr (Inr d) \<longrightarrow> view s p = Some d)
     \<and> (\<forall>p s m. os_get C p s = Inl (OsNotFound m) \<longrightarrow> view s p = None)
     \<and> (\<forall>p s m. os_get C p s \<noteq> Inr (Inl (OsNotFound m)))
     \<and> (\<forall>p s. os_head C p s = Inr () \<longrightarrow> view s p \<noteq> None)
     \<and> (\<forall>p s m. os_head C p s = Inl (OsNotFound m) \<longrightarrow> view s p = None)
     \<and> (\<forall>p s ls. os_list C p s = map Inr ls \<longrightarrow> distinct ls \<and> set ls = {l. view s l \<noteq> None \<and> os_under p l})"

definition backend_view :: "('s \<Rightarrow> string \<Rightarrow> bytes option) \<Rightarrow> 's \<Rightarrow> object_key \<Rightarrow> bytes option" where
  "backend_view view s k = view s (as_str k)"

lemma map_not_found [simp]: "map_object_store_error e = NotFound m \<longleftrightarrow> e = OsNotFound m"
  by (cases e) auto

lemma map_not_found' [simp]: "NotFound m = map_object_store_error e \<longleftrightarrow> e = OsNotFound m"
  by (cases e) auto

lemma os_lawfulD:
  assumes "os_lawful C view"
  shows "os_put C p d s = (r, s') \<Longrightarrow> view s' = (view s)(p \<mapsto> d) \<or> \<not> is_ok r \<and> view s' = view s"
    and "os_delete C p s = (q, s') \<Longrightarrow> view s' = (view s)(p := None) \<or> \<not> is_ok q \<and> view s' = view s"
    and "os_delete C p s = (Inl (OsNotFound m), s') \<Longrightarrow> view s' p = None"
    and "os_get C p s = Inr (Inr d) \<Longrightarrow> view s p = Some d"
    and "os_get C p s = Inl (OsNotFound m) \<Longrightarrow> view s p = None"
    and "os_get C p s \<noteq> Inr (Inl (OsNotFound m))"
    and "os_head C p s = Inr () \<Longrightarrow> view s p \<noteq> None"
    and "os_head C p s = Inl (OsNotFound m) \<Longrightarrow> view s p = None"
    and "os_list C o' s = map Inr ls \<Longrightarrow> distinct ls \<and> set ls = {l. view s l \<noteq> None \<and> os_under o' l}"
proof -
  note c = assms [unfolded os_lawful_def]
  show "view s' = (view s)(p \<mapsto> d) \<or> \<not> is_ok r \<and> view s' = view s" if "os_put C p d s = (r, s')"
    by (rule c [THEN conjunct1, rule_format, OF that])
  show "view s' = (view s)(p := None) \<or> \<not> is_ok q \<and> view s' = view s" if "os_delete C p s = (q, s')"
    by (rule c [THEN conjunct2, THEN conjunct1, rule_format, OF that])
  show "view s' p = None" if "os_delete C p s = (Inl (OsNotFound m), s')"
    by (rule c [THEN conjunct2, THEN conjunct2, THEN conjunct1, rule_format, OF that])
  show "view s p = Some d" if "os_get C p s = Inr (Inr d)"
    by (rule c [THEN conjunct2, THEN conjunct2, THEN conjunct2, THEN conjunct1, rule_format, OF that])
  show "view s p = None" if "os_get C p s = Inl (OsNotFound m)"
    by (rule c [THEN conjunct2, THEN conjunct2, THEN conjunct2, THEN conjunct2, THEN conjunct1, rule_format, OF that])
  show "os_get C p s \<noteq> Inr (Inl (OsNotFound m))"
    by (rule c [THEN conjunct2, THEN conjunct2, THEN conjunct2, THEN conjunct2, THEN conjunct2, THEN conjunct1, rule_format])
  show "view s p \<noteq> None" if "os_head C p s = Inr ()"
    by (rule c [THEN conjunct2, THEN conjunct2, THEN conjunct2, THEN conjunct2, THEN conjunct2, THEN conjunct2, THEN conjunct1, rule_format, OF that])
  show "view s p = None" if "os_head C p s = Inl (OsNotFound m)"
    by (rule c [THEN conjunct2, THEN conjunct2, THEN conjunct2, THEN conjunct2, THEN conjunct2, THEN conjunct2, THEN conjunct2, THEN conjunct1, rule_format, OF that])
  show "distinct ls \<and> set ls = {l. view s l \<noteq> None \<and> os_under o' l}" if "os_list C o' s = map Inr ls"
    by (rule c [THEN conjunct2, THEN conjunct2, THEN conjunct2, THEN conjunct2, THEN conjunct2, THEN conjunct2, THEN conjunct2, THEN conjunct2, rule_format, OF that])
qed

lemma key_wf_ends:
  assumes "key_wf k"
  shows "\<not> starts_with (as_str k) ''/''" "\<not> ends_with (as_str k) ''/''"
  using assms empty_piece_iff [of "as_str k" "CHR ''/''"] by (auto simp: key_wf_def key_str_wf_def)

lemma key_path_wf:
  assumes "parse_lawful parse" "key_wf k" "key_path_of parse k = Inr p"
  shows "p = as_str k"
proof -
  from assms(3) have "parse (as_str k) = Inr p" by (simp add: key_path_of_def res_simps)
  with assms(1) key_wf_ends [OF assms(2)] show ?thesis unfolding parse_lawful_def by blast
qed

lemma not_prefix_dropWhile [simp]: "\<not> prefix [c] (dropWhile (\<lambda>x. x = c) s)"
  by (induction s) auto

lemma trim_slashes_ends: "\<not> starts_with (trim_slashes s) ''/''" "\<not> ends_with (trim_slashes s) ''/''"
proof -
  let ?slash = "\<lambda>c. c = CHR ''/''"
  have "prefix (trim_slashes s) (dropWhile ?slash s)"
    unfolding trim_slashes_def using suffix_dropWhile [of ?slash "rev (dropWhile ?slash s)"]
    by (simp only: suffix_to_prefix rev_rev_ident)
  then show "\<not> starts_with (trim_slashes s) ''/''"
    using prefix_order.trans [of "''/''" "trim_slashes s" "dropWhile ?slash s"]
    by (simp only: starts_with_iff not_prefix_dropWhile) blast
  show "\<not> ends_with (trim_slashes s) ''/''"
    by (simp only: ends_with_iff trim_slashes_def suffix_to_prefix rev_rev_ident rev_singleton_conv
        rev.simps append_Nil not_prefix_dropWhile not_False_eq_True)
qed

lemma collect_keys_ok:
  "collect_keys pre items acc = Inr ks \<Longrightarrow>
    \<exists>ls. items = map Inr ls \<and> ks = acc @ map ObjectKey (filter (\<lambda>l. starts_with l pre \<and> key_str_wf l) ls)"
proof (induction items arbitrary: acc)
  case Nil
  then show ?case by simp
next
  case (Cons item items)
  from Cons.prems obtain raw where raw: "item = Inr raw" by (cases item) auto
  show ?case
  proof (cases "starts_with raw pre \<and> key_str_wf raw")
    case True
    then have "key_new raw = Inr (ObjectKey raw)" by (simp add: key_new_Inr)
    with Cons.prems raw True have "collect_keys pre items (acc @ [ObjectKey raw]) = Inr ks" by simp
    from Cons.IH [OF this] True raw show ?thesis by (metis (mono_tags, lifting) append.assoc append_Cons append_Nil filter.simps(2) list.simps(9))
  next
    case False
    have "collect_keys pre items acc = Inr ks"
      using Cons.prems raw False by (cases "key_new raw") (auto simp: key_new_Inr split: if_splits)
    from Cons.IH [OF this] obtain ls where ls: "items = map Inr ls"
        "ks = acc @ map ObjectKey (filter (\<lambda>l. starts_with l pre \<and> key_str_wf l) ls)" by blast
    from ls raw False show ?thesis by (intro exI [of _ "raw # ls"]) auto
  qed
qed

section \<open>A container in memory, for the examples\<close>

definition list_client :: "((string \<times> bytes) list, string) os_client" where
  "list_client =
     \<lparr>os_put = (\<lambda>p d s. (Inr (), AList.update p d s)),
      os_get = (\<lambda>p s. case map_of s p of Some d \<Rightarrow> Inr (Inr d) | None \<Rightarrow> Inl (OsNotFound p)),
      os_delete = (\<lambda>p s. if map_of s p = None then (Inl (OsNotFound p), s) else (Inr (), AList.delete p s)),
      os_head = (\<lambda>p s. if map_of s p = None then Inl (OsNotFound p) else Inr ()),
      os_list = (\<lambda>p s. map Inr (filter (os_under p) (remdups (map fst s)))),
      os_signed_url = (\<lambda>p x s. Inr (''https://'' @ p))\<rparr>"

definition list_backend :: "((string \<times> bytes) list, string) backend" where
  "list_backend = Gcs (gcs_config_new ''bkt'') list_client"

lemma inj_map_Inr: "map Inr xs = map Inr ys \<longleftrightarrow> xs = ys"
  by (rule inj_map_eq_map) (simp add: inj_def)

lemma list_client_lawful: "os_lawful (store_of list_backend) map_of"
  by (auto simp: os_lawful_def list_backend_def list_client_def update_conv' delete_conv' fun_eq_iff inj_map_Inr
      map_of_eq_None_iff split: option.splits if_splits dest: map_of_SomeD)

lemma parse_Inr_lawful: "parse_lawful Inr"
  by (simp add: parse_lawful_def)

section \<open>Properties\<close>

text \<open>C38. Secrets never reach diagnostics (REQ-BLOBKIT-101): the \<open>Debug\<close> text of every configuration and of
  the backend is the same whatever the secret is, while it still names the credential source: two texts
  with different sources differ.\<close>

theorem debug_redacts:
  "debug_s3_config F (with_credentials (Static ak s1) c) = debug_s3_config F (with_credentials (Static ak s2) c)
   \<and> debug_gcs_config F (gcs_with_credentials (ServiceAccountKey s1) g)
       = debug_gcs_config F (gcs_with_credentials (ServiceAccountKey s2) g)
   \<and> debug_azure_config F (azure_with_credentials (AccountKey a s1) z)
       = debug_azure_config F (azure_with_credentials (AccountKey a s2) z)
   \<and> debug_backend F (Gcs (gcs_with_credentials (ServiceAccountKey s1) g) st)
       = debug_backend F (Gcs (gcs_with_credentials (ServiceAccountKey s2) g) st')
   \<and> debug_backend F (Azure (azure_with_credentials (AccountKey a s1) z) st)
       = debug_backend F (Azure (azure_with_credentials (AccountKey a s2) z) st')
   \<and> debug_credentials F (Static ak s1) \<noteq> debug_credentials F FromEnv
   \<and> debug_gcs_credentials F (ServiceAccountKey s1) \<noteq> debug_gcs_credentials F GcsFromEnv
   \<and> debug_azure_credentials F (AccountKey a s1) \<noteq> debug_azure_credentials F AzureFromEnv"
  by (simp add: debug_s3_config_def with_credentials_def debug_gcs_config_def gcs_with_credentials_def
      debug_azure_config_def azure_with_credentials_def debug_struct_def)

text \<open>Constructors: a blank bucket or container, or blank account keys, is \<open>InvalidKey\<close> before the builder
  runs; otherwise the result is the builder's, its error mapped; a backend carries the configuration it was built
  from; explicit credentials ignore the environment, whose blobkit variable wins over object_store's.\<close>

theorem backend_constructors:
  "(backend_gcs env build g = Inr B \<longleftrightarrow>
      \<not> trim_is_empty (gcs_bucket g) \<and> (\<exists>st. build (gcs_bucket g) (gcs_key env (gcs_creds g)) = Inr st \<and> B = Gcs g st))
   \<and> (trim_is_empty (gcs_bucket g) \<longrightarrow> backend_gcs env build g = Inl (InvalidKey ''GCS bucket must not be empty''))
   \<and> (\<not> trim_is_empty (gcs_bucket g) \<and> build (gcs_bucket g) (gcs_key env (gcs_creds g)) = Inl err \<longrightarrow>
      backend_gcs env build g = Inl (map_object_store_error err))
   \<and> (backend_azure buildz z = Inr B \<longleftrightarrow> \<not> trim_is_empty (azure_container z)
      \<and> (\<exists>st. B = Azure z st \<and> (case azure_creds z of
            AzureFromEnv \<Rightarrow> buildz (azure_container z) None = Inr st
          | AccountKey a k \<Rightarrow> \<not> trim_is_empty a \<and> \<not> trim_is_empty k \<and> buildz (azure_container z) (Some (a, k)) = Inr st)))
   \<and> gcs_key env (ServiceAccountKey j) = Some j
   \<and> (env ''GOOGLE_APPLICATION_CREDENTIALS_JSON'' = Some j' \<longrightarrow> gcs_key env GcsFromEnv = Some j')
   \<and> (env ''GOOGLE_APPLICATION_CREDENTIALS_JSON'' = None \<longrightarrow>
      gcs_key env GcsFromEnv = env ''GOOGLE_SERVICE_ACCOUNT_KEY'')"
proof (intro conjI)
  show "backend_azure buildz z = Inr B \<longleftrightarrow> \<not> trim_is_empty (azure_container z)
      \<and> (\<exists>st. B = Azure z st \<and> (case azure_creds z of
            AzureFromEnv \<Rightarrow> buildz (azure_container z) None = Inr st
          | AccountKey a k \<Rightarrow> \<not> trim_is_empty a \<and> \<not> trim_is_empty k \<and> buildz (azure_container z) (Some (a, k)) = Inr st))"
    by (cases "azure_creds z") (auto simp: backend_azure_def azure_keys_missing_def res_simps)
qed (auto simp: backend_gcs_def gcs_key_def GOOGLE_APPLICATION_CREDENTIALS_JSON_ENV_def res_simps split: option.splits)

theorem backend_constructors_witness:
  "backend_gcs (\<lambda>v. None) (\<lambda>b k. Inr list_client) (gcs_config_new '' '')
     = (Inl (InvalidKey ''GCS bucket must not be empty'') :: ((string \<times> bytes) list, string) backend result)
   \<and> gcs_key (\<lambda>v. Some v) GcsFromEnv = Some ''GOOGLE_APPLICATION_CREDENTIALS_JSON''
   \<and> backend_gcs (\<lambda>v. None) (\<lambda>b k. Inl (OsOther ''bad key'')) (gcs_config_new ''b'')
     = (Inl (Other ''bad key'') :: ((string \<times> bytes) list, string) backend result)"
proof -
  have "trim_is_empty (gcs_bucket (gcs_config_new '' ''))" "\<not> trim_is_empty (gcs_bucket (gcs_config_new ''b''))"
    by (simp_all add: gcs_config_new_def)
  note blank = this(1) and named = this(2)
  have "backend_gcs (\<lambda>v. None) (\<lambda>b k. Inr list_client) (gcs_config_new '' '')
      = (Inl (InvalidKey ''GCS bucket must not be empty'') :: ((string \<times> bytes) list, string) backend result)"
    by (rule backend_constructors [THEN conjunct2, THEN conjunct1, THEN mp]) (rule blank)
  moreover have "backend_gcs (\<lambda>v. None) (\<lambda>b k. Inl (OsOther ''bad key'')) (gcs_config_new ''b'')
      = (Inl (map_object_store_error (OsOther ''bad key'')) :: ((string \<times> bytes) list, string) backend result)"
    by (rule backend_constructors [THEN conjunct2, THEN conjunct2, THEN conjunct1, THEN mp]) (simp add: named)
  moreover have "gcs_key (\<lambda>v. Some v) GcsFromEnv = Some ''GOOGLE_APPLICATION_CREDENTIALS_JSON''"
    by (rule backend_constructors [THEN conjunct2, THEN conjunct2, THEN conjunct2, THEN conjunct2, THEN conjunct2,
          THEN conjunct1, THEN mp]) simp
  ultimately show ?thesis by simp
qed

text \<open>The effect of a change of the service's map at a key's path, seen as a map of keys.\<close>

lemma backend_view_upd:
  "view s' = (view s)(as_str k := v) \<Longrightarrow> backend_view view s' = (backend_view view s)(k := v)"
  by (auto simp: backend_view_def fun_eq_iff intro: object_key.expand)

lemma backend_exists_Inr:
  assumes "os_lawful (store_of B) view" "parse_lawful parse" "key_wf k" "backend_exists B parse k s = Inr b"
  shows "b \<longleftrightarrow> backend_view view s k \<noteq> None"
proof -
  from assms(4) obtain p where p: "key_path_of parse k = Inr p" by (auto simp: backend_exists_def res_simps)
  with key_path_wf [OF assms(2,3)] have p: "key_path_of parse k = Inr (as_str k)" by simp
  show ?thesis
  proof (cases "os_head (store_of B) (as_str k) s")
    case (Inr u)
    with os_lawfulD(7) [OF assms(1)] have "view s (as_str k) \<noteq> None" by simp
    with Inr p assms(4) show ?thesis by (simp add: backend_exists_def backend_view_def)
  next
    case (Inl err)
    with p assms(4) obtain m where "map_object_store_error err = NotFound m" "\<not> b"
      by (auto simp: backend_exists_def split: blob_error.splits)
    with Inl os_lawfulD(8) [OF assms(1)] show ?thesis by (simp add: backend_view_def)
  qed
qed

lemma backend_exists_not_found: "backend_exists B parse k s \<noteq> Inl (NotFound m)"
  by (auto simp: backend_exists_def key_path_of_def res_simps invalid_key_def split: sum.splits blob_error.splits)

lemma backend_put_view:
  assumes "os_lawful (store_of B) view" "parse_lawful parse" "key_wf k" "backend_put B parse h k d s = (r, s')"
  shows "backend_view view s' = (backend_view view s)(k \<mapsto> d) \<or> \<not> is_ok r \<and> backend_view view s' = backend_view view s"
proof (cases "key_path_of parse k")
  case (Inl err)
  with assms(4) show ?thesis by (auto simp: backend_put_def)
next
  case (Inr p)
  with assms(4) key_path_wf [OF assms(2,3)] obtain r1
    where put: "os_put (store_of B) (as_str k) d s = (r1, s')" "is_ok r = is_ok r1"
    by (auto simp: backend_put_def is_ok_iff res_simps split: prod.splits)
  from os_lawfulD(1) [OF assms(1) put(1)] put(2) show ?thesis by (auto simp: backend_view_upd backend_view_def)
qed

lemma backend_get_view:
  assumes "os_lawful (store_of B) view" "parse_lawful parse" "key_wf k"
  shows "backend_get B parse k s = Inr x \<Longrightarrow> backend_view view s k = Some x"
    and "backend_get B parse k s = Inl (NotFound m) \<Longrightarrow> backend_view view s k = None"
proof -
  note law = os_lawfulD [OF assms(1)]
  note path = key_path_wf [OF assms(2,3)]
  show "backend_view view s k = Some x" if "backend_get B parse k s = Inr x"
    using that path law(4) by (fastforce simp: backend_get_def backend_view_def res_simps)
  show "backend_view view s k = None" if get: "backend_get B parse k s = Inl (NotFound m)"
  proof (cases "key_path_of parse k")
    case (Inl err)
    with get show ?thesis by (auto simp: backend_get_def key_path_of_def res_simps invalid_key_def)
  next
    case (Inr p)
    with get path law(6) have "os_get (store_of B) (as_str k) s = Inl (OsNotFound m)"
      by (auto simp: backend_get_def res_simps)
    with law(5) have "view s (as_str k) = None" by blast
    then show ?thesis by (simp add: backend_view_def)
  qed
qed

lemma backend_delete_view:
  assumes "os_lawful (store_of B) view" "parse_lawful parse" "key_wf k"
  shows "backend_delete B parse between k s = (Inr (), s') \<Longrightarrow>
      backend_view view s k \<noteq> None \<and> backend_view view s' = (backend_view view (between s))(k := None)"
    and "backend_delete B parse between k s = (Inl (NotFound m), s') \<Longrightarrow> backend_view view s k = None \<and> s' = s"
proof -
  note law = os_lawfulD [OF assms(1)]
  note path = key_path_wf [OF assms(2,3)]
  show "backend_view view s k \<noteq> None \<and> backend_view view s' = (backend_view view (between s))(k := None)"
    if ok: "backend_delete B parse between k s = (Inr (), s')"
  proof
    from ok have "backend_exists B parse k s = Inr True"
      by (auto simp: backend_delete_def split: sum.splits if_splits)
    from backend_exists_Inr [OF assms this] show "backend_view view s k \<noteq> None" by simp
    from ok path obtain r1 where del: "os_delete (store_of B) (as_str k) (between s) = (r1, s')"
        "r1 = Inr () \<or> (\<exists>m. r1 = Inl (OsNotFound m))"
      by (fastforce simp: backend_delete_def split: sum.splits if_splits prod.splits blob_error.splits)
    from law(2) [OF del(1)] del law(3) have "view s' = (view (between s))(as_str k := None)"
      by (auto simp: fun_eq_iff)
    then show "backend_view view s' = (backend_view view (between s))(k := None)" by (rule backend_view_upd)
  qed
  show "backend_view view s k = None \<and> s' = s" if "backend_delete B parse between k s = (Inl (NotFound m), s')"
  proof -
    from that have "backend_exists B parse k s = Inr False \<and> s' = s"
      using backend_exists_not_found [of B parse k s m]
      by (auto simp: backend_delete_def key_path_of_def res_simps invalid_key_def
          split: sum.splits if_splits prod.splits blob_error.splits)
    with backend_exists_Inr [OF assms, of s False] show ?thesis by simp
  qed
qed

text \<open>C24. The object_store backend against what the crate documents, for a validated key: a put that returned
  \<open>Ok\<close> stored exactly the bytes and changed nothing else, one that failed stored them or nothing; a get returns
  stored bytes only and reports \<open>NotFound\<close> only for an absent key; \<open>exists\<close> answers truthfully; a delete that
  returned \<open>Ok\<close> removed exactly the key, also when another client deleted it between the check and the
  deletion, and one that reports \<open>NotFound\<close> found the key absent and changed nothing.\<close>

theorem os_contract:
  assumes "os_lawful (store_of B) view" "parse_lawful parse" "key_wf k"
  shows "(backend_put B parse h k d s = (r, s') \<longrightarrow>
      backend_view view s' = (backend_view view s)(k \<mapsto> d) \<or> \<not> is_ok r \<and> backend_view view s' = backend_view view s)
    \<and> (backend_get B parse k s = Inr x \<longrightarrow> backend_view view s k = Some x)
    \<and> (backend_get B parse k s = Inl (NotFound m) \<longrightarrow> backend_view view s k = None)
    \<and> (backend_exists B parse k s = Inr b \<longrightarrow> (b \<longleftrightarrow> backend_view view s k \<noteq> None))
    \<and> (backend_delete B parse between k s = (Inr (), s') \<longrightarrow>
        backend_view view s k \<noteq> None \<and> backend_view view s' = (backend_view view (between s))(k := None))
    \<and> (backend_delete B parse between k s = (Inl (NotFound m), s') \<longrightarrow> backend_view view s k = None \<and> s' = s)"
  by (intro conjI impI)
    (erule backend_put_view [OF assms] backend_get_view [OF assms] backend_exists_Inr [OF assms]
      backend_delete_view [OF assms, THEN conjunct1] backend_delete_view [OF assms, THEN conjunct2])+

text \<open>A container with two objects, one below the directory \<open>a\<close> and one whose name only starts with it.\<close>

definition sample :: "(string \<times> bytes) list" where
  "sample = [(''a/x'', [1]), (''aa.txt'', [2])]"

theorem os_contract_witness:
  "backend_get list_backend Inr (ObjectKey ''aa.txt'') sample = Inr [2]
   \<and> backend_view map_of sample (ObjectKey ''aa.txt'') = Some [2]
   \<and> map_of (snd (backend_delete list_backend Inr id (ObjectKey ''aa.txt'') sample)) ''aa.txt'' = None"
proof -
  let ?k = "ObjectKey ''aa.txt''"
  have wf: "key_wf ?k" by (simp add: key_wf_def key_str_wf_def max_key_len_def)
  have get: "backend_get list_backend Inr ?k sample = Inr [2]"
    by (simp add: backend_get_def key_path_of_def list_backend_def list_client_def sample_def)
  have del: "backend_delete list_backend Inr id ?k sample = (Inr (), [(''a/x'', [1])])"
    by (simp add: backend_delete_def backend_exists_def key_path_of_def list_backend_def list_client_def sample_def)
  note contract = os_contract [OF list_client_lawful parse_Inr_lawful wf, where s = sample]
  from contract get have "backend_view map_of sample ?k = Some [2]" by blast
  moreover from contract [where between = id and s' = "[(''a/x'', [1])]"] del
  have "backend_view map_of [(''a/x'', [1])] ?k = None" by simp
  ultimately show ?thesis using get del by (simp add: backend_view_def)
qed

lemma collect_keys_map_Inr:
  "collect_keys pre (map Inr ls) acc
     = Inr (acc @ map ObjectKey (filter (\<lambda>l. starts_with l pre \<and> key_str_wf l) ls))"
proof (induction ls arbitrary: acc)
  case (Cons l ls)
  show ?case
  proof (cases "key_str_wf l")
    case True
    then have "key_new l = Inr (ObjectKey l)" by (simp add: key_new_Inr)
    with Cons True show ?thesis by simp
  next
    case False
    then obtain e where "key_new l = Inl e" by (cases "key_new l") (auto simp: key_new_Inr)
    with Cons False show ?thesis by simp
  qed
qed simp

lemma backend_list_path:
  assumes "parse_lawful parse" "backend_list B parse pre s = Inr ks"
  defines "t \<equiv> trim_slashes pre"
  shows "\<exists>ls. os_list (store_of B) (if t = [] then None else Some t) s = map Inr ls
    \<and> ks = map ObjectKey (filter (\<lambda>l. starts_with l pre \<and> key_str_wf l) ls)"
proof -
  have "parse t = Inr p \<Longrightarrow> p = t" for p
    using assms(1) trim_slashes_ends [of pre] unfolding parse_lawful_def t_def by blast
  then have "collect_keys pre (os_list (store_of B) (if t = [] then None else Some t) s) [] = Inr ks"
    using assms(2) by (auto simp: backend_list_def t_def key_path_of_def key_new_unchecked_def res_simps split: if_splits)
  from collect_keys_ok [OF this] show ?thesis by simp
qed



end
