(* ===== verification/Backends.thy ===== *)
theory Backends
  imports Memory_Store
begin

text \<open>
  Every backend behind one trait, compared with one specification, a map from keys to payloads. The
  locale \<open>store_match\<close> is a simulation over a relation between a backend's states and the map, with
  the calls on which the backend matches and what of a reply is compared; each backend interprets it.
  Here are the sessions, the locale and the two builds of the memory store.
\<close>

section \<open>Sessions of calls that may not return\<close>

type_synonym ('e, 's) transition = "'e \<Rightarrow> store_call \<Rightarrow> 's \<Rightarrow> (store_reply \<times> 's) option"

fun run_session :: "('e, 's) transition \<Rightarrow> ('e \<times> store_call) list \<Rightarrow> 's \<Rightarrow> store_reply list option" where
  "run_session t [] s = Some []"
| "run_session t ((e, c) # cs) s =
     (case t e c s of None \<Rightarrow> None | Some (r, s') \<Rightarrow> map_option ((#) r) (run_session t cs s'))"

definition calls_of :: "('e, 's) blob_ops \<Rightarrow> ('e, 's) transition" where
  "calls_of b e c s = Some (do_call b e c s)"

lemma run_session_calls [simp]: "run_session (calls_of b) cs s = Some (session b cs s)"
  by (induction cs arbitrary: s) (auto simp: calls_of_def split: prod.splits)

lemma length_session [simp]: "length (session b cs s) = length cs"
  by (induction cs arbitrary: s) (auto split: prod.splits)

text \<open>The specification over the entropy of each call; \<open>presigned_url\<close> is outside of it.\<close>

definition map_spec :: "(u64, object_key \<rightharpoonup> bytes) blob_ops" where
  "map_spec = spec_ops blob_id_new ''''"

locale store_match =
  fixes step :: "('e, 's) transition"
    and seed :: "'e \<Rightarrow> u64"
    and rel :: "'s \<Rightarrow> (object_key \<rightharpoonup> bytes) \<Rightarrow> bool"
    and allowed :: "'e \<Rightarrow> store_call \<Rightarrow> store_reply \<Rightarrow> bool"
    and shape :: "store_reply \<Rightarrow> store_reply"
  assumes step_match: "rel s m \<Longrightarrow> do_call map_spec (seed e) c m = (r, m') \<Longrightarrow> allowed e c r \<Longrightarrow>
    \<exists>q s'. step e c s = Some (q, s') \<and> shape q = shape r \<and> rel s' m'"
begin

lemma session_match:
  assumes "rel s m" "list_all2 (\<lambda>(e, c) r. allowed e c r) cs (session map_spec (map (apfst seed) cs) m)"
  shows "\<exists>qs. run_session step cs s = Some qs
    \<and> map shape qs = map shape (session map_spec (map (apfst seed) cs) m)"
  using assms
proof (induction cs arbitrary: s m)
  case Nil
  then show ?case by simp
next
  case (Cons p cs)
  obtain e c where p: "p = (e, c)" by (cases p)
  obtain r m' where call: "do_call map_spec (seed e) c m = (r, m')" by (cases "do_call map_spec (seed e) c m")
  with Cons.prems(2) have ok: "allowed e c r"
    and rest: "list_all2 (\<lambda>(e, c) r. allowed e c r) cs (session map_spec (map (apfst seed) cs) m')"
    by (auto simp: p)
  from step_match [OF Cons.prems(1) call ok] obtain q s'
    where q: "step e c s = Some (q, s')" "shape q = shape r" "rel s' m'" by blast
  from Cons.IH [OF q(3) rest] obtain qs where "run_session step cs s' = Some qs"
    "map shape qs = map shape (session map_spec (map (apfst seed) cs) m')" by blast
  with q call show ?case by (simp add: p)
qed

text \<open>The same when what is allowed does not depend on the replies.\<close>

lemma session_match_all:
  assumes "rel s m" "\<And>e c r. (e, c) \<in> set cs \<Longrightarrow> allowed e c r"
  shows "\<exists>qs. run_session step cs s = Some qs
    \<and> map shape qs = map shape (session map_spec (map (apfst seed) cs) m)"
proof (rule session_match [OF assms(1)])
  show "list_all2 (\<lambda>(e, c) r. allowed e c r) cs (session map_spec (map (apfst seed) cs) m)"
  proof (rule list_all2_all_nthI)
    fix n assume "n < length cs"
    then have "(fst (cs ! n), snd (cs ! n)) \<in> set cs" by simp
    from assms(2) [OF this] show "(case cs ! n of (e, c) \<Rightarrow> allowed e c) (session map_spec (map (apfst seed) cs) m ! n)"
      by (simp add: case_prod_beta)
  qed simp
qed

end

section \<open>MemoryStore\<close>

fun no_presign :: "store_call \<Rightarrow> bool" where
  "no_presign (CallPresign k x) = False"
| "no_presign c = True"

lemma memory_spec_call:
  "no_presign c \<Longrightarrow> do_call memory_spec e c m = do_call map_spec (entropy e) c m"
  by (cases c) (simp_all add: memory_spec_def map_spec_def spec_ops_def)

sublocale key_map \<subseteq> mmatch: store_match "calls_of (memory_ops M)" entropy
  "\<lambda>st m. memory_view M st = m" "\<lambda>e c r. no_presign c" id
proof (unfold_locales, goal_cases)
  case (1 s m e c r m')
  obtain q s' where call: "do_call (memory_ops M) e c s = (q, s')" by (cases "do_call (memory_ops M) e c s")
  from call_simulation [OF call] 1 show ?case by (simp add: calls_of_def call memory_spec_call)
qed

context key_map
begin

lemma memory_session:
  assumes "\<And>e c. (e, c) \<in> set cs \<Longrightarrow> no_presign c"
  shows "session (memory_ops M) cs st = session map_spec (map (apfst entropy) cs) (memory_view M st)"
  using mmatch.session_match_all [of st _ cs] assms by force

end

interpretation xmatch: store_match "calls_of mutex_ops" entropy
  "\<lambda>st m. \<not> poisoned st \<and> memory_view hash_map_ops (unlocked st) = m" "\<lambda>e c r. no_presign c" id
proof (unfold_locales, goal_cases)
  case (1 s m e c r m')
  obtain q s' where call: "do_call mutex_ops e c s = (q, s')" by (cases "do_call mutex_ops e c s")
  from mutex_sim.sim [OF _ call] 1 have "\<not> poisoned s'" "do_call (memory_ops hash_map_ops) e c (unlocked s) = (q, unlocked s')"
    by auto
  with hash_map.call_simulation [OF this(2)] 1 show ?case by (simp add: calls_of_def call memory_spec_call)
qed

lemma mutex_session:
  assumes "\<not> poisoned st" "\<And>e c. (e, c) \<in> set cs \<Longrightarrow> no_presign c"
  shows "session mutex_ops cs st
    = session map_spec (map (apfst entropy) cs) (memory_view hash_map_ops (unlocked st))"
  using xmatch.session_match_all [of st _ cs] assms by force

end
