(* ===== verification/Cloud_Backends.thy ===== *)
theory Cloud_Backends
  imports Backends Object_Backend
begin

text \<open>
  \<open>S3Store\<close> and \<open>ObjectStoreBackend\<close> as backends behind the trait: over a service that is up and keeps
  what it documents they answer a client as the memory store does, up to the texts of errors and the
  order of a listing. S3 differs in two ways the comparison shows: a delete of a missing key
  succeeds, and there is no listing.
\<close>

section \<open>What is compared of a reply\<close>

fun without_text :: "blob_error \<Rightarrow> blob_error" where
  "without_text (NotFound m) = NotFound ''''"
| "without_text (PermissionDenied m) = PermissionDenied ''''"
| "without_text (InvalidKey m) = InvalidKey ''''"
| "without_text (Unsupported m) = Unsupported ''''"
| "without_text (Other m) = Other ''''"
| "without_text e = e"

fun reply_shape :: "store_reply \<Rightarrow> store_reply" where
  "reply_shape (ReplyId r) = ReplyId (map_err without_text r)"
| "reply_shape (ReplyBytes r) = ReplyBytes (map_err without_text r)"
| "reply_shape (ReplyUnit r) = ReplyUnit (map_err without_text r)"
| "reply_shape (ReplyBool r) = ReplyBool (map_err without_text r)"
| "reply_shape (ReplyKeys r) = ReplyKeys (map_sum without_text sort r)"
| "reply_shape (ReplyUrl r) = ReplyUrl (map_err without_text r)"

lemma is_not_found_without_text [simp]: "is_not_found e \<Longrightarrow> without_text e = NotFound ''''"
  by (cases e) auto

section \<open>S3Store\<close>

text \<open>\<open>impl BlobStore for S3Store\<close>; \<open>to_str\<close> is \<open>Url::to_string\<close>, an expiry of \<open>x\<close> seconds.\<close>

definition s3_ops :: "('s, 'url) s3_store \<Rightarrow> ('url \<Rightarrow> string) \<Rightarrow> (call_env, 's) blob_ops" where
  "s3_ops S to_str =
     \<lparr>op_put = (\<lambda>e. s3_put S (crates_of e) (entropy e)),
      op_get = (\<lambda>e. s3_get S),
      op_delete = (\<lambda>e. s3_delete S),
      op_exists = (\<lambda>e. s3_exists S),
      op_list = default_list,
      op_presigned_url = (\<lambda>e k x s. and_then (s3_presigned_url S k (unat x * 1000000000) s) (\<lambda>u. Inr (to_str u)))\<rparr>"

text \<open>A service that is up: every request is answered, and a missing object is reported as such.\<close>

definition s3_available :: "('s, 'url) s3_client \<Rightarrow> ('s \<Rightarrow> string \<times> string \<Rightarrow> bytes option) \<Rightarrow> bool" where
  "s3_available C view \<longleftrightarrow>
     (\<forall>b k ct d s. is_ok (fst (put_object C b k ct d s)))
     \<and> (\<forall>b k s. is_ok (fst (delete_object C b k s)))
     \<and> (\<forall>b k s. case get_object C b k s of Inr body \<Rightarrow> is_ok body | Inl err \<Rightarrow> absence_reported err)
     \<and> (\<forall>b k s. case head_object C b k s of Inr u \<Rightarrow> True | Inl err \<Rightarrow> absence_reported err)"

fun s3_fits :: "store_call \<Rightarrow> store_reply \<Rightarrow> bool" where
  "s3_fits (CallDelete k) r \<longleftrightarrow> r = ReplyUnit (Inr ())"
| "s3_fits (CallList p) r \<longleftrightarrow> False"
| "s3_fits (CallPresign k x) r \<longleftrightarrow> False"
| "s3_fits c r \<longleftrightarrow> True"

lemma s3_availableD:
  assumes "s3_available C view"
  shows "is_ok (fst (put_object C b k ct d s))" "is_ok (fst (delete_object C b k s))"
    and "get_object C b k s = Inr body \<Longrightarrow> is_ok body"
    and "get_object C b k s = Inl err \<Longrightarrow> absence_reported err"
    and "head_object C b k s = Inl err \<Longrightarrow> absence_reported err"
  using assms unfolding s3_available_def by (force split: sum.splits)+

lemma s3_get_match:
  assumes "s3_lawful (client S) view" "s3_available (client S) view"
  shows "map_err without_text (s3_get S k s) =
    (case s3_view view S s k of Some d \<Rightarrow> Inr d | None \<Rightarrow> Inl (NotFound ''''))"
proof (cases "s3_get S k s")
  case (Inr d)
  with s3_get_view(1) [OF assms(1)] show ?thesis by simp
next
  case (Inl err)
  then obtain e where e: "get_object (client S) (bucket_str (s3_bucket (s3_cfg S))) (as_str k) s = Inl e"
      "err = map_sdk_error e"
    using s3_availableD(3) [OF assms(2)] by (fastforce simp: s3_get_def res_simps is_ok_iff)
  from s3_availableD(4) [OF assms(2) e(1)] e(2) have nf: "is_not_found err" by (simp add: map_sdk_absence)
  then obtain m where m: "err = NotFound m" by (cases err) auto
  with Inl s3_get_view(2) [OF assms(1)] show ?thesis by simp
qed

lemma s3_exists_match:
  assumes "s3_lawful (client S) view" "s3_available (client S) view"
  shows "s3_exists S k s = Inr (s3_view view S s k \<noteq> None)"
proof -
  have "\<exists>b. s3_exists S k s = Inr b"
    using s3_availableD(5) [OF assms(2)] by (auto simp: s3_exists_def map_sdk_absence split: sum.splits)
  then show ?thesis using s3_exists_view [OF assms(1)] by blast
qed

lemma s3_put_match:
  assumes "s3_lawful (client S) view" "s3_available (client S) view"
  shows "\<exists>s'. s3_put S cr h k d s = (Inr (blob_id_new h), s') \<and> s3_view view S s' = (s3_view view S s)(k \<mapsto> d)"
proof -
  obtain r s' where put: "s3_put S cr h k d s = (r, s')" by (cases "s3_put S cr h k d s")
  with s3_availableD(1) [OF assms(2)] have "r = Inr (blob_id_new h)"
    by (auto simp: s3_put_def is_ok_iff split: prod.splits) (metis fst_conv map_err.simps(2) and_then.simps(2))
  with put s3_put_view [OF assms(1) put] show ?thesis by simp
qed

lemma s3_delete_match:
  assumes "s3_lawful (client S) view" "s3_available (client S) view"
  shows "\<exists>s'. s3_delete S k s = (Inr (), s') \<and> s3_view view S s' = (s3_view view S s)(k := None)"
proof -
  obtain q s' where del: "s3_delete S k s = (q, s')" by (cases "s3_delete S k s")
  with s3_availableD(2) [OF assms(2)] have "q = Inr ()"
    by (auto simp: s3_delete_def is_ok_iff split: prod.splits) (metis fst_conv map_err.simps(2))
  with del s3_delete_view [OF assms(1) del] show ?thesis by simp
qed

lemma s3_call_match:
  assumes "s3_lawful (client S) view" "s3_available (client S) view" "s3_fits c r"
    and "do_call map_spec (entropy e) c (s3_view view S s) = (r, m')"
  shows "\<exists>q s'. do_call (s3_ops S to_str) e c s = (q, s') \<and> reply_shape q = reply_shape r \<and> s3_view view S s' = m'"
proof (cases c)
  case (CallPut k d)
  with s3_put_match [OF assms(1,2), of "crates_of e" "entropy e" k d s] assms(4) show ?thesis
    by (auto simp: s3_ops_def map_spec_def spec_ops_def)
next
  case (CallGet k)
  with s3_get_match [OF assms(1,2), of k s] assms(4) show ?thesis
    by (auto simp: s3_ops_def map_spec_def spec_ops_def split: option.splits)
next
  case (CallDelete k)
  with s3_delete_match [OF assms(1,2), of k s] assms(3,4) show ?thesis
    by (auto simp: s3_ops_def map_spec_def spec_ops_def split: if_splits)
next
  case (CallExists k)
  with s3_exists_match [OF assms(1,2), of k s] assms(4) show ?thesis
    by (auto simp: s3_ops_def map_spec_def spec_ops_def)
qed (use assms(3) in simp_all)

interpretation smatch: store_match "calls_of (s3_ops S to_str)" entropy
  "\<lambda>s m. s3_lawful (client S) view \<and> s3_available (client S) view \<and> s3_view view S s = m"
  "\<lambda>e. s3_fits" reply_shape
  for S :: "('s, 'url) s3_store" and to_str view
proof (unfold_locales, goal_cases)
  case (1 s m e c r m')
  with s3_call_match [of S view c r e s m' to_str] show ?case by (fastforce simp: calls_of_def)
qed

section \<open>ObjectStoreBackend\<close>

text \<open>\<open>impl BlobStore for ObjectStoreBackend\<close>, for a client that has the container to itself.\<close>

definition backend_ops ::
  "('s, 'url) backend \<Rightarrow> (string \<Rightarrow> string + string) \<Rightarrow> ('url \<Rightarrow> string) \<Rightarrow> (call_env, 's) blob_ops" where
  "backend_ops B parse to_str =
     \<lparr>op_put = (\<lambda>e. backend_put B parse (entropy e)),
      op_get = (\<lambda>e. backend_get B parse),
      op_delete = (\<lambda>e. backend_delete B parse id),
      op_exists = (\<lambda>e. backend_exists B parse),
      op_list = (\<lambda>e. backend_list B parse),
      op_presigned_url = (\<lambda>e k x. backend_presigned_url B parse to_str k (unat x * 1000000000))\<rparr>"

text \<open>A service that is up, and a parser that takes the path of every valid key.\<close>

definition os_available :: "('s, 'url) os_client \<Rightarrow> bool" where
  "os_available C \<longleftrightarrow>
     (\<forall>p d s. is_ok (fst (os_put C p d s)))
     \<and> (\<forall>p s. case fst (os_delete C p s) of Inr u \<Rightarrow> True | Inl err \<Rightarrow> \<exists>m. err = OsNotFound m)
     \<and> (\<forall>p s. case os_get C p s of Inr body \<Rightarrow> is_ok body | Inl err \<Rightarrow> \<exists>m. err = OsNotFound m)
     \<and> (\<forall>p s. case os_head C p s of Inr u \<Rightarrow> True | Inl err \<Rightarrow> \<exists>m. err = OsNotFound m)
     \<and> (\<forall>p s. list_all is_ok (os_list C p s))"

text \<open>
  The prefixes that mean the same to both: the empty one and the name of a directory with its slash.
\<close>

definition dir_prefix :: "string \<Rightarrow> bool" where
  "dir_prefix p \<longleftrightarrow> p = [] \<or> trim_slashes p \<noteq> [] \<and> p = trim_slashes p @ ''/''"

fun os_fits :: "(string \<Rightarrow> string + string) \<Rightarrow> store_call \<Rightarrow> bool" where
  "os_fits parse (CallPut k d) \<longleftrightarrow> key_wf k \<and> is_ok (parse (as_str k))"
| "os_fits parse (CallGet k) \<longleftrightarrow> key_wf k \<and> is_ok (parse (as_str k))"
| "os_fits parse (CallDelete k) \<longleftrightarrow> key_wf k \<and> is_ok (parse (as_str k))"
| "os_fits parse (CallExists k) \<longleftrightarrow> key_wf k \<and> is_ok (parse (as_str k))"
| "os_fits parse (CallList p) \<longleftrightarrow> dir_prefix p \<and> is_ok (parse (trim_slashes p))"
| "os_fits parse (CallPresign k x) \<longleftrightarrow> False"

lemma os_availableD:
  assumes "os_available C"
  shows "is_ok (fst (os_put C p d s))"
    and "os_delete C p s = (Inl err, s') \<Longrightarrow> \<exists>m. err = OsNotFound m"
    and "os_get C p s = Inr body \<Longrightarrow> is_ok body"
    and "os_get C p s = Inl err \<Longrightarrow> \<exists>m. err = OsNotFound m"
    and "os_head C p s = Inl err \<Longrightarrow> \<exists>m. err = OsNotFound m"
    and "list_all is_ok (os_list C q s)"
proof -
  note c = assms [unfolded os_available_def]
  show "is_ok (fst (os_put C p d s))" "list_all is_ok (os_list C q s)" using c by simp_all
  show "\<exists>m. err = OsNotFound m" if "os_delete C p s = (Inl err, s')"
    using c [THEN conjunct2, THEN conjunct1, rule_format, of p s] that by simp
  show "is_ok body" if "os_get C p s = Inr body"
    using c [THEN conjunct2, THEN conjunct2, THEN conjunct1, rule_format, of p s] that by simp
  show "\<exists>m. err = OsNotFound m" if "os_get C p s = Inl err"
    using c [THEN conjunct2, THEN conjunct2, THEN conjunct1, rule_format, of p s] that by simp
  show "\<exists>m. err = OsNotFound m" if "os_head C p s = Inl err"
    using c [THEN conjunct2, THEN conjunct2, THEN conjunct2, THEN conjunct1, rule_format, of p s] that by simp
qed

lemma trim_slashes_Nil [simp]: "trim_slashes [] = []"
  by (simp add: trim_slashes_def)

lemma all_ok_map: "list_all is_ok xs \<Longrightarrow> \<exists>ys. xs = map Inr ys"
proof (induction xs)
  case (Cons x xs)
  then obtain y ys where "x = Inr y" "xs = map Inr ys" by (auto simp: is_ok_iff)
  then show ?case by (intro exI [of _ "y # ys"]) simp
qed simp

lemma key_path_ok:
  assumes "parse_lawful parse" "key_wf k" "is_ok (parse (as_str k))"
  shows "key_path_of parse k = Inr (as_str k)"
proof -
  from assms(3) obtain p where p: "key_path_of parse k = Inr p" by (auto simp: key_path_of_def is_ok_iff)
  with key_path_wf [OF assms(1,2) p] show ?thesis by simp
qed

lemma backend_get_match:
  assumes "os_lawful (store_of B) view" "parse_lawful parse" "key_wf k" "is_ok (parse (as_str k))"
    and "os_available (store_of B)"
  shows "map_err without_text (backend_get B parse k s) =
    (case backend_view view s k of Some d \<Rightarrow> Inr d | None \<Rightarrow> Inl (NotFound ''''))"
proof (cases "backend_get B parse k s")
  case (Inr d)
  with backend_get_view(1) [OF assms(1-3)] show ?thesis by simp
next
  case (Inl err)
  then obtain m where m: "err = NotFound m"
    using key_path_ok [OF assms(2-4)] os_availableD(3,4) [OF assms(5)]
    by (fastforce simp: backend_get_def res_simps)
  with Inl backend_get_view(2) [OF assms(1-3)] show ?thesis by simp
qed

lemma backend_exists_match:
  assumes "os_lawful (store_of B) view" "parse_lawful parse" "key_wf k" "is_ok (parse (as_str k))"
    and "os_available (store_of B)"
  shows "backend_exists B parse k s = Inr (backend_view view s k \<noteq> None)"
proof -
  have "\<exists>b. backend_exists B parse k s = Inr b"
    using key_path_ok [OF assms(2-4)] os_availableD(5) [OF assms(5)]
    by (fastforce simp: backend_exists_def split: sum.splits)
  with backend_exists_Inr [OF assms(1-3)] show ?thesis by blast
qed

lemma backend_put_match:
  assumes "os_lawful (store_of B) view" "parse_lawful parse" "key_wf k" "is_ok (parse (as_str k))"
    and "os_available (store_of B)"
  shows "\<exists>s'. backend_put B parse h k d s = (Inr (blob_id_new h), s')
    \<and> backend_view view s' = (backend_view view s)(k \<mapsto> d)"
proof -
  obtain r s' where put: "backend_put B parse h k d s = (r, s')" by (cases "backend_put B parse h k d s")
  obtain r1 s1 where p: "os_put (store_of B) (as_str k) d s = (r1, s1)" by (cases "os_put (store_of B) (as_str k) d s")
  with os_availableD(1) [OF assms(5), of "as_str k" d s] obtain u where "r1 = Inr u" by (auto simp: is_ok_iff)
  with put p have "r = Inr (blob_id_new h)" by (simp add: backend_put_def key_path_ok [OF assms(2-4)])
  with put backend_put_view [OF assms(1-3) put] show ?thesis by simp
qed

lemma backend_delete_match:
  assumes "os_lawful (store_of B) view" "parse_lawful parse" "key_wf k" "is_ok (parse (as_str k))"
    and "os_available (store_of B)"
  shows "\<exists>s'. backend_delete B parse id k s
      = (if backend_view view s k \<noteq> None then Inr () else Inl (NotFound (as_str k)), s')
    \<and> backend_view view s' = (backend_view view s)(k := None)"
proof -
  note ex = backend_exists_match [OF assms, of s] and path = key_path_ok [OF assms(2-4)]
  show ?thesis
  proof (cases "backend_view view s k")
    case None
    with ex path show ?thesis by (simp add: backend_delete_def not_found_def fun_upd_idem)
  next
    case (Some d)
    obtain q s' where del: "os_delete (store_of B) (as_str k) s = (q, s')" by (cases "os_delete (store_of B) (as_str k) s")
    then have "backend_delete B parse id k s = (Inr (), s')"
      using Some ex path os_availableD(2) [OF assms(5)]
      by (cases q) (fastforce simp: backend_delete_def not_found_def)+
    with backend_delete_view(1) [OF assms(1-3) this] Some show ?thesis by simp
  qed
qed

lemma backend_list_match:
  assumes "os_lawful (store_of B) view" "parse_lawful parse" "dir_prefix p" "is_ok (parse (trim_slashes p))"
    and "os_available (store_of B)" "\<forall>k \<in> dom (backend_view view s). key_wf k"
  shows "map_sum without_text sort (backend_list B parse p s) =
    Inr (sorted_list_of_set {k \<in> dom (backend_view view s). starts_with (as_str k) p})"
proof -
  let ?t = "trim_slashes p"
  let ?p = "if ?t = [] then None else Some ?t"
  obtain ls where ls: "os_list (store_of B) ?p s = map Inr ls"
    using all_ok_map [OF os_availableD(6) [OF assms(5)]] by blast
  have "parse ?t = Inr ?t"
    using assms(2,4) trim_slashes_ends [of p] by (auto simp: parse_lawful_def is_ok_iff)
  then have "backend_list B parse p s =
      Inr (map ObjectKey (filter (\<lambda>l. starts_with l p \<and> key_str_wf l) ls))" (is "_ = Inr ?ks")
    using ls collect_keys_map_Inr [of p ls "[]"]
    by (auto simp: backend_list_def Let_def key_path_of_def key_new_unchecked_def)
  note res = this
  have law: "distinct ls" "set ls = {l. view s l \<noteq> None \<and> os_under ?p l}"
    using os_lawfulD(9) [OF assms(1) ls] by simp_all
  have d: "distinct ?ks" using law(1) by (auto simp: distinct_map inj_on_def)
  have st: "set ?ks = {k \<in> dom (backend_view view s). starts_with (as_str k) p}"
  proof -
    have "k \<in> set ?ks \<longleftrightarrow> as_str k \<in> set ls \<and> starts_with (as_str k) p \<and> key_wf k" for k
      by (cases k) (auto simp: key_wf_def)
    moreover have "os_under ?p (as_str k)" if "starts_with (as_str k) p" for k
      using that assms(3) by (auto simp: os_under_def dir_prefix_def)
    ultimately show ?thesis using assms(6) law(2) by (auto simp: backend_view_def dom_def)
  qed
  have "sort ?ks = sorted_list_of_set (set ?ks)"
    using d by (simp only: sorted_list_of_set_sort_remdups distinct_remdups_id)
  then show ?thesis by (simp only: res map_sum.simps st)
qed

lemma backend_call_match:
  assumes "os_lawful (store_of B) view" "os_available (store_of B)" "parse_lawful parse"
    and "\<forall>k \<in> dom (backend_view view s). key_wf k" "os_fits parse c"
    and "do_call map_spec (entropy e) c (backend_view view s) = (r, m')"
  shows "\<exists>q s'. do_call (backend_ops B parse to_str) e c s = (q, s') \<and> reply_shape q = reply_shape r
    \<and> backend_view view s' = m' \<and> (\<forall>k \<in> dom m'. key_wf k)"
proof (cases c)
  case (CallPut k d)
  with backend_put_match [OF assms(1,3) _ _ assms(2), of k "entropy e" d s] assms(4-6) show ?thesis
    by (auto simp: backend_ops_def map_spec_def spec_ops_def)
next
  case (CallGet k)
  with backend_get_match [OF assms(1,3) _ _ assms(2), of k s] assms(4-6) show ?thesis
    by (auto simp: backend_ops_def map_spec_def spec_ops_def split: option.splits)
next
  case (CallDelete k)
  with backend_delete_match [OF assms(1,3) _ _ assms(2), of k s] assms(4-6) show ?thesis
    by (auto simp: backend_ops_def map_spec_def spec_ops_def split: if_splits)
next
  case (CallExists k)
  with backend_exists_match [OF assms(1,3) _ _ assms(2), of k s] assms(4-6) show ?thesis
    by (auto simp: backend_ops_def map_spec_def spec_ops_def)
next
  case (CallList p)
  with backend_list_match [OF assms(1,3) _ _ assms(2,4), of p] assms(4-6) show ?thesis
    by (auto simp: backend_ops_def map_spec_def spec_ops_def sorted_sort_id)
qed (use assms(5) in simp)

interpretation omatch: store_match "calls_of (backend_ops B parse to_str)" entropy
  "\<lambda>s m. os_lawful (store_of B) view \<and> os_available (store_of B) \<and> parse_lawful parse
     \<and> backend_view view s = m \<and> (\<forall>k \<in> dom m. key_wf k)"
  "\<lambda>e c r. os_fits parse c" reply_shape
  for B :: "('s, 'url) backend" and parse to_str view
proof (unfold_locales, goal_cases)
  case (1 s m e c r m')
  with backend_call_match [of B view parse s c e r m' to_str] show ?case by (fastforce simp: calls_of_def)
qed

lemma s3_session:
  assumes "s3_lawful (client S) view" "s3_available (client S) view" "s3_view view S s = m"
    and "list_all2 (\<lambda>(e, c). s3_fits c) cs (session map_spec (map (apfst entropy) cs) m)"
  shows "map reply_shape (session (s3_ops S to_str) cs s)
    = map reply_shape (session map_spec (map (apfst entropy) cs) m)"
  using smatch.session_match [where S = S and view = view and s = s and m = m and cs = cs and to_str = to_str] assms
  by simp

lemma backend_session:
  assumes "os_lawful (store_of B) view" "os_available (store_of B)" "parse_lawful parse"
    and "backend_view view s = m" "\<forall>k \<in> dom m. key_wf k" "\<And>e c. (e, c) \<in> set cs \<Longrightarrow> os_fits parse c"
  shows "map reply_shape (session (backend_ops B parse to_str) cs s)
    = map reply_shape (session map_spec (map (apfst entropy) cs) m)"
  using omatch.session_match_all [where B = B and view = view and parse = parse and s = s and m = m and cs = cs
      and to_str = to_str] assms
  by force

section \<open>Properties\<close>

text \<open>C25. The cloud backends behind the trait. Over a service that is up and does what it documents, an
  \<open>object_store\<close> backend answers every session of puts, gets, deletes, existence checks and directory
  listings by validated keys as the memory store does, and S3 every session without listings whose
  deletes find their key: the same payloads and outcomes, up to the texts of errors and the order of a
  listing. Without that last condition they differ: deleting a missing key is \<open>Ok\<close> on S3 and \<open>NotFound\<close>
  on the others, and S3 reports listing as unsupported.\<close>

theorem cloud_interchangeable:
  assumes "key_map M" "memory_view M st = m"
    and "os_lawful (store_of B) view" "os_available (store_of B)" "parse_lawful parse"
    and "backend_view view s = m" "\<forall>k \<in> dom m. key_wf k" "\<And>e c. (e, c) \<in> set cs \<Longrightarrow> os_fits parse c"
    and "s3_lawful (client S) view'" "s3_available (client S) view'" "s3_view view' S s' = m"
  shows "map reply_shape (session (backend_ops B parse to_str) cs s)
      = map reply_shape (session (memory_ops M) cs st)
    \<and> (list_all2 (\<lambda>(e, c). s3_fits c) cs (session (memory_ops M) cs st) \<longrightarrow>
        map reply_shape (session (s3_ops S to_str') cs s') = map reply_shape (session (memory_ops M) cs st))
    \<and> (m k = None \<longrightarrow> fst (op_delete (s3_ops S to_str') e k s') = Inr ()
        \<and> fst (op_delete (memory_ops M) e k st) = Inl (NotFound (as_str k)))
    \<and> op_list (s3_ops S to_str') e p s' = Inl (Unsupported ''list is not supported by this backend'')"
proof -
  have "os_fits parse c \<Longrightarrow> no_presign c" for c by (cases c) auto
  with assms(8) have mem: "session (memory_ops M) cs st = session map_spec (map (apfst entropy) cs) m"
    using key_map.memory_session [OF assms(1), of cs st] assms(2) by blast
  have "fst (op_delete (s3_ops S to_str') e k s') = Inr ()"
    using s3_delete_match [OF assms(9,10), of k s'] by (auto simp: s3_ops_def)
  moreover have "fst (op_delete (memory_ops M) e k st) = Inl (NotFound (as_str k))" if "m k = None"
    using key_map.remove_fst [OF assms(1), of k "inner st"] assms(2) that
    by (auto simp: memory_ops_def memory_delete_def memory_view_def not_found_def Let_def case_prod_beta)
  ultimately show ?thesis
    using backend_session [OF assms(3-8)] s3_session [OF assms(9-11)]
    by (simp add: mem) (simp add: s3_ops_def default_list_def unsupported_def)
qed

lemma list_client_available: "os_available (store_of list_backend)"
  by (simp add: os_available_def list_backend_def list_client_def list_all_iff split: option.splits)

lemma map_client_available: "s3_available (client map_s3) (\<lambda>s. s)"
  by (simp add: s3_available_def map_s3_def map_client_def missing_error_def absence_reported_def
      split: option.splits)

theorem cloud_interchangeable_witness:
  "map reply_shape (session (backend_ops list_backend Inr id)
      [(plain_env, CallPut (ObjectKey ''a/b'') [7]), (plain_env, CallGet (ObjectKey ''a/b'')),
       (plain_env, CallGet (ObjectKey ''c''))] [])
    = [ReplyId (Inr (blob_id_new 1)), ReplyBytes (Inr [7]), ReplyBytes (Inl (NotFound ''''))]
   \<and> map reply_shape (session (s3_ops map_s3 id)
      [(plain_env, CallPut (ObjectKey ''a/b'') [7]), (plain_env, CallGet (ObjectKey ''a/b'')),
       (plain_env, CallGet (ObjectKey ''c''))] Map.empty)
    = [ReplyId (Inr (blob_id_new 1)), ReplyBytes (Inr [7]), ReplyBytes (Inl (NotFound ''''))]"
proof -
  define cs where "cs = [(plain_env, CallPut (ObjectKey ''a/b'') [7]), (plain_env, CallGet (ObjectKey ''a/b'')),
    (plain_env, CallGet (ObjectKey ''c''))]"
  have "key_wf (ObjectKey ''a/b'')" "key_wf (ObjectKey ''c'')"
    by (simp_all add: key_wf_def key_str_wf_def max_key_len_def)
  then have fits: "os_fits Inr c" if "(e, c) \<in> set cs" for e c using that by (auto simp: cs_def)
  have new: "memory_view hash_map_ops (memory_new hash_map_ops) = Map.empty"
    by (simp add: memory_view_def memory_new_def fun_eq_iff)
  have views: "backend_view map_of [] = Map.empty" "s3_view (\<lambda>s. s) map_s3 Map.empty = Map.empty"
    by (simp_all add: backend_view_def s3_view_def fun_eq_iff)
  have mem: "session (memory_ops hash_map_ops) cs (memory_new hash_map_ops)
      = [ReplyId (Inr (blob_id_new 1)), ReplyBytes (Inr [7]), ReplyBytes (Inl (NotFound ''c''))]"
    by (simp add: cs_def memory_ops_def memory_put_def memory_get_def memory_new_def Let_def plain_env_def not_found_def)
  then have "list_all2 (\<lambda>(e, c). s3_fits c) cs (session (memory_ops hash_map_ops) cs (memory_new hash_map_ops))"
    by (simp add: cs_def)
  with cloud_interchangeable [where cs = cs, OF hash_map.key_map_axioms new list_client_lawful list_client_available
      parse_Inr_lawful views(1) _ fits map_client_lawful map_client_available views(2), where to_str = id and to_str' = id]
  have "map reply_shape (session (backend_ops list_backend Inr id) cs [])
      = map reply_shape (session (memory_ops hash_map_ops) cs (memory_new hash_map_ops))
    \<and> map reply_shape (session (s3_ops map_s3 id) cs Map.empty)
      = map reply_shape (session (memory_ops hash_map_ops) cs (memory_new hash_map_ops))"
    by simp
  then show ?thesis unfolding mem unfolding cs_def by simp
qed

end
