(* ===== verification/Tree_Backends.thy ===== *)
theory Tree_Backends
  imports Backends Ring_Store
begin

text \<open>
  \<open>LocalStore\<close> and \<open>IoUringStore\<close> as backends: on keys that do not get in each other's way, in a quiet
  environment, a directory tree represents the map of the specification and every call keeps it so.
  Then the memory store, its mutex build, the file-system store and the ring store are
  interchangeable behind the trait.
\<close>

section \<open>Trees that represent a map\<close>

text \<open>
  A key set fit for a file system: no key is a directory of another, and no component looks like a
  temporary file.
\<close>

definition keys_apart :: "object_key set \<Rightarrow> bool" where
  "keys_apart K \<longleftrightarrow> (\<forall>k \<in> K. local_ok_key k \<and> (\<forall>c \<in> set (key_components k). \<not> starts_with c ''.blobkit-''))
     \<and> (\<forall>j \<in> K. \<forall>k \<in> K. \<not> strict_prefix (key_components j) (key_components k))"

text \<open>Below the root: the files are the map's objects, the directories lie on the way to keys.\<close>

definition represents :: "path \<Rightarrow> object_key set \<Rightarrow> node \<Rightarrow> (object_key \<rightharpoonup> bytes) \<Rightarrow> bool" where
  "represents r K fs m \<longleftrightarrow> fs_wf fs \<and> list_all name_ok r \<and> dir_at fs r \<and> dom m \<subseteq> K
     \<and> (\<forall>k d. m k = Some d \<longrightarrow> length d < 2 ^ 64)
     \<and> (\<forall>k \<in> K. file_at fs (r @ key_components k) = m k)
     \<and> (\<forall>q d. file_at fs (r @ q) = Some d \<longrightarrow> (\<exists>k \<in> K. q = key_components k))
     \<and> (\<forall>q. dir_at fs (r @ q) \<longrightarrow> q = [] \<or> (\<exists>k \<in> K. strict_prefix q (key_components k)))"

lemma keys_apartD:
  assumes "keys_apart K" "k \<in> K"
  shows "local_ok_key k" and "c \<in> set (key_components k) \<Longrightarrow> \<not> starts_with c ''.blobkit-''"
    and "j \<in> K \<Longrightarrow> \<not> strict_prefix (key_components j) (key_components k)"
  using assms by (auto simp: keys_apart_def)

lemma representsD:
  assumes "represents r K fs m"
  shows "fs_wf fs" "list_all name_ok r" "dir_at fs r" "dom m \<subseteq> K"
    and "m k = Some d \<Longrightarrow> length d < 2 ^ 64"
    and "k \<in> K \<Longrightarrow> file_at fs (r @ key_components k) = m k"
    and "file_at fs (r @ q) = Some d \<Longrightarrow> \<exists>k \<in> K. q = key_components k"
    and "dir_at fs (r @ q) \<Longrightarrow> q = [] \<or> (\<exists>k \<in> K. strict_prefix q (key_components k))"
  using assms unfolding represents_def by blast+

lemma represents_no_dir:
  assumes "keys_apart K" "represents r K fs m" "k \<in> K"
  shows "\<not> dir_at fs (r @ key_components k)"
  using representsD(8) [OF assms(2), of "key_components k"] keys_apartD(3) [OF assms(1) _ assms(3)] by auto

lemma represents_no_file_above:
  assumes "keys_apart K" "represents r K fs m" "k \<in> K" "strict_prefix q (r @ key_components k)"
  shows "file_at fs q = None"
proof (cases "prefix q r")
  case True
  then obtain t where t: "r = q @ t" by (auto simp: prefix_def)
  have "dir_at fs q" using representsD(3) [OF assms(2)] unfolding t by (rule dir_at_ancestor)
  then show ?thesis by (auto simp: dir_at_iff file_at_def)
next
  case False
  with assms(4) obtain t where q: "q = r @ t" "strict_prefix t (key_components k)"
    by (auto simp: strict_prefix_def prefix_append)
  have "file_at fs q \<noteq> Some d" for d
  proof
    assume "file_at fs q = Some d"
    with representsD(7) [OF assms(2)] q(1) obtain j where "j \<in> K" "t = key_components j" by blast
    with q(2) keys_apartD(3) [OF assms(1,3)] show False by blast
  qed
  then show ?thesis by (cases "file_at fs q") auto
qed

text \<open>Nothing has the name of a temporary file.\<close>

lemma represents_temp_free:
  assumes "keys_apart K" "represents r K fs m" "starts_with c ''.blobkit-''"
  shows "node_at fs (r @ q @ [c]) = None"
proof (cases fs "r @ q @ [c]" rule: node_cases_at)
  case (RegFile d)
  with representsD(7) [OF assms(2), of "q @ [c]" d] obtain k where k: "k \<in> K" "key_components k = q @ [c]" by auto
  with keys_apartD(2) [OF assms(1), of k c] assms(3) show ?thesis by simp
next
  case (Directory es)
  with representsD(8) [OF assms(2), of "q @ [c]"] obtain k where "k \<in> K" "strict_prefix (q @ [c]) (key_components k)" by auto
  then have "c \<in> set (key_components k)" by (auto simp: strict_prefix_def prefix_def)
  with keys_apartD(2) [OF assms(1) \<open>k \<in> K\<close>, of c] assms(3) show ?thesis by simp
qed

text \<open>A tree with one file more (or changed), and the directories above it.\<close>

definition adds :: "path \<Rightarrow> bytes \<Rightarrow> node \<Rightarrow> node \<Rightarrow> bool" where
  "adds p d fs fs' \<longleftrightarrow> fs_wf fs' \<and> file_at fs' = (file_at fs)(p \<mapsto> d)
     \<and> (\<forall>q. dir_at fs' q \<longleftrightarrow> dir_at fs q \<or> prefix q (butlast p))"

lemma represents_put:
  assumes "keys_apart K" "represents r K fs m" "k \<in> K" "length d < 2 ^ 64" "adds (r @ key_components k) d fs fs'"
  shows "represents r K fs' (m(k \<mapsto> d))"
proof -
  note R = representsD [OF assms(2)]
  have add: "fs_wf fs'" "file_at fs' = (file_at fs)(r @ key_components k \<mapsto> d)"
    "\<And>q. dir_at fs' q \<longleftrightarrow> dir_at fs q \<or> prefix q (butlast (r @ key_components k))"
    using assms(5) by (simp_all add: adds_def)
  have "q = [] \<or> (\<exists>j \<in> K. strict_prefix q (key_components j))" if "dir_at fs' (r @ q)" for q
  proof (cases "dir_at fs (r @ q)")
    case True
    then show ?thesis by (rule R(8))
  next
    case False
    with that add(3) have "prefix (r @ q) (r @ butlast (key_components k))" by (simp add: butlast_append)
    then have "prefix q (butlast (key_components k))" by simp
    then show ?thesis using strict_prefix_butlast [of q "key_components k"] assms(3) by auto
  qed
  moreover have "\<exists>j \<in> K. q = key_components j" if "file_at fs' (r @ q) = Some x" for q x
    using that assms(3) add(2) R(7) [of q x] by (auto split: if_splits)
  moreover have "file_at fs' (r @ key_components j) = (m(k \<mapsto> d)) j" if "j \<in> K" for j
    using that add(2) R(6) [OF that] by (auto simp: key_components_inj)
  moreover have "length x < 2 ^ 64" if "(m(k \<mapsto> d)) j = Some x" for j x
    using that assms(4) R(5) [of j x] by (auto split: if_splits)
  moreover have "dir_at fs' r" using R(3) add(3) by blast
  ultimately show ?thesis
    unfolding represents_def using R(2,4) assms(3) add(1) by (auto simp del: fun_upd_apply)
qed

text \<open>It does not touch a store rooted elsewhere.\<close>

lemma represents_elsewhere:
  assumes "represents r K fs m" "adds (r' @ p) d fs fs'" "p \<noteq> []" "parallel r r'"
  shows "represents r K fs' m"
proof -
  have apart: "\<not> prefix (r @ q) (r' @ t)" for q t
    using assms(4) by (meson append_prefixD parallelE prefix_same_cases prefixI)
  have "file_at fs' (r @ q) = file_at fs (r @ q)" for q
    using assms(2) apart [of q p] by (auto simp: adds_def)
  moreover have "dir_at fs' (r @ q) \<longleftrightarrow> dir_at fs (r @ q)" for q
    using assms(2,3) apart [of q "butlast p"] by (auto simp: adds_def butlast_append)
  moreover from this [of "[]"] have "dir_at fs' r \<longleftrightarrow> dir_at fs r" by simp
  ultimately show ?thesis using assms(1,2) by (simp add: represents_def adds_def)
qed

lemma represents_cong:
  "represents r K fs m \<Longrightarrow> fs_wf fs' \<Longrightarrow> file_at fs' = file_at fs \<Longrightarrow> dir_at fs' = dir_at fs \<Longrightarrow> represents r K fs' m"
  by (simp add: represents_def)

lemma represents_delete:
  assumes "represents r K fs m" "k \<in> K" "fs_wf fs'"
    and "file_at fs' = (file_at fs)(r @ key_components k := None)" "dir_at fs' = dir_at fs"
  shows "represents r K fs' (m(k := None))"
proof -
  note R = representsD [OF assms(1)]
  have "\<exists>j \<in> K. q = key_components j" if "file_at fs' (r @ q) = Some x" for q x
    using that assms(4) R(7) [of q x] by (auto split: if_splits)
  moreover have "file_at fs' (r @ key_components j) = (m(k := None)) j" if "j \<in> K" for j
    using that assms(4) R(6) [OF that] by (auto simp: key_components_inj)
  moreover have "length x < 2 ^ 64" if "(m(k := None)) j = Some x" for j x
    using that R(5) [of j x] by (auto split: if_splits)
  ultimately show ?thesis
    unfolding represents_def using R(2,3,4,8) assms(3,5) by (auto simp del: fun_upd_apply)
qed

text \<open>A fresh root represents the empty map.\<close>

lemma represents_empty:
  assumes "fs_wf fs" "list_all name_ok r" "node_at fs r = Some (Dir [])"
  shows "represents r K fs Map.empty"
proof -
  have "file_at fs (r @ q) = None" "dir_at fs (r @ q) \<longleftrightarrow> q = []" for q
    using assms(3) by (cases q; simp add: file_at_def dir_at_def node_at_append)+
  moreover from this(2) [of "[]"] have "dir_at fs r" by simp
  ultimately show ?thesis using assms by (simp add: represents_def)
qed

section \<open>The operations on such a tree\<close>

text \<open>The calls on the key set within the size limit; \<open>presigned_url\<close> depends on the backend.\<close>

fun call_fits :: "u64 option \<Rightarrow> object_key set \<Rightarrow> store_call \<Rightarrow> bool" where
  "call_fits limit K (CallPut k d) \<longleftrightarrow> k \<in> K \<and> \<not> over_limit limit d \<and> length d < 2 ^ 64"
| "call_fits limit K (CallGet k) \<longleftrightarrow> k \<in> K"
| "call_fits limit K (CallDelete k) \<longleftrightarrow> k \<in> K"
| "call_fits limit K (CallExists k) \<longleftrightarrow> k \<in> K"
| "call_fits limit K (CallList p) \<longleftrightarrow> True"
| "call_fits limit K (CallPresign k x) \<longleftrightarrow> False"

lemma represents_view: "represents (root L) K fs m \<Longrightarrow> k \<in> K \<Longrightarrow> local_view L fs k = m k"
  by (simp add: local_view_def key_path_def representsD(6))

lemma represents_invar: "represents (root L) K fs m \<Longrightarrow> local_invar L fs"
  by (simp add: local_invar_def representsD(1,2))

lemma represents_absent:
  assumes "keys_apart K" "represents (root L) K fs m" "k \<in> K" "m k = None"
  shows "lookup_path fs (key_path L k) = Inl ENOENT"
proof (rule lookup_missing)
  have none: "file_at fs (key_path L k) = None"
    using representsD(6) [OF assms(2,3)] assms(4) by (simp add: key_path_def)
  show "node_at fs (key_path L k) = None"
    using none represents_no_dir [OF assms(1-3)] by (simp add: node_at_None_iff key_path_def)
  show "file_at fs q = None" if "prefix q (key_path L k)" for q
    using that none represents_no_file_above [OF assms(1-3), of q]
    by (cases "q = key_path L k") (auto simp: strict_prefix_def key_path_def)
qed

lemma local_get_match:
  assumes "keys_apart K" "represents (root L) K fs m" "k \<in> K" "local_quiet e"
  shows "local_get L e k fs = (case m k of Some d \<Rightarrow> Inr d | None \<Rightarrow> Inl (NotFound (as_str k)))"
proof (cases "m k")
  case None
  with represents_absent [OF assms(1-3)] assms(4) show ?thesis
    by (simp add: local_get_def ok_key_resolve [OF keys_apartD(1) [OF assms(1,3)]] sys_read_def
        local_quiet_def no_faults_def decode_errno_def)
next
  case (Some d)
  then show ?thesis
    using local_get_quiet [OF keys_apartD(1) [OF assms(1,3)] assms(4)] represents_view [OF assms(2,3)] by simp
qed

lemma local_exists_match:
  assumes "keys_apart K" "represents (root L) K fs m" "k \<in> K" "local_quiet e"
  shows "local_exists L e k fs = Inr (k \<in> dom m)"
proof (cases "m k")
  case None
  with represents_absent [OF assms(1-3)] assms(4) show ?thesis
    by (auto simp: local_exists_def ok_key_resolve [OF keys_apartD(1) [OF assms(1,3)]] sys_stat_def
        local_quiet_def no_faults_def decode_errno_def)
next
  case (Some d)
  then show ?thesis
    using local_exists_stored [OF keys_apartD(1) [OF assms(1,3)] assms(4)] represents_view [OF assms(2,3)] by auto
qed

lemma local_delete_match:
  assumes "keys_apart K" "represents (root L) K fs m" "k \<in> K" "local_quiet e"
  shows "\<exists>fs'. local_delete L e k fs = (if k \<in> dom m then Inr () else Inl (NotFound (as_str k)), fs')
    \<and> represents (root L) K fs' (m(k := None))"
proof -
  note ok = keys_apartD(1) [OF assms(1,3)]
  obtain q fs' where del: "local_delete L e k fs = (q, fs')" by (cases "local_delete L e k fs")
  note eff = local_delete_effect [OF ok del]
  have wf: "fs_wf fs'" using local_delete_wf [OF representsD(1) [OF assms(2)], of L e k] del by simp
  show ?thesis
  proof (cases "m k")
    case None
    have "q = Inl (NotFound (as_str k))" "fs' = fs"
      using del represents_absent [OF assms(1-3) None] assms(4)
      by (auto simp: local_delete_def ok_key_resolve [OF ok] sys_unlink_def local_quiet_def no_faults_def
          decode_errno_def)
    with None del assms(2) show ?thesis by (auto simp: fun_upd_idem)
  next
    case (Some d)
    with represents_view [OF assms(2,3)] have "node_at fs (key_path L k) = Some (File d)"
      by (simp add: local_view_def file_at_iff)
    then have "q = Inr ()"
      using del assms(4)
      by (auto simp: local_delete_def ok_key_resolve [OF ok] sys_unlink_def local_quiet_def no_faults_def lookup_at)
    with eff have "represents (root L) K fs' (m(k := None))"
      by (intro represents_delete [OF assms(2,3) wf]) (simp_all add: key_path_def)
    with del Some \<open>q = Inr ()\<close> show ?thesis by auto
  qed
qed

lemma local_list_match:
  assumes "keys_apart K" "represents (root L) K fs m" "local_env_ok e" "local_quiet e"
  shows "local_list L e p fs = Inr (sorted_list_of_set {k \<in> dom m. starts_with (as_str k) p})"
proof -
  note inv = represents_invar [OF assms(2)]
  obtain out where "local_walk (faults_of e) (to_string_lossy e) (root L) p fs [root L] [] = Inr out"
    using local_walk_ok [of "faults_of e" fs "[root L]" "to_string_lossy e" "root L" p "[]"] assms(4)
      representsD(1,3) [OF assms(2)] by (auto simp only: local_quiet_def list.set)
  then obtain ks where ks: "local_list L e p fs = Inr ks" by (simp add: local_list_def)
  have "k \<in> set ks \<longleftrightarrow> k \<in> dom m \<and> starts_with (as_str k) p" for k
  proof -
    have "k \<in> K" if "local_view L fs k = Some d" for d
    proof -
      from that have "file_at fs (root L @ key_components k) = Some d" by (simp add: local_view_def key_path_def)
      from representsD(7) [OF assms(2) this] show ?thesis by (auto simp: key_components_inj)
    qed
    then have "local_view L fs k \<noteq> None \<longleftrightarrow> k \<in> dom m"
      using represents_view [OF assms(2), of k] representsD(4) [OF assms(2)] by (cases "m k") auto
    moreover have "key_wf k \<and> utf8_valid (as_str k)" if "k \<in> dom m"
      using that representsD(4) [OF assms(2)] keys_apartD(1) [OF assms(1), of k] by (auto simp: local_ok_key_def)
    ultimately show ?thesis using local_list_exact [OF ks inv assms(3)] by blast
  qed
  then have "{k \<in> dom m. starts_with (as_str k) p} = set ks" by auto
  then show ?thesis
    using ks local_list_exact [OF ks inv assms(3)] by (simp add: sorted_list_of_set.idem_if_sorted_distinct)
qed

lemma put_conditions:
  assumes "keys_apart K" "represents (root L) K fs m" "k \<in> K"
  shows "strict_prefix q (key_path L k) \<Longrightarrow> file_at fs q = None" "\<not> dir_at fs (key_path L k)"
    and "starts_with c ''.blobkit-'' \<Longrightarrow> node_at fs (butlast (key_path L k) @ [c]) = None"
  using represents_no_file_above [OF assms, of q] represents_no_dir [OF assms]
    represents_temp_free [OF assms(1,2), of c "butlast (key_components k)"]
  by (simp_all add: key_path_def butlast_append)

lemma local_put_match:
  assumes "keys_apart K" "represents (root L) K fs m" "k \<in> K" "local_env_ok e" "local_quiet e"
    and "\<not> over_limit (max_bytes L) d" "length d < 2 ^ 64"
  shows "\<exists>fs'. local_put L e k d fs = (Inr (blob_id_new (entropy e)), fs') \<and> represents (root L) K fs' (m(k \<mapsto> d))
    \<and> adds (root L @ key_components k) d fs fs'"
proof -
  note ok = keys_apartD(1) [OF assms(1,3)] and C = put_conditions [OF assms(1-3)]
  have "node_at fs (tmp_path L e k) = None" unfolding tmp_path_def by (rule C(3)) (simp add: str_simps)
  from local_put_quiet [OF ok assms(5,6) C(1,2) this] obtain fs'
    where put: "local_put L e k d fs = (Inr (blob_id_new (entropy e)), fs')"
      "file_at fs' = (file_at fs)(key_path L k \<mapsto> d)"
      "\<And>q. dir_at fs' q \<longleftrightarrow> dir_at fs q \<or> prefix q (butlast (key_path L k))" by blast
  have "fs_wf fs'" using local_put_wf [OF represents_invar [OF assms(2)] assms(4) ok, of d] put(1) by simp
  with put(2,3) have "adds (root L @ key_components k) d fs fs'" by (simp add: adds_def key_path_def)
  with represents_put [OF assms(1-3,7) this] put(1) show ?thesis by blast
qed

section \<open>LocalStore\<close>

lemma local_call_match:
  assumes "keys_apart K" "represents (root L) K fs m" "local_env_ok e" "local_quiet e" "call_fits (max_bytes L) K c"
    and "do_call map_spec (entropy e) c m = (r, m')"
  shows "\<exists>fs'. do_call (local_ops L) e c fs = (r, fs') \<and> represents (root L) K fs' m'"
proof (cases c)
  case (CallPut k d)
  with local_put_match [OF assms(1,2) _ assms(3,4), of k d] assms(5,6) show ?thesis
    by (auto simp: local_ops_def map_spec_def spec_ops_def)
next
  case (CallDelete k)
  with local_delete_match [OF assms(1,2) _ assms(4), of k] assms(5,6) show ?thesis
    by (auto simp: local_ops_def map_spec_def spec_ops_def)
qed (use assms local_get_match [OF assms(1,2) _ assms(4)] local_exists_match [OF assms(1,2) _ assms(4)]
       local_list_match [OF assms(1-4)] in \<open>auto simp: local_ops_def map_spec_def spec_ops_def\<close>)

interpretation lmatch: store_match "calls_of (local_ops L)" entropy
  "\<lambda>fs m. keys_apart K \<and> represents (root L) K fs m"
  "\<lambda>e c r. local_env_ok e \<and> local_quiet e \<and> call_fits (max_bytes L) K c" id
  for L K
proof (unfold_locales, goal_cases)
  case (1 s m e c r m')
  with local_call_match [of K L s m e c r m'] show ?case by (auto simp: calls_of_def)
qed

lemma local_session:
  assumes "keys_apart K" "represents (root L) K fs m"
    and "\<And>e c. (e, c) \<in> set cs \<Longrightarrow> local_env_ok e \<and> local_quiet e \<and> call_fits (max_bytes L) K c"
  shows "session (local_ops L) cs fs = session map_spec (map (apfst entropy) cs) m"
  using lmatch.session_match_all [of K L fs m cs] assms by force

section \<open>IoUringStore\<close>

fun ring_call :: "ring_store \<Rightarrow> (ring_env, node) transition" where
  "ring_call R e (CallPut k d) fs = map_option (apfst ReplyId) (ring_put R e k d fs)"
| "ring_call R e (CallGet k) fs = map_option (\<lambda>r. (ReplyBytes r, fs)) (ring_get R e k fs)"
| "ring_call R e (CallDelete k) fs = (let (r, fs') = ring_delete R e k fs in Some (ReplyUnit r, fs'))"
| "ring_call R e (CallExists k) fs = Some (ReplyBool (ring_exists R e k fs), fs)"
| "ring_call R e (CallList p) fs = Some (ReplyKeys (ring_list R e p fs), fs)"
| "ring_call R e (CallPresign k x) fs = Some (ReplyUrl (ring_presigned_url R e k x fs), fs)"

text \<open>
  A quiet environment for a call: no fault, no failed task, and a kernel that keeps its promises and
  makes progress, for writes or for reads.
\<close>

fun is_put :: "store_call \<Rightarrow> bool" where
  "is_put (CallPut k d) = True"
| "is_put c = False"

definition ring_quiet :: "ring_env \<Rightarrow> bool \<Rightarrow> bool" where
  "ring_quiet e w \<longleftrightarrow> local_env_ok (base e) \<and> local_quiet (base e) \<and> join_error e = None
     \<and> lawful_kernel (kernel_of e) w \<and> healthy_kernel (kernel_of e) w"

lemma ring_quietD:
  assumes "ring_quiet e w"
  shows "local_env_ok (base e)" "local_quiet (base e)" "faults_of (base e) = no_faults" "join_error e = None"
    "lawful_kernel (kernel_of e) w" "healthy_kernel (kernel_of e) w"
  using assms by (auto simp: ring_quiet_def local_quiet_def)

lemma as_local_root [simp]: "root (as_local R) = ring_root R" "max_bytes (as_local R) = ring_max_bytes R"
  by (simp_all add: as_local_def)

lemma ring_put_match:
  assumes "keys_apart K" "represents (ring_root R) K fs m" "k \<in> K" "ring_quiet e True"
    and "\<not> over_limit (ring_max_bytes R) d" "length d < 2 ^ 64"
  shows "\<exists>fs'. ring_put R e k d fs = Some (Inr (blob_id_new (entropy (base e))), fs')
    \<and> represents (ring_root R) K fs' (m(k \<mapsto> d)) \<and> adds (ring_root R @ key_components k) d fs fs'"
proof -
  let ?L = "as_local R"
  have rep: "represents (root ?L) K fs m" using assms(2) by simp
  note ok = keys_apartD(1) [OF assms(1,3)] and C = put_conditions [OF assms(1) rep assms(3)] and Q = ring_quietD [OF assms(4)]
  have "node_at fs (ring_tmp_path R e k) = None" unfolding ring_tmp_path_def by (rule C(3)) (simp add: str_simps)
  from ring_put_quiet [OF ok Q(3,4) assms(5) C(1,2) this Q(5,6) assms(6)] obtain fs'
    where put: "ring_put R e k d fs = Some (Inr (blob_id_new (entropy (base e))), fs')"
      "file_at fs' = (file_at fs)(key_path ?L k \<mapsto> d)"
      "\<And>q. dir_at fs' q \<longleftrightarrow> dir_at fs q \<or> prefix q (butlast (key_path ?L k))" by blast
  have "fs_wf fs'" using ring_put_wf [OF represents_invar [OF rep] Q(1) ok] put(1) by blast
  with put(2,3) have "adds (ring_root R @ key_components k) d fs fs'" by (simp add: adds_def key_path_def)
  with represents_put [OF assms(1) assms(2) assms(3,6) this] put(1) show ?thesis by blast
qed

lemma ring_get_match:
  assumes "keys_apart K" "represents (ring_root R) K fs m" "k \<in> K" "ring_quiet e False"
  shows "ring_get R e k fs = Some (case m k of Some d \<Rightarrow> Inr d | None \<Rightarrow> Inl (NotFound (as_str k)))"
proof -
  let ?L = "as_local R"
  have rep: "represents (root ?L) K fs m" using assms(2) by simp
  note Q = ring_quietD [OF assms(4)]
  have "ring_get R e k fs = Some (local_get ?L (base e) k fs)"
  proof (rule ring_get_quiet [OF Q(3,4) _ Q(5,6)])
    fix p assume "local_resolve ?L k = Inr p" "dir_at fs (comps p)"
    then show "dir_len e \<noteq> 0"
      using ok_key_resolve [OF keys_apartD(1) [OF assms(1,3)], of ?L] represents_no_dir [OF assms(1) rep assms(3)]
      by (auto simp: key_path_def)
  next
    fix p d assume "local_resolve ?L k = Inr p" "file_at fs (comps p) = Some d"
    then have "m k = Some d"
      using ok_key_resolve [OF keys_apartD(1) [OF assms(1,3)], of ?L] represents_view [OF rep assms(3)]
      by (auto simp: local_view_def)
    then show "length d < 2 ^ 64" by (rule representsD(5) [OF rep])
  qed
  with local_get_match [OF assms(1) rep assms(3) Q(2)] show ?thesis by simp
qed

lemma ring_call_match:
  assumes "keys_apart K" "represents (ring_root R) K fs m" "ring_quiet e (is_put c)" "call_fits (ring_max_bytes R) K c"
    and "do_call map_spec (entropy (base e)) c m = (r, m')"
  shows "\<exists>fs'. ring_call R e c fs = Some (r, fs') \<and> represents (ring_root R) K fs' m'"
proof (cases c)
  case (CallPut k d)
  with ring_put_match [OF assms(1,2), of k e d] assms(3-5) show ?thesis
    by (auto simp: map_spec_def spec_ops_def)
next
  case (CallGet k)
  with ring_get_match [OF assms(1,2), of k e] assms(2-5) show ?thesis
    by (auto simp: map_spec_def spec_ops_def)
next
  case (CallDelete k)
  with local_delete_match [of K "as_local R" fs m k "base e"] assms ring_quietD(2) [OF assms(3)] show ?thesis
    by (auto simp: map_spec_def spec_ops_def ring_others_local)
next
  case (CallExists k)
  with local_exists_match [of K "as_local R" fs m k "base e"] assms ring_quietD(2) [OF assms(3)] show ?thesis
    by (auto simp: map_spec_def spec_ops_def ring_others_local)
next
  case (CallList p)
  with local_list_match [of K "as_local R" fs m "base e" p] assms ring_quietD(1,2) [OF assms(3)] show ?thesis
    by (auto simp: map_spec_def spec_ops_def ring_others_local)
qed (use assms(4) in simp)

interpretation rmatch: store_match "ring_call R" "\<lambda>e. entropy (base e)"
  "\<lambda>fs m. keys_apart K \<and> represents (ring_root R) K fs m"
  "\<lambda>e c r. ring_quiet e (is_put c) \<and> call_fits (ring_max_bytes R) K c" id
  for R K
proof (unfold_locales, goal_cases)
  case (1 s m e c r m')
  with ring_call_match [of K R s m e c r m'] show ?case by auto
qed

lemma ring_session:
  assumes "keys_apart K" "represents (ring_root R) K fs m"
    and "\<And>e c. (e, c) \<in> set cs \<Longrightarrow> ring_quiet e (is_put c) \<and> call_fits (ring_max_bytes R) K c"
  shows "run_session (ring_call R) cs fs = Some (session map_spec (map (apfst (\<lambda>e. entropy (base e))) cs) m)"
  using rmatch.session_match_all [of K R fs m cs] assms by force

section \<open>Properties\<close>

text \<open>C7. Interchangeable backends. On a set of keys that do not get in each other's way, with payloads
  within the limits and a quiet environment (no fault, a kernel that keeps its promises), the memory
  store over any map, its mutex build, the file-system store and the ring store answer every session of
  puts, gets, deletes, existence checks and listings with the same replies, identifiers, error texts and
  order of keys included: those of a plain map. In particular every call of the ring store returns.\<close>

theorem backends_interchangeable:
  assumes "keys_apart K" "key_map M"
    and "memory_view M st = m" "\<not> poisoned mst" "memory_view hash_map_ops (unlocked mst) = m"
    and "represents (root L) K fs m" "represents (ring_root R) K fs' m"
    and "\<And>e c. (e, c) \<in> set cs \<Longrightarrow>
      ring_quiet e (is_put c) \<and> call_fits (max_bytes L) K c \<and> call_fits (ring_max_bytes R) K c"
  defines "spec \<equiv> session map_spec (map (apfst (\<lambda>e. entropy (base e))) cs) m"
  shows "session (memory_ops M) (map (apfst (\<lambda>e. call_env.truncate (base e))) cs) st = spec
    \<and> session mutex_ops (map (apfst (\<lambda>e. call_env.truncate (base e))) cs) mst = spec
    \<and> session (local_ops L) (map (apfst base) cs) fs = spec
    \<and> run_session (ring_call R) cs fs' = Some spec"
proof -
  let ?mem = "map (apfst (\<lambda>e. call_env.truncate (base e))) cs" and ?loc = "map (apfst base) cs"
  have "call_fits limit K c \<Longrightarrow> no_presign c" for limit c by (cases c) auto
  with assms(8) have pre: "(e, c) \<in> set cs \<Longrightarrow> no_presign c" for e c by blast
  have seeds: "map (apfst entropy) ?mem = map (apfst (\<lambda>e. entropy (base e))) cs"
    "map (apfst entropy) ?loc = map (apfst (\<lambda>e. entropy (base e))) cs"
    by (simp_all add: call_env.truncate_def comp_def apfst_def map_prod_def case_prod_beta)
  have mem: "(e, c) \<in> set ?mem \<Longrightarrow> no_presign c" for e c using pre by auto
  have loc: "(e, c) \<in> set ?loc \<Longrightarrow> local_env_ok e \<and> local_quiet e \<and> call_fits (max_bytes L) K c" for e c
    using assms(8) ring_quietD(1,2) by fastforce
  have "session (memory_ops M) ?mem st = spec"
    using key_map.memory_session [OF assms(2) mem] by (simp only: spec_def seeds assms(3))
  moreover have "session mutex_ops ?mem mst = spec"
    using mutex_session [OF assms(4) mem] by (simp only: spec_def seeds assms(5))
  moreover have "session (local_ops L) ?loc fs = spec"
    using local_session [OF assms(1,6) loc] by (simp only: spec_def seeds)
  moreover have "run_session (ring_call R) cs fs' = Some spec"
    using ring_session [OF assms(1,7)] assms(8) by (simp add: spec_def)
  ultimately show ?thesis by blast
qed

text \<open>Two keys in different directories, an empty root, and a session on both.\<close>

definition two_keys :: "object_key set" where
  "two_keys = {ObjectKey ''d/g'', ObjectKey ''e''}"

definition empty_r :: node where
  "empty_r = Dir [(''r'', Dir [])]"

definition reading :: ring_env where
  "reading = ring_calm\<lparr>kernel_of := trickle False 1\<rparr>"

lemma two_keys_apart: "keys_apart two_keys"
proof -
  have "local_ok_key (ObjectKey ''e'')"
    by (simp add: local_ok_key_def key_wf_def key_str_wf_def max_key_len_def key_components_def utf8_valid_ascii)
  with key_g show ?thesis
    by (auto simp: keys_apart_def two_keys_def key_components_def strict_prefix_def str_simps)
qed

lemma empty_r_represents: "represents [''r''] K empty_r Map.empty"
  by (rule represents_empty) (simp_all add: empty_r_def name_ok_def)

lemma calm_quiet: "ring_quiet ring_calm True" "ring_quiet reading False"
  using trickle_lawful trickle_healthy [of 1] by (simp_all add: ring_quiet_def ring_calm_def reading_def)

theorem backends_interchangeable_witness:
  "session (local_ops store_r)
      [(calm, CallPut (ObjectKey ''d/g'') [7]), (calm, CallPut (ObjectKey ''e'') []), (calm, CallList []),
       (calm, CallDelete (ObjectKey ''e'')), (calm, CallGet (ObjectKey ''e'')), (calm, CallGet (ObjectKey ''d/g''))] empty_r
     = [ReplyId (Inr (blob_id_new 1)), ReplyId (Inr (blob_id_new 1)), ReplyKeys (Inr [ObjectKey ''d/g'', ObjectKey ''e'']),
        ReplyUnit (Inr ()), ReplyBytes (Inl (NotFound ''e'')), ReplyBytes (Inr [7])]"
proof -
  let ?cs = "[(ring_calm, CallPut (ObjectKey ''d/g'') [7]), (ring_calm, CallPut (ObjectKey ''e'') []),
    (reading, CallList []), (reading, CallDelete (ObjectKey ''e'')), (reading, CallGet (ObjectKey ''e'')),
    (reading, CallGet (ObjectKey ''d/g''))]"
  have fits: "ring_quiet e (is_put c) \<and> call_fits (max_bytes store_r) two_keys c \<and> call_fits (ring_max_bytes ring_r) two_keys c"
    if "(e, c) \<in> set ?cs" for e c
    using that calm_quiet by (auto simp: two_keys_def over_limit_def)
  have new: "memory_view hash_map_ops (memory_new hash_map_ops) = Map.empty"
    by (simp add: memory_view_def memory_new_def fun_eq_iff)
  have mnew: "\<not> poisoned mutex_new" "memory_view hash_map_ops (unlocked mutex_new) = Map.empty"
    by (simp_all add: mutex_new_def unlocked_def memory_view_def hash_map_ops_def fun_eq_iff DAList.lookup_empty)
  have rr: "represents (root store_r) two_keys empty_r Map.empty" "represents (ring_root ring_r) two_keys empty_r Map.empty"
    using empty_r_represents by simp_all
  have b: "base ring_calm = calm" "base reading = calm" by (simp_all add: ring_calm_def reading_def)
  have le: "ObjectKey ''d/g'' \<le> ObjectKey ''e''" "\<not> ObjectKey ''e'' \<le> ObjectKey ''d/g''"
    by (simp_all add: less_eq_object_key_def less_eq_char_def)
  have keys: "{k. (k = ObjectKey ''e'' \<or> k = ObjectKey ''d/g'') \<and> starts_with (as_str k) []} = set [ObjectKey ''d/g'', ObjectKey ''e'']"
    by auto
  have "session (local_ops store_r) (map (apfst base) ?cs) empty_r
      = session map_spec (map (apfst (\<lambda>e. entropy (base e))) ?cs) Map.empty"
    using backends_interchangeable [OF two_keys_apart hash_map.key_map_axioms new mnew rr fits] by blast
  then show ?thesis by (simp add: b map_spec_def spec_ops_def keys le)
qed

end
