(* ===== verification/Clients.thy ===== *)
theory Clients
  imports Tree_Backends
begin

text \<open>
  Several clients of one store, whose calls follow one another in any order. Clients that use keys of
  their own do not see one another: each gets the replies it would get alone. This is proved of the
  specification and carried to every backend by its \<open>store_match\<close>.
\<close>

section \<open>Calls tagged with their client\<close>

definition of_client :: "nat \<Rightarrow> (nat \<times> 'a) list \<Rightarrow> 'a list" where
  "of_client i xs = map snd (filter (\<lambda>x. fst x = i) xs)"

definition replies_to :: "nat \<Rightarrow> (nat \<times> 'a) list \<Rightarrow> 'r list \<Rightarrow> 'r list" where
  "replies_to i tcs rs = of_client i (zip (map fst tcs) rs)"

fun call_key :: "store_call \<Rightarrow> object_key option" where
  "call_key (CallPut k d) = Some k"
| "call_key (CallGet k) = Some k"
| "call_key (CallDelete k) = Some k"
| "call_key (CallExists k) = Some k"
| "call_key (CallList p) = None"
| "call_key (CallPresign k x) = Some k"

text \<open>No listing, and no key used by two clients.\<close>

definition separate :: "(nat \<times> 'e \<times> store_call) list \<Rightarrow> bool" where
  "separate tcs \<longleftrightarrow> list_all (\<lambda>(i, e, c). call_key c \<noteq> None
     \<and> list_all (\<lambda>(j, e', c'). i \<noteq> j \<longrightarrow> call_key c \<noteq> call_key c') tcs) tcs"

lemma of_client_simps [simp]:
  "of_client i [] = []"
  "of_client i ((j, x) # xs) = (if j = i then x # of_client i xs else of_client i xs)"
  by (simp_all add: of_client_def)

lemma replies_to_simps [simp]:
  "replies_to i [] rs = []"
  "replies_to i ((j, x) # xs) (r # rs) = (if j = i then r # replies_to i xs rs else replies_to i xs rs)"
  by (simp_all add: replies_to_def)

lemma of_client_in: "x \<in> set (of_client i xs) \<longleftrightarrow> (i, x) \<in> set xs"
  by (force simp: of_client_def)

lemma of_client_map: "of_client i (map (apsnd f) xs) = map f (of_client i xs)"
  by (induction xs) (auto simp: of_client_def)

lemma replies_to_map: "length rs = length xs \<Longrightarrow> map f (replies_to i xs rs) = replies_to i xs (map f rs)"
  by (induction xs rs rule: list_induct2') auto

lemma replies_to_tags: "replies_to i (map (apsnd f) xs) rs = replies_to i xs rs"
  by (simp add: replies_to_def comp_def)

lemma separate_Cons:
  "separate ((i, e, c) # tcs) \<longleftrightarrow> call_key c \<noteq> None
     \<and> (\<forall>j e' c'. (j, e', c') \<in> set tcs \<and> i \<noteq> j \<longrightarrow> call_key c \<noteq> call_key c') \<and> separate tcs"
  by (fastforce simp: separate_def list_all_iff)

lemma separateI:
  assumes "\<And>i e c. (i, e, c) \<in> set tcs \<Longrightarrow> call_key c \<noteq> None"
    and "\<And>i e c j e' c'. (i, e, c) \<in> set tcs \<Longrightarrow> (j, e', c') \<in> set tcs \<Longrightarrow> i \<noteq> j \<Longrightarrow> call_key c \<noteq> call_key c'"
  shows "separate tcs"
  unfolding separate_def list_all_iff using assms by blast

lemma separate_map: "separate (map (apsnd (apfst f)) tcs) \<longleftrightarrow> separate tcs"
  by (simp add: separate_def list_all_iff case_prod_beta)

text \<open>The state after a session.\<close>

fun after :: "('e, 's) blob_ops \<Rightarrow> ('e \<times> store_call) list \<Rightarrow> 's \<Rightarrow> 's" where
  "after b [] s = s"
| "after b ((e, c) # cs) s = after b cs (snd (do_call b e c s))"

section \<open>The specification\<close>

text \<open>A call reads and changes its own key only.\<close>

lemma spec_call_local:
  assumes "call_key c = Some k" "do_call map_spec e c m = (r, m')" "do_call map_spec e c n = (q, n')" "m k = n k"
  shows "r = q" "m' k = n' k" "j \<noteq> k \<Longrightarrow> m' j = m j"
  using assms by (cases c; auto simp: map_spec_def spec_ops_def domIff split: option.splits)+

lemma spec_alone:
  assumes "separate tcs" "\<And>e c k. (i, e, c) \<in> set tcs \<Longrightarrow> call_key c = Some k \<Longrightarrow> m k = n k"
  shows "replies_to i tcs (session map_spec (map snd tcs) m) = session map_spec (of_client i tcs) n"
  using assms
proof (induction tcs arbitrary: m n)
  case Nil
  then show ?case by simp
next
  case (Cons t tcs)
  obtain j e c where t: "t = (j, e, c)" by (cases t)
  from Cons.prems(1) have sep: "separate tcs" by (simp add: t separate_Cons)
  from Cons.prems(1) obtain k where k: "call_key c = Some k" by (auto simp: t separate_Cons)
  have apart: "call_key c' \<noteq> Some k" if "(l, e', c') \<in> set tcs" "l \<noteq> j" for l e' c'
    using Cons.prems(1) that k by (fastforce simp: t separate_Cons)
  obtain r m' where m': "do_call map_spec e c m = (r, m')" by (cases "do_call map_spec e c m")
  obtain q n' where n': "do_call map_spec e c n = (q, n')" by (cases "do_call map_spec e c n")
  show ?case
  proof (cases "j = i")
    case True
    with Cons.prems(2) [of e c k] k have eq: "m k = n k" by (simp add: t)
    note L = spec_call_local [OF k m' n' eq] and L' = spec_call_local(3) [OF k n' m' eq [symmetric]]
    have "m' l = n' l" if "(i, e', c') \<in> set tcs" "call_key c' = Some l" for e' c' l
      using L(2) L(3) [of l] L' [of l] Cons.prems(2) [of e' c' l] that by (cases "l = k") (auto simp: t)
    from Cons.IH [OF sep this] L(1) m' n' True show ?thesis by (simp add: t)
  next
    case False
    note L = spec_call_local(3) [OF k m' m' refl]
    have "m' l = n l" if "(i, e', c') \<in> set tcs" "call_key c' = Some l" for e' c' l
      using apart [OF that(1)] L [of l] Cons.prems(2) [of e' c' l] that False by (auto simp: t)
    from Cons.IH [OF sep this] m' False show ?thesis by (simp add: t)
  qed
qed

section \<open>The backends\<close>

context store_match
begin

lemma clients_alone:
  assumes "rel s m" "separate tcs" "\<And>j e c r. (j, e, c) \<in> set tcs \<Longrightarrow> allowed e c r"
  shows "\<exists>qs ps. run_session step (map snd tcs) s = Some qs \<and> run_session step (of_client i tcs) s = Some ps
    \<and> map shape (replies_to i tcs qs) = map shape ps"
proof -
  let ?seeded = "map (apsnd (apfst seed)) tcs"
  have "(e, c) \<in> set (map snd tcs) \<Longrightarrow> allowed e c r" for e c r using assms(3) by auto
  from session_match_all [OF assms(1) this] obtain qs where qs: "run_session step (map snd tcs) s = Some qs"
    "map shape qs = map shape (session map_spec (map (apfst seed) (map snd tcs)) m)" by blast
  have "(e, c) \<in> set (of_client i tcs) \<Longrightarrow> allowed e c r" for e c r using assms(3) by (auto simp: of_client_in)
  from session_match_all [OF assms(1) this] obtain ps where ps: "run_session step (of_client i tcs) s = Some ps"
    "map shape ps = map shape (session map_spec (map (apfst seed) (of_client i tcs)) m)" by blast
  have "length qs = length tcs" using arg_cong [OF qs(2), of length] by simp
  then have "map shape (replies_to i tcs qs) = replies_to i tcs (map shape (session map_spec (map snd ?seeded) m))"
    using qs(2) by (simp add: replies_to_map comp_def)
  also have "\<dots> = map shape (replies_to i ?seeded (session map_spec (map snd ?seeded) m))"
    by (simp add: replies_to_map replies_to_tags)
  also have "\<dots> = map shape ps"
    using spec_alone [of ?seeded i m m] assms(2) by (simp add: separate_map of_client_map ps(2))
  finally show ?thesis using qs(1) ps(1) by blast
qed

end

context key_map
begin

lemma mem_clients:
  assumes "separate tcs" "\<And>j e c. (j, e, c) \<in> set tcs \<Longrightarrow> no_presign c"
  shows "replies_to i tcs (session (memory_ops M) (map snd tcs) st) = session (memory_ops M) (of_client i tcs) st"
  using mmatch.clients_alone [of st _ tcs i] assms by force

end

text \<open>C10. Isolation of clients. When no key is used by two clients, and none lists or asks for a URL, then, however
  the calls of the clients follow one another, each client gets the replies it would get if it were alone: of the
  memory store over every lawful map and of its unpoisoned mutex build under no further condition; of the file-system
  store and of the ring store if all keys are storable, none is the directory of another and none looks like a
  temporary file, the tree below the root holds objects of these keys only, payloads are within the limits, no
  call fails, and, for the ring store, no task is lost and the kernel keeps its promises and makes progress. Then every call of the ring store returns.\<close>

theorem clients_isolated:
  assumes "separate tcs" "\<forall>(j, e, c) \<in> set tcs. no_presign c"
  defines "mcalls \<equiv> map (apfst (\<lambda>e. call_env.truncate (base e)))" and "lcalls \<equiv> map (apfst base)"
  shows "(key_map M \<longrightarrow>
        replies_to i tcs (session (memory_ops M) (mcalls (map snd tcs)) st) = session (memory_ops M) (mcalls (of_client i tcs)) st)
    \<and> (\<not> poisoned mst \<longrightarrow>
        replies_to i tcs (session mutex_ops (mcalls (map snd tcs)) mst) = session mutex_ops (mcalls (of_client i tcs)) mst)
    \<and> (keys_apart K \<and> represents (root L) K fs m
        \<and> (\<forall>(j, e, c) \<in> set tcs. local_env_ok (base e) \<and> local_quiet (base e) \<and> call_fits (max_bytes L) K c) \<longrightarrow>
        replies_to i tcs (session (local_ops L) (lcalls (map snd tcs)) fs) = session (local_ops L) (lcalls (of_client i tcs)) fs)
    \<and> (keys_apart K \<and> represents (ring_root R) K fs' m'
        \<and> (\<forall>(j, e, c) \<in> set tcs. ring_quiet e (is_put c) \<and> call_fits (ring_max_bytes R) K c) \<longrightarrow>
        (\<exists>qs. run_session (ring_call R) (map snd tcs) fs' = Some qs
          \<and> run_session (ring_call R) (of_client i tcs) fs' = Some (replies_to i tcs qs)))"
proof -
  define mtcs where "mtcs = map (apsnd (apfst (\<lambda>e. call_env.truncate (base e)))) tcs"
  define ltcs where "ltcs = map (apsnd (apfst base)) tcs"
  have sep: "separate mtcs" "separate ltcs" using assms(1) by (simp_all add: mtcs_def ltcs_def separate_map)
  have tags: "map snd mtcs = mcalls (map snd tcs)" "of_client i mtcs = mcalls (of_client i tcs)" "replies_to i mtcs = replies_to i tcs"
    "map snd ltcs = lcalls (map snd tcs)" "of_client i ltcs = lcalls (of_client i tcs)" "replies_to i ltcs = replies_to i tcs"
    by (simp_all add: mtcs_def ltcs_def mcalls_def lcalls_def of_client_map replies_to_tags fun_eq_iff comp_def)
  have mem: "no_presign c" if "(j, e, c) \<in> set mtcs" for j e c using that assms(2) by (auto simp: mtcs_def)
  have "replies_to i mtcs (session (memory_ops M) (map snd mtcs) st) = session (memory_ops M) (of_client i mtcs) st" if "key_map M"
    by (rule key_map.mem_clients [OF that sep(1)]) (rule mem)
  moreover have "replies_to i mtcs (session mutex_ops (map snd mtcs) mst) = session mutex_ops (of_client i mtcs) mst"
    if "\<not> poisoned mst"
    using xmatch.clients_alone [OF _ sep(1)] that mem by force
  moreover have "replies_to i ltcs (session (local_ops L) (map snd ltcs) fs) = session (local_ops L) (of_client i ltcs) fs"
    if K: "keys_apart K" "represents (root L) K fs m"
      "\<forall>(j, e, c) \<in> set tcs. local_env_ok (base e) \<and> local_quiet (base e) \<and> call_fits (max_bytes L) K c"
  proof -
    have "local_env_ok e \<and> local_quiet e \<and> call_fits (max_bytes L) K c" if "(j, e, c) \<in> set ltcs" for j e c
      using that K(3) by (auto simp: ltcs_def)
    then show ?thesis using lmatch.clients_alone [of K L fs m ltcs i] sep(2) K(1,2) by force
  qed
  moreover have "\<exists>qs. run_session (ring_call R) (map snd tcs) fs' = Some qs
      \<and> run_session (ring_call R) (of_client i tcs) fs' = Some (replies_to i tcs qs)"
    if "keys_apart K" "represents (ring_root R) K fs' m'"
      "\<forall>(j, e, c) \<in> set tcs. ring_quiet e (is_put c) \<and> call_fits (ring_max_bytes R) K c"
    using rmatch.clients_alone [of K R fs' m' tcs i] assms(1) that by force
  ultimately show ?thesis unfolding tags by blast
qed

theorem clients_isolated_witness:
  "session (local_ops store_r)
      [(calm, CallPut (ObjectKey ''e'') [7]), (calm, CallGet (ObjectKey ''e''))] empty_r
     = replies_to 1 [(0, ring_calm, CallPut (ObjectKey ''d/g'') []), (1, ring_calm, CallPut (ObjectKey ''e'') [7]),
         (0, reading, CallDelete (ObjectKey ''d/g'')), (1, reading, CallGet (ObjectKey ''e''))]
       (session (local_ops store_r) [(calm, CallPut (ObjectKey ''d/g'') []), (calm, CallPut (ObjectKey ''e'') [7]),
         (calm, CallDelete (ObjectKey ''d/g'')), (calm, CallGet (ObjectKey ''e''))] empty_r)
   \<and> (\<exists>qs. run_session (ring_call ring_r)
         [(ring_calm, CallPut (ObjectKey ''e'') [7]), (reading, CallGet (ObjectKey ''e''))] empty_r = Some qs)"
proof -
  let ?tcs = "[(0 :: nat, ring_calm, CallPut (ObjectKey ''d/g'') []), (1, ring_calm, CallPut (ObjectKey ''e'') [7]),
         (0, reading, CallDelete (ObjectKey ''d/g'')), (1, reading, CallGet (ObjectKey ''e''))]"
  have sep: "separate ?tcs" by (simp add: separate_def)
  have pre: "\<forall>(j, e, c) \<in> set ?tcs. no_presign c" by simp
  have loc: "\<forall>(j, e, c) \<in> set ?tcs. local_env_ok (base e) \<and> local_quiet (base e) \<and> call_fits (max_bytes store_r) two_keys c"
    by (simp add: two_keys_def over_limit_def ring_calm_def reading_def)
  have ring: "\<forall>(j, e, c) \<in> set ?tcs. ring_quiet e (is_put c) \<and> call_fits (ring_max_bytes ring_r) two_keys c"
    using calm_quiet by (simp add: two_keys_def over_limit_def)
  have rr: "represents (root store_r) two_keys empty_r Map.empty" "represents (ring_root ring_r) two_keys empty_r Map.empty"
    using empty_r_represents by simp_all
  have b: "base ring_calm = calm" "base reading = calm" by (simp_all add: ring_calm_def reading_def)
  note C = clients_isolated [where i = 1 and L = store_r and R = ring_r, OF sep pre, THEN conjunct2, THEN conjunct2]
  show ?thesis
  proof
    show "session (local_ops store_r) [(calm, CallPut (ObjectKey ''e'') [7]), (calm, CallGet (ObjectKey ''e''))] empty_r
      = replies_to 1 ?tcs (session (local_ops store_r) [(calm, CallPut (ObjectKey ''d/g'') []), (calm, CallPut (ObjectKey ''e'') [7]),
          (calm, CallDelete (ObjectKey ''d/g'')), (calm, CallGet (ObjectKey ''e''))] empty_r)"
      using C [THEN conjunct1, THEN mp, OF conjI, OF two_keys_apart conjI, OF rr(1) loc]
      by (simp add: b del: session.simps replies_to_simps)
    show "\<exists>qs. run_session (ring_call ring_r)
        [(ring_calm, CallPut (ObjectKey ''e'') [7]), (reading, CallGet (ObjectKey ''e''))] empty_r = Some qs"
      using C [THEN conjunct2, THEN mp, OF conjI, OF two_keys_apart conjI, OF rr(2) ring]
      by (auto simp: b simp del: run_session.simps replies_to_simps)
  qed
qed

text \<open>That none is the directory of another is needed: \<open>a\<close> and \<open>a/b\<close> cannot both be stored.\<close>

theorem clients_disturbed:
  "replies_to 1 [(0, calm, CallPut (ObjectKey ''a'') [1]), (1, calm, CallPut (ObjectKey ''a/b'') [2])]
     (session (local_ops store_r) [(calm, CallPut (ObjectKey ''a'') [1]), (calm, CallPut (ObjectKey ''a/b'') [2])] empty_r)
   \<noteq> session (local_ops store_r) [(calm, CallPut (ObjectKey ''a/b'') [2])] empty_r"
  by code_simp

end
