(* ===== verification/Test_Kit.thy ===== *)
theory Test_Kit
  imports Blob_Store
begin

text \<open>
  The vocabulary of the crate's unit tests: a test is a truth value, true when it runs to its end.
  \<open>unwrap\<close> and \<open>unwrap_err\<close> of the other constructor panic, and so does a failed assertion, which ends
  the test with false.
\<close>

fun unwrap :: "'e + 'a \<Rightarrow> ('a \<Rightarrow> bool) \<Rightarrow> bool" where
  "unwrap (Inr x) f = f x"
| "unwrap (Inl e) f = False"

fun unwrap_err :: "'e + 'a \<Rightarrow> ('e \<Rightarrow> bool) \<Rightarrow> bool" where
  "unwrap_err (Inl e) f = f e"
| "unwrap_err (Inr x) f = False"

text \<open>\<open>unwrap\<close> of an option.\<close>

fun unwrap_some :: "'a option \<Rightarrow> ('a \<Rightarrow> bool) \<Rightarrow> bool" where
  "unwrap_some (Some x) f = f x"
| "unwrap_some None f = False"

definition is_err :: "'e + 'a \<Rightarrow> bool" where
  "is_err r \<longleftrightarrow> \<not> is_ok r"

lemma unwrap_mono: "unwrap r f \<Longrightarrow> (\<And>x. f x \<Longrightarrow> g x) \<Longrightarrow> unwrap r g"
  by (cases r) simp_all

lemma unwrap_err_is_err: "unwrap_err r f \<Longrightarrow> is_err r"
  by (cases r) (simp_all add: is_err_def)

text \<open>\<open>Bytes::from\<close> of a string literal.\<close>

definition bytes_of :: "string \<Rightarrow> bytes" where
  "bytes_of s = map of_char s"

text \<open>\<open>matches!(err, BlobError::PermissionDenied(_))\<close> and the like.\<close>

fun is_permission_denied :: "blob_error \<Rightarrow> bool" where
  "is_permission_denied (PermissionDenied m) = True"
| "is_permission_denied e = False"

fun is_unsupported :: "blob_error \<Rightarrow> bool" where
  "is_unsupported (Unsupported m) = True"
| "is_unsupported e = False"

fun is_other :: "blob_error \<Rightarrow> bool" where
  "is_other (Other m) = True"
| "is_other e = False"

text \<open>
  The loop of the listing tests: \<open>store.put(ObjectKey::new(key).unwrap(), Bytes::from("x")).await.unwrap()\<close>
  for every key, with an environment for each call.
\<close>

fun put_each :: "('e, 's) blob_ops \<Rightarrow> (nat \<Rightarrow> 'e) \<Rightarrow> nat \<Rightarrow> string list \<Rightarrow> 's \<Rightarrow> ('s \<Rightarrow> bool) \<Rightarrow> bool" where
  "put_each b env n [] s f = f s"
| "put_each b env n (t # ts) s f =
     unwrap (key_new t) (\<lambda>key.
       let (r, s') = op_put b (env n) key (bytes_of ''x'') s
       in unwrap r (\<lambda>i. put_each b env (Suc n) ts s' f))"

lemma is_err_iff: "is_err r \<longleftrightarrow> (\<exists>e. r = Inl e)"
  by (cases r) (auto simp: is_err_def)

lemma unwrap_key_new: "key_str_wf s \<Longrightarrow> unwrap (key_new s) f = f (ObjectKey s)"
  by (simp add: key_new_Inr [THEN iffD2])

lemma key_ok_iff: "is_ok (key_new s) \<longleftrightarrow> key_str_wf s"
  by (auto simp: is_ok_iff key_new_Inr)

text \<open>A listing of keys given in order.\<close>

lemma sorted_keys:
  assumes "sorted (map ObjectKey ts)" "distinct ts" "\<And>t. ObjectKey t \<in> K \<and> starts_with t p \<longleftrightarrow> t \<in> set ts"
  shows "sorted_list_of_set {k \<in> K. starts_with (as_str k) p} = map ObjectKey ts"
proof -
  have "{k \<in> K. starts_with (as_str k) p} = set (map ObjectKey ts)"
  proof (rule set_eqI)
    fix k show "k \<in> {k \<in> K. starts_with (as_str k) p} \<longleftrightarrow> k \<in> set (map ObjectKey ts)"
      using assms(3) [of "as_str k"] by (cases k) auto
  qed
  moreover have "distinct (map ObjectKey ts)" using assms(2) by (simp add: distinct_map inj_on_def)
  ultimately show ?thesis using assms(1) by (simp only: sorted_list_of_set.idem_if_sorted_distinct)
qed

end
