(* ===== verification/Types_Tests.thy ===== *)
theory Types_Tests
  imports Test_Kit Bucket_Name Blob_Metadata
begin

text \<open>
  The unit tests of \<open>src/src/types.rs\<close>, each as the truth value of its body, and the theorem that they
  all pass, whatever hash an identifier is made of and whatever the optional crates are.
\<close>

section \<open>ObjectKey\<close>

definition test_object_key_valid :: bool where
  "test_object_key_valid \<longleftrightarrow>
     is_ok (key_new ''hello/world.txt'') \<and> is_ok (key_new ''a'') \<and> is_ok (key_new ''foo/bar/baz'')
     \<and> unwrap (key_new ''a/b'') (\<lambda>k. as_str k = ''a/b'')"

definition test_object_key_rejects_empty :: bool where
  "test_object_key_rejects_empty \<longleftrightarrow> is_err (key_new '''')"

definition test_object_key_rejects_dotdot :: bool where
  "test_object_key_rejects_dotdot \<longleftrightarrow>
     is_err (key_new ''../etc/passwd'') \<and> is_err (key_new ''a/../b'') \<and> is_err (key_new ''a/b/..'')
     \<and> is_ok (key_new ''..hello'') \<and> is_ok (key_new ''a/..hello/b'')"

definition test_object_key_rejects_empty_segments :: bool where
  "test_object_key_rejects_empty_segments \<longleftrightarrow>
     is_err (key_new ''/leading'') \<and> is_err (key_new ''trailing/'') \<and> is_err (key_new ''a//b'')"

definition test_object_key_rejects_too_long :: bool where
  "test_object_key_rejects_too_long \<longleftrightarrow>
     (let long = replicate 1025 (CHR ''a'') in is_err (key_new long)
       \<and> (let ok = replicate 1024 (CHR ''a'') in is_ok (key_new ok)))"

definition test_object_key_rejects_control_chars :: bool where
  "test_object_key_rejects_control_chars \<longleftrightarrow>
     is_err (key_new (''a'' @ CHR 0x00 # ''b'')) \<and> is_err (key_new (''a'' @ CHR 0x0A # ''b''))
     \<and> is_err (key_new (''a'' @ CHR 0x0D # ''b''))"

section \<open>BucketName\<close>

definition test_bucket_name_valid :: bool where
  "test_bucket_name_valid \<longleftrightarrow>
     is_ok (bucket_new ''abc'') \<and> is_ok (bucket_new ''my-bucket'') \<and> is_ok (bucket_new ''my-bucket-123'')
     \<and> unwrap (bucket_new ''ab1'') (\<lambda>b. bucket_str b = ''ab1'')"

definition test_bucket_name_invalid :: bool where
  "test_bucket_name_invalid \<longleftrightarrow>
     is_err (bucket_new ''ab'') \<and> is_err (bucket_new (replicate 64 (CHR ''a'')))
     \<and> is_err (bucket_new ''MyBucket'') \<and> is_err (bucket_new ''-abc'') \<and> is_err (bucket_new ''abc-'')
     \<and> is_err (bucket_new ''ab_c'') \<and> is_err (bucket_new ''ab.c'')"

section \<open>BlobId and BlobMetadata\<close>

definition test_blob_id_roundtrip :: "u64 \<Rightarrow> bool" where
  "test_blob_id_roundtrip h \<longleftrightarrow>
     (let i = blob_id_new h; s = blob_id_display i
      in unwrap (blob_id_from_str s) (\<lambda>parsed. i = parsed))"

definition test_blob_metadata_new :: "crates \<Rightarrow> bool" where
  "test_blob_metadata_new c \<longleftrightarrow>
     unwrap (key_new ''file.txt'') (\<lambda>key.
       let m = metadata_new c key 42
       in meta_key m = key \<and> meta_size m = 42 \<and> content_type m = ''application/octet-stream'')"

definition test_guess_content_type_default :: "crates \<Rightarrow> bool" where
  "test_guess_content_type_default c \<longleftrightarrow>
     unwrap (key_new ''file.bin'') (\<lambda>key. guess_content_type c key \<noteq> [])"

text \<open>No media type is an empty string.\<close>

definition mime_lawful :: "crates \<Rightarrow> bool" where
  "mime_lawful c \<longleftrightarrow> (case mime_guess c of None \<Rightarrow> True | Some from_path \<Rightarrow> (\<forall>s. from_path s \<noteq> Some []))"

lemma content_type_not_empty: "mime_lawful c \<Longrightarrow> guess_content_type c k \<noteq> []"
  by (auto simp: mime_lawful_def guess_content_type_def octet_stream_def split: option.splits)

lemma blob_id_test: "test_blob_id_roundtrip h"
  using blob_id_new_wf [of h]
  by (simp add: test_blob_id_roundtrip_def blob_id_from_str_def blob_id_display_def hex2_length chunks2_hex2
      blob_id_wf_def Let_def)

section \<open>Properties\<close>

text \<open>The unit tests of \<open>types.rs\<close> pass for every input they do not fix: whatever 64-bit hash the
  identifier comes from, whatever the optional crates are as long as a guessed media type is not empty.\<close>

theorem types_tests_pass:
  assumes "mime_lawful c"
  shows "test_object_key_valid \<and> test_object_key_rejects_empty \<and> test_object_key_rejects_dotdot
    \<and> test_object_key_rejects_empty_segments \<and> test_object_key_rejects_too_long
    \<and> test_object_key_rejects_control_chars \<and> test_bucket_name_valid \<and> test_bucket_name_invalid
    \<and> test_blob_id_roundtrip h \<and> test_blob_metadata_new c \<and> test_guess_content_type_default c"
proof (intro conjI)
  have "length (replicate 1024 (CHR ''a'')) \<noteq> length ''..''" by simp
  then have "replicate 1024 (CHR ''a'') \<noteq> ''..''" by metis
  then have len: "key_str_wf (replicate 1024 (CHR ''a''))" "\<not> key_str_wf (replicate 1025 (CHR ''a''))"
    by (simp_all add: key_str_wf_def max_key_len_def split_on_no_sep)
  show test_object_key_rejects_too_long
    by (simp only: test_object_key_rejects_too_long_def is_err_def key_ok_iff len Let_def simp_thms)
  have long: "\<not> bucket_str_wf (replicate 64 (CHR ''a''))" by (simp add: bucket_str_wf_def)
  have bucket: "is_ok (bucket_new s) \<longleftrightarrow> bucket_str_wf s" for s by (auto simp: is_ok_iff bucket_new_Inr)
  show test_bucket_name_invalid
    unfolding test_bucket_name_invalid_def is_err_def bucket by (intro conjI long) code_simp+
  show "test_blob_id_roundtrip h" by (rule blob_id_test)
  show "test_guess_content_type_default c"
    using content_type_not_empty [OF assms]
    by (simp add: test_guess_content_type_default_def unwrap_key_new key_str_wf_def max_key_len_def)
  show "test_blob_metadata_new c"
    by (simp add: test_blob_metadata_new_def unwrap_key_new key_str_wf_def max_key_len_def metadata_new_def
        octet_stream_def Let_def)
  show test_object_key_valid test_object_key_rejects_empty test_object_key_rejects_dotdot
    test_object_key_rejects_empty_segments test_object_key_rejects_control_chars test_bucket_name_valid
    by code_simp+
qed

theorem types_tests_pass_witness:
  "test_guess_content_type_default \<lparr>mime_guess = Some (\<lambda>s. Some ''text/plain''), sha256_digest = None, clock_now = None\<rparr>"
  using types_tests_pass [of "\<lparr>mime_guess = Some (\<lambda>s. Some ''text/plain''), sha256_digest = None, clock_now = None\<rparr>"]
  by (simp add: mime_lawful_def)

end
