(* ===== verification/Memory_Tests.thy ===== *)
theory Memory_Tests
  imports Test_Kit Backends Types_Tests
begin

text \<open>
  The unit tests of \<open>src/src/memory.rs\<close> and the property tests of \<open>src/tests/proptest.rs\<close>, each as the truth
  value of its body over any map and any environment of every call (call \<open>n\<close> of a test gets
  \<open>E n\<close>), and the theorems that they hold. A property test is stated for every input, not a sample.
\<close>

section \<open>Unit tests\<close>

definition test_memory_put_and_get :: "'m key_map_ops \<Rightarrow> (nat \<Rightarrow> call_env) \<Rightarrow> bool" where
  "test_memory_put_and_get M E \<longleftrightarrow>
     (let store = memory_new M in
      unwrap (key_new ''a/b.txt'') (\<lambda>key.
        let data = bytes_of ''hello'';
            (r, store) = memory_put M (E 0) key data store
        in unwrap r (\<lambda>i. blob_id_display i \<noteq> []
          \<and> unwrap (memory_get M key store) (\<lambda>got. got = data))))"

definition test_memory_overwrite :: "'m key_map_ops \<Rightarrow> (nat \<Rightarrow> call_env) \<Rightarrow> bool" where
  "test_memory_overwrite M E \<longleftrightarrow>
     (let store = memory_new M in
      unwrap (key_new ''file.txt'') (\<lambda>key.
        let (r1, store) = memory_put M (E 0) key (bytes_of ''v1'') store
        in unwrap r1 (\<lambda>_. let (r2, store) = memory_put M (E 1) key (bytes_of ''v2'') store
        in unwrap r2 (\<lambda>_. unwrap (memory_get M key store) (\<lambda>d. d = bytes_of ''v2'')
          \<and> memory_len M store = 1))))"

definition test_memory_not_found :: "'m key_map_ops \<Rightarrow> bool" where
  "test_memory_not_found M \<longleftrightarrow>
     (let store = memory_new M in
      unwrap (key_new ''missing.txt'') (\<lambda>key.
        unwrap_err (memory_get M key store) is_not_found
        \<and> unwrap_err (fst (memory_delete M key store)) is_not_found))"

definition test_memory_delete_and_exists :: "'m key_map_ops \<Rightarrow> (nat \<Rightarrow> call_env) \<Rightarrow> bool" where
  "test_memory_delete_and_exists M E \<longleftrightarrow>
     (let store = memory_new M in
      unwrap (key_new ''del.txt'') (\<lambda>key.
        unwrap (memory_exists M key store) (\<lambda>b. \<not> b)
        \<and> (let (r1, store) = memory_put M (E 0) key (bytes_of ''x'') store
           in unwrap r1 (\<lambda>_. unwrap (memory_exists M key store) (\<lambda>b. b)
           \<and> (let (r2, store) = memory_delete M key store
              in unwrap r2 (\<lambda>_. unwrap (memory_exists M key store) (\<lambda>b. \<not> b)))))))"

definition test_memory_clear :: "'m key_map_ops \<Rightarrow> (nat \<Rightarrow> call_env) \<Rightarrow> bool" where
  "test_memory_clear M E \<longleftrightarrow>
     (let store = memory_new M in
      unwrap (key_new ''a'') (\<lambda>a. let (r1, store) = memory_put M (E 0) a (bytes_of ''1'') store
      in unwrap r1 (\<lambda>_. unwrap (key_new ''b'') (\<lambda>b. let (r2, store) = memory_put M (E 1) b (bytes_of ''2'') store
      in unwrap r2 (\<lambda>_. memory_len M store = 2
        \<and> (let store = memory_clear M store in memory_is_empty M store))))))"

definition test_memory_metadata :: "'m key_map_ops \<Rightarrow> (nat \<Rightarrow> call_env) \<Rightarrow> bool" where
  "test_memory_metadata M E \<longleftrightarrow>
     (let store = memory_new M in
      unwrap (key_new ''meta.txt'') (\<lambda>key.
        let (r, store) = memory_put M (E 0) key (bytes_of ''abc'') store
        in unwrap r (\<lambda>_. unwrap_some (memory_metadata M key store) (\<lambda>m.
          meta_key m = key \<and> meta_size m = 3 \<and> content_type m \<noteq> []))))"

definition test_memory_presigned_url_unsupported :: "'m key_map_ops \<Rightarrow> bool" where
  "test_memory_presigned_url_unsupported M \<longleftrightarrow>
     (let store = memory_new M in
      unwrap (key_new ''a.txt'') (\<lambda>key. is_err (memory_presigned_url key 60 store)))"

definition test_memory_list_prefix_sorted :: "'m key_map_ops \<Rightarrow> (nat \<Rightarrow> call_env) \<Rightarrow> bool" where
  "test_memory_list_prefix_sorted M E \<longleftrightarrow>
     (let store = memory_new M in
      put_each (memory_ops M) E 0 [''b/2.txt'', ''a/1.txt'', ''aa.txt'', ''c.txt''] store (\<lambda>store.
        unwrap (memory_list M '''' store) (\<lambda>all.
          map as_str all = [''a/1.txt'', ''aa.txt'', ''b/2.txt'', ''c.txt''])
        \<and> unwrap (memory_list M ''a/'' store) (\<lambda>under_a.
            length under_a = 1 \<and> as_str (under_a ! 0) = ''a/1.txt'')
        \<and> unwrap (memory_list M ''zzz'' store) (\<lambda>none. none = [])))"

section \<open>Property tests\<close>

definition prop_rejects_dotdot_component :: "string \<Rightarrow> bool" where
  "prop_rejects_dotdot_component s \<longleftrightarrow>
     (let has_dotdot_component = list_ex (\<lambda>c. c = ''..'') (split_on (CHR ''/'') s)
      in has_dotdot_component \<longrightarrow> is_err (key_new s))"

definition prop_max_len_enforced :: "string \<Rightarrow> bool" where
  "prop_max_len_enforced s \<longleftrightarrow>
     (let len = length s; res = key_new s in len > 1024 \<longrightarrow> is_err res)"

text \<open>The generator: a word, then one or more words each after two slashes.\<close>

fun double_slashed :: "string list \<Rightarrow> string" where
  "double_slashed [] = []"
| "double_slashed (w # ws) = ''//'' @ w @ double_slashed ws"

definition prop_rejects_empty_segments :: "string \<Rightarrow> string list \<Rightarrow> bool" where
  "prop_rejects_empty_segments w ws \<longleftrightarrow> is_err (key_new (w @ double_slashed ws))"

definition prop_bucket_name_valid_pattern :: "string \<Rightarrow> bool" where
  "prop_bucket_name_valid_pattern s \<longleftrightarrow>
     (let res = bucket_new s
      in length s \<ge> 3 \<and> length s \<le> 63 \<and> unwrap_some (first_byte s) is_ascii_alphanumeric
         \<and> unwrap_some (last_byte s) is_ascii_alphanumeric
         \<and> list_all (\<lambda>c. is_ascii_lowercase c \<or> is_ascii_digit c \<or> c = CHR ''-'') s
         \<longrightarrow> is_ok res)"

definition prop_memory_put_get_roundtrip_data :: "'m key_map_ops \<Rightarrow> (nat \<Rightarrow> call_env) \<Rightarrow> bytes \<Rightarrow> bool" where
  "prop_memory_put_get_roundtrip_data M E data \<longleftrightarrow>
     (let store = memory_new M in
      unwrap (key_new ''proptest/data.bin'') (\<lambda>key.
        let (r, store) = memory_put M (E 0) key data store
        in unwrap r (\<lambda>_. unwrap (memory_get M key store) (\<lambda>got. got = data))))"

section \<open>The store after the calls of a test\<close>

lemma key_texts:
  "key_new ''a/b.txt'' = Inr (ObjectKey ''a/b.txt'')" "key_new ''file.txt'' = Inr (ObjectKey ''file.txt'')"
  "key_new ''missing.txt'' = Inr (ObjectKey ''missing.txt'')" "key_new ''del.txt'' = Inr (ObjectKey ''del.txt'')"
  "key_new ''a'' = Inr (ObjectKey ''a'')" "key_new ''b'' = Inr (ObjectKey ''b'')"
  "key_new ''meta.txt'' = Inr (ObjectKey ''meta.txt'')" "key_new ''a.txt'' = Inr (ObjectKey ''a.txt'')"
  "key_new ''b/2.txt'' = Inr (ObjectKey ''b/2.txt'')" "key_new ''a/1.txt'' = Inr (ObjectKey ''a/1.txt'')"
  "key_new ''aa.txt'' = Inr (ObjectKey ''aa.txt'')" "key_new ''c.txt'' = Inr (ObjectKey ''c.txt'')"
  "key_new ''proptest/data.bin'' = Inr (ObjectKey ''proptest/data.bin'')"
  by code_simp+

context key_map
begin

lemma len_new: "memory_len M (memory_new M) = 0"
  by (simp add: memory_len_def memory_new_def len_card)

lemma put_view: "memory_view M (snd (memory_put M e k d st)) = (memory_view M st)(k \<mapsto> d)"
  by (simp add: memory_defs Let_def fun_eq_iff)

lemma new_view: "memory_view M (memory_new M) = Map.empty"
  by (simp add: memory_defs fun_eq_iff)

lemma put_ok: "fst (memory_put M e k d st) = Inr (blob_id_new (entropy e))"
  by (simp add: memory_put_def Let_def)

lemma get_from_view: "memory_get M k st = (case memory_view M st k of Some d \<Rightarrow> Inr d | None \<Rightarrow> Inl (NotFound (as_str k)))"
  by (auto simp: memory_defs split: option.splits)

lemma exists_from_view: "memory_exists M k st = Inr (memory_view M st k \<noteq> None)"
  by (simp add: memory_defs)

lemma delete_from_view:
  "fst (memory_delete M k st) = (if memory_view M st k \<noteq> None then Inr () else Inl (NotFound (as_str k)))"
  "memory_view M (snd (memory_delete M k st)) = (memory_view M st)(k := None)"
  using remove_fst [of k "inner st"] by (auto simp: memory_defs Let_def case_prod_beta fun_eq_iff)

lemmas test_steps = put_ok put_view new_view get_from_view exists_from_view delete_from_view
  put_len len_new key_texts Let_def case_prod_beta

lemma simple_tests:
  "test_memory_put_and_get M E" "test_memory_overwrite M E" "test_memory_not_found M"
  "test_memory_delete_and_exists M E" "test_memory_presigned_url_unsupported M"
  "prop_memory_put_get_roundtrip_data M E data"
  by (simp_all add: test_memory_put_and_get_def test_memory_overwrite_def test_memory_not_found_def
      test_memory_delete_and_exists_def test_memory_presigned_url_unsupported_def
      prop_memory_put_get_roundtrip_data_def memory_presigned_url_def is_err_def test_steps
      blob_id_display_def blob_id_new_def to_le_bytes_def hex2_def upt_rec)

lemma clear_test: "test_memory_clear M E"
  using clear_empty by (simp add: test_memory_clear_def memory_is_empty_def test_steps)

lemma metadata_test:
  assumes "mime_lawful (crates_of (E 0))"
  shows "test_memory_metadata M E"
  using content_type_not_empty [OF assms]
  by (auto simp: test_memory_metadata_def test_steps put_metadata put_entry_def new_with_content_type_def bytes_of_def
      split: option.splits)

lemma list_test: "test_memory_list_prefix_sorted M E"
proof -
  let ?st = "\<lambda>st e k. snd (memory_put M e (ObjectKey k) (bytes_of ''x'') st)"
  define st where "st = ?st (?st (?st (?st (memory_new M) (E 0) ''b/2.txt'') (E 1) ''a/1.txt'') (E 2) ''aa.txt'') (E 3) ''c.txt''"
  have view: "dom (memory_view M st) = ObjectKey ` {''b/2.txt'', ''a/1.txt'', ''aa.txt'', ''c.txt''}"
    by (auto simp: st_def put_view new_view)
  have le: "sorted (map ObjectKey [''a/1.txt'', ''aa.txt'', ''b/2.txt'', ''c.txt''])"
    by (simp add: less_eq_object_key_def less_eq_char_def)
  have "memory_list M '''' st = Inr (map ObjectKey [''a/1.txt'', ''aa.txt'', ''b/2.txt'', ''c.txt''])"
    unfolding list_spec by (subst sorted_keys [OF le]) (auto simp: view)
  moreover have "memory_list M ''a/'' st = Inr (map ObjectKey [''a/1.txt''])"
    unfolding list_spec by (subst sorted_keys [of "[''a/1.txt'']"]) (auto simp: view)
  moreover have "memory_list M ''zzz'' st = Inr (map ObjectKey [])"
    unfolding list_spec by (subst sorted_keys [of "[]"]) (auto simp: view)
  moreover have "put_each (memory_ops M) E 0 [''b/2.txt'', ''a/1.txt'', ''aa.txt'', ''c.txt''] (memory_new M) f = f st" for f
    by (simp add: memory_ops_def key_texts put_ok case_prod_beta Let_def st_def numeral_2_eq_2 numeral_3_eq_3)
  ultimately show ?thesis by (simp add: test_memory_list_prefix_sorted_def Let_def)
qed

end

lemma first_byte_hd: "s \<noteq> [] \<Longrightarrow> first_byte s = Some (hd s)"
  by (cases s) (simp_all add: first_byte_def)

lemma last_byte_last: "s \<noteq> [] \<Longrightarrow> last_byte s = Some (last s)"
  by (simp add: last_byte_def first_byte_hd hd_rev)

lemma hyphen_not_alphanumeric: "\<not> is_ascii_alphanumeric (CHR ''-'')"
  by code_simp

lemma double_slashed_rejected: "ws \<noteq> [] \<Longrightarrow> \<not> key_str_wf (w @ double_slashed ws)"
proof -
  assume "ws \<noteq> []"
  then obtain v vs where "ws = v # vs" by (cases ws) auto
  then have "w @ double_slashed ws = w @ ''//'' @ v @ double_slashed vs" by simp
  then have "sublist ''//'' (w @ double_slashed ws)" unfolding sublist_def by blast
  then have "str_contains (w @ double_slashed ws) ''//''" by (simp add: str_contains_iff)
  then show ?thesis using empty_piece_iff [of "w @ double_slashed ws" "CHR ''/''"] by (auto simp: key_str_wf_def)
qed

section \<open>Properties\<close>

text \<open>The unit tests of \<open>memory.rs\<close> pass over every map that meets the map laws, whatever order it
  iterates in, and in every environment whose guessed media types are not empty.\<close>

theorem memory_tests_pass:
  assumes "key_map M" "\<And>n. mime_lawful (crates_of (E n))"
  shows "test_memory_put_and_get M E \<and> test_memory_overwrite M E \<and> test_memory_not_found M
    \<and> test_memory_delete_and_exists M E \<and> test_memory_clear M E \<and> test_memory_metadata M E
    \<and> test_memory_presigned_url_unsupported M \<and> test_memory_list_prefix_sorted M E"
  by (intro conjI key_map.simple_tests key_map.clear_test key_map.metadata_test key_map.list_test assms)

theorem memory_tests_pass_witness:
  "test_memory_list_prefix_sorted hash_map_ops (\<lambda>n. plain_env)"
  using memory_tests_pass [OF hash_map.key_map_axioms, of "\<lambda>n. plain_env"]
  by (simp add: mime_lawful_def plain_env_def)

text \<open>The property tests hold for every input, not only for the sampled ones: every text with a \<open>..\<close>
  component, longer than 1024 bytes or with two slashes in a row is rejected, every bucket name of the
  stated form is accepted, and every payload put is read back.\<close>

theorem property_tests_hold:
  assumes "key_map M"
  shows "prop_rejects_dotdot_component s \<and> prop_max_len_enforced s
    \<and> (ws \<noteq> [] \<longrightarrow> prop_rejects_empty_segments w ws) \<and> prop_bucket_name_valid_pattern s
    \<and> prop_memory_put_get_roundtrip_data M E data \<and> test_blob_id_roundtrip h"
proof (intro conjI impI)
  show "prop_rejects_dotdot_component s" "prop_max_len_enforced s"
    by (auto simp: prop_rejects_dotdot_component_def prop_max_len_enforced_def is_err_def key_ok_iff key_str_wf_def
        max_key_len_def list_ex_iff Let_def)
  show "prop_rejects_empty_segments w ws" if "ws \<noteq> []"
    using double_slashed_rejected [OF that] by (simp add: prop_rejects_empty_segments_def is_err_def key_ok_iff)
  show "prop_memory_put_get_roundtrip_data M E data" by (rule key_map.simple_tests [OF assms])
  show "test_blob_id_roundtrip h" by (rule blob_id_test)
  show "prop_bucket_name_valid_pattern s"
  proof (cases "s = []")
    case True
    then show ?thesis by (simp add: prop_bucket_name_valid_pattern_def Let_def)
  next
    case False
    have "bucket_str_wf s" if "3 \<le> length s" "length s \<le> 63" "is_ascii_alphanumeric (hd s)" "is_ascii_alphanumeric (last s)"
        "list_all bucket_char s"
      using that by (auto simp: bucket_str_wf_def hyphen_not_alphanumeric)
    with False show ?thesis
      by (auto simp: prop_bucket_name_valid_pattern_def first_byte_hd last_byte_last is_ok_iff bucket_new_Inr
          bucket_char_def [abs_def] Let_def)
  qed
qed

theorem property_tests_hold_witness:
  "prop_rejects_empty_segments ''ab'' [''c'', ''d''] \<and> prop_memory_put_get_roundtrip_data hash_map_ops (\<lambda>n. plain_env) [1, 2, 3]"
  using property_tests_hold [OF hash_map.key_map_axioms, of "[]" "[''c'', ''d'']" "''ab''" "\<lambda>n. plain_env" "[1, 2, 3]"]
  by simp

end
