(* ===== verification/Local_Tests.thy ===== *)
theory Local_Tests
  imports Test_Kit Tree_Backends
begin

text \<open>
  The unit tests of \<open>src/src/local.rs\<close>, each as the truth value of its body. A test starts in any tree
  that has the fresh, empty directory \<open>dir\<close> of its \<open>TempDir\<close>; its call \<open>n\<close> gets the environment \<open>E n\<close>.
  The proofs follow the map the tree represents.
\<close>

section \<open>The tests\<close>

definition temp_store ::
  "local_env \<Rightarrow> path \<Rightarrow> node \<Rightarrow> (local_store \<Rightarrow> node \<Rightarrow> bool) \<Rightarrow> bool" where
  "temp_store e dir fs f \<longleftrightarrow> (let (r, fs) = local_new e dir fs in unwrap r (\<lambda>store. f store fs))"

definition test_local_put_and_get :: "(nat \<Rightarrow> local_env) \<Rightarrow> path \<Rightarrow> node \<Rightarrow> bool" where
  "test_local_put_and_get E dir fs \<longleftrightarrow> temp_store (E 0) dir fs (\<lambda>store fs.
     unwrap (key_new ''a/b.txt'') (\<lambda>key.
       let (r, fs) = local_put store (E 1) key (bytes_of ''hello'') fs
       in unwrap r (\<lambda>_. unwrap (local_get store (E 2) key fs) (\<lambda>got. got = bytes_of ''hello''))))"

definition test_local_put_creates_parent_dirs :: "(nat \<Rightarrow> local_env) \<Rightarrow> path \<Rightarrow> node \<Rightarrow> bool" where
  "test_local_put_creates_parent_dirs E dir fs \<longleftrightarrow> temp_store (E 0) dir fs (\<lambda>store fs.
     unwrap (key_new ''deep/nested/file.bin'') (\<lambda>key.
       let (r, fs) = local_put store (E 1) key [1, 2, 3] fs
       in unwrap r (\<lambda>_. unwrap (local_exists store (E 2) key fs) (\<lambda>b. b))))"

definition test_local_overwrite :: "(nat \<Rightarrow> local_env) \<Rightarrow> path \<Rightarrow> node \<Rightarrow> bool" where
  "test_local_overwrite E dir fs \<longleftrightarrow> temp_store (E 0) dir fs (\<lambda>store fs.
     unwrap (key_new ''file.txt'') (\<lambda>key.
       let (r1, fs) = local_put store (E 1) key (bytes_of ''v1'') fs
       in unwrap r1 (\<lambda>_. let (r2, fs) = local_put store (E 2) key (bytes_of ''v2'') fs
       in unwrap r2 (\<lambda>_. unwrap (local_get store (E 3) key fs) (\<lambda>d. d = bytes_of ''v2'')))))"

definition test_local_not_found :: "(nat \<Rightarrow> local_env) \<Rightarrow> path \<Rightarrow> node \<Rightarrow> bool" where
  "test_local_not_found E dir fs \<longleftrightarrow> temp_store (E 0) dir fs (\<lambda>store fs.
     unwrap (key_new ''missing.txt'') (\<lambda>key.
       unwrap_err (local_get store (E 1) key fs) is_not_found
       \<and> (let (r, fs) = local_delete store (E 2) key fs
          in unwrap_err r is_not_found \<and> unwrap (local_exists store (E 3) key fs) (\<lambda>b. \<not> b))))"

definition test_local_delete :: "(nat \<Rightarrow> local_env) \<Rightarrow> path \<Rightarrow> node \<Rightarrow> bool" where
  "test_local_delete E dir fs \<longleftrightarrow> temp_store (E 0) dir fs (\<lambda>store fs.
     unwrap (key_new ''del.txt'') (\<lambda>key.
       let (r1, fs) = local_put store (E 1) key (bytes_of ''x'') fs
       in unwrap r1 (\<lambda>_. let (r2, fs) = local_delete store (E 2) key fs
       in unwrap r2 (\<lambda>_. unwrap (local_exists store (E 3) key fs) (\<lambda>b. \<not> b)))))"

definition test_local_max_bytes_guard :: "(nat \<Rightarrow> local_env) \<Rightarrow> path \<Rightarrow> node \<Rightarrow> bool" where
  "test_local_max_bytes_guard E dir fs \<longleftrightarrow>
     (let (r, fs) = local_with_limits (E 0) dir (Some 5) fs
      in unwrap r (\<lambda>store. unwrap (key_new ''big.bin'') (\<lambda>key.
        let (r1, fs) = local_put store (E 1) key (replicate 6 0) fs
        in unwrap_err r1 (\<lambda>err. err = StorageFull)
          \<and> (let (r2, fs) = local_put store (E 2) key (replicate 5 0) fs in unwrap r2 (\<lambda>_. True)))))"

definition test_local_atomic_write_no_partial_on_overwrite :: "(nat \<Rightarrow> local_env) \<Rightarrow> path \<Rightarrow> node \<Rightarrow> bool" where
  "test_local_atomic_write_no_partial_on_overwrite E dir fs \<longleftrightarrow> temp_store (E 0) dir fs (\<lambda>store fs.
     unwrap (key_new ''atomic.txt'') (\<lambda>key.
       let (r1, fs) = local_put store (E 1) key (bytes_of ''first'') fs
       in unwrap r1 (\<lambda>_. let (r2, fs) = local_put store (E 2) key (bytes_of ''second'') fs
       in unwrap r2 (\<lambda>_. unwrap (local_get store (E 3) key fs) (\<lambda>d. d = bytes_of ''second'')))))"

definition test_local_presigned_url_exists_check :: "(nat \<Rightarrow> local_env) \<Rightarrow> path \<Rightarrow> node \<Rightarrow> bool" where
  "test_local_presigned_url_exists_check E dir fs \<longleftrightarrow> temp_store (E 0) dir fs (\<lambda>store fs.
     unwrap (key_new ''presign.txt'') (\<lambda>key.
       unwrap_err (local_presigned_url store (E 1) key 60 fs) is_not_found
       \<and> (let (r, fs) = local_put store (E 2) key (bytes_of ''data'') fs
          in unwrap r (\<lambda>_. unwrap (local_presigned_url store (E 3) key 60 fs) (\<lambda>url.
            str_contains url ''expires'')))))"

definition test_local_list_prefix_sorted_and_complete :: "(nat \<Rightarrow> local_env) \<Rightarrow> path \<Rightarrow> node \<Rightarrow> bool" where
  "test_local_list_prefix_sorted_and_complete E dir fs \<longleftrightarrow> temp_store (E 0) dir fs (\<lambda>store fs.
     put_each (local_ops store) E 1 [''b/2.txt'', ''a/1.txt'', ''a/sub/3.txt'', ''c.txt'', ''aa.txt''] fs (\<lambda>fs.
       unwrap (local_list store (E 6) '''' fs) (\<lambda>all.
         map as_str all = [''a/1.txt'', ''a/sub/3.txt'', ''aa.txt'', ''b/2.txt'', ''c.txt''])
       \<and> unwrap (local_list store (E 7) ''a/'' fs) (\<lambda>under_a. map as_str under_a = [''a/1.txt'', ''a/sub/3.txt''])
       \<and> unwrap (local_list store (E 8) ''a'' fs) (\<lambda>raw_a.
           map as_str raw_a = [''a/1.txt'', ''a/sub/3.txt'', ''aa.txt''])
       \<and> unwrap (local_list store (E 9) ''zzz/'' fs) (\<lambda>none. none = [])))"

section \<open>The keys of the tests\<close>

definition test_texts :: "string list" where
  "test_texts = [''a/b.txt'', ''deep/nested/file.bin'', ''file.txt'', ''missing.txt'', ''del.txt'', ''big.bin'',
     ''atomic.txt'', ''presign.txt'', ''b/2.txt'', ''a/1.txt'', ''a/sub/3.txt'', ''c.txt'', ''aa.txt'',
     ''big/object.bin'', ''parity/data.bin'', ''parity/absent.bin'', ''local/hello.txt'', ''a/b/c/d.bin'', ''dyn/test.txt'',
     ''ok/data.bin'', ''ring/data.bin'', ''ring/absent.bin'', ''big/data.bin'']"

definition test_keys :: "object_key set" where
  "test_keys = ObjectKey ` set test_texts"

lemma test_keys_apart: "keys_apart test_keys"
proof -
  have ok: "list_all (\<lambda>t. local_ok_key (ObjectKey t)
      \<and> list_all (\<lambda>c. \<not> starts_with c ''.blobkit-'') (split_on (CHR ''/'') t)) test_texts"
    by code_simp
  have pre: "list_all (\<lambda>s. list_all (\<lambda>t. \<not> strict_prefix (split_on (CHR ''/'') s) (split_on (CHR ''/'') t)) test_texts) test_texts"
    by code_simp
  from ok pre show ?thesis by (simp add: keys_apart_def test_keys_def key_components_def list_all_iff)
qed

lemma test_key_new: "list_all (\<lambda>t. key_new t = Inr (ObjectKey t)) test_texts"
  by code_simp

lemma test_texts_simps:
  "key_new ''a/b.txt'' = Inr (ObjectKey ''a/b.txt'')"
  "key_new ''deep/nested/file.bin'' = Inr (ObjectKey ''deep/nested/file.bin'')"
  "key_new ''file.txt'' = Inr (ObjectKey ''file.txt'')"
  "key_new ''missing.txt'' = Inr (ObjectKey ''missing.txt'')"
  "key_new ''del.txt'' = Inr (ObjectKey ''del.txt'')"
  "key_new ''big.bin'' = Inr (ObjectKey ''big.bin'')"
  "key_new ''atomic.txt'' = Inr (ObjectKey ''atomic.txt'')"
  "key_new ''presign.txt'' = Inr (ObjectKey ''presign.txt'')"
  "key_new ''big/object.bin'' = Inr (ObjectKey ''big/object.bin'')"
  "key_new ''parity/data.bin'' = Inr (ObjectKey ''parity/data.bin'')"
  "key_new ''parity/absent.bin'' = Inr (ObjectKey ''parity/absent.bin'')"
  "key_new ''local/hello.txt'' = Inr (ObjectKey ''local/hello.txt'')"
  "key_new ''a/b/c/d.bin'' = Inr (ObjectKey ''a/b/c/d.bin'')"
  "key_new ''dyn/test.txt'' = Inr (ObjectKey ''dyn/test.txt'')"
  "key_new ''ok/data.bin'' = Inr (ObjectKey ''ok/data.bin'')"
  "key_new ''ring/data.bin'' = Inr (ObjectKey ''ring/data.bin'')"
  "key_new ''ring/absent.bin'' = Inr (ObjectKey ''ring/absent.bin'')"
  "key_new ''big/data.bin'' = Inr (ObjectKey ''big/data.bin'')"
  using test_key_new by (simp_all only: test_texts_def list.pred_inject simp_thms)

lemma test_key_in: "t \<in> set test_texts \<Longrightarrow> ObjectKey t \<in> test_keys"
  by (simp add: test_keys_def)

section \<open>Steps of a test\<close>

definition fresh_dir :: "path \<Rightarrow> node \<Rightarrow> bool" where
  "fresh_dir dir fs \<longleftrightarrow> fs_wf fs \<and> list_all name_ok dir \<and> node_at fs dir = Some (Dir [])"

abbreviation calm_env :: "local_env \<Rightarrow> bool" where
  "calm_env e \<equiv> local_env_ok e \<and> local_quiet e"

abbreviation holds :: "local_store \<Rightarrow> node \<Rightarrow> (object_key \<rightharpoonup> bytes) \<Rightarrow> bool" where
  "holds L fs m \<equiv> represents (root L) test_keys fs m"

text \<open>Opening a store on the directory of a test changes nothing.\<close>

lemma open_fresh:
  assumes "dir_at fs dir" "fs_wf fs" "list_all name_ok dir"
  obtains fs' es where "create_dir_all no_faults dir fs = (Inr (), fs')"
    "sys_stat no_faults (FsPath dir Plain) fs' = Inr (Dir es)"
    "fs_wf fs'" "file_at fs' = file_at fs" "dir_at fs' = dir_at fs"
proof -
  have above: "dir_at fs q" if "prefix q dir" for q
    using that assms(1) by (auto simp: prefix_def intro: dir_at_ancestor)
  then have "file_at fs q = None" if "prefix q dir" for q
    using above [OF that] by (auto simp: dir_at_iff file_at_def)
  from create_dir_all_quiet [OF this] obtain fs' where mk: "create_dir_all no_faults dir fs = (Inr (), fs')"
      "\<And>q. dir_at fs' q \<longleftrightarrow> dir_at fs q \<or> prefix q dir" "file_at fs' = file_at fs" by blast
  from mk(2) above have dirs: "dir_at fs' = dir_at fs" by (auto simp: fun_eq_iff)
  have wf: "fs_wf fs'" using fs_wf_create_dir_all [OF assms(2,3), of no_faults] mk(1) by simp
  have "dir_at fs' dir" using assms(1) dirs by simp
  then obtain es where "node_at fs' dir = Some (Dir es)" by (auto simp: dir_at_iff)
  then have "sys_stat no_faults (FsPath dir Plain) fs' = Inr (Dir es)"
    by (simp add: sys_stat_def no_faults_def lookup_at)
  with that mk(1,3) wf dirs show ?thesis by blast
qed

lemma fresh_represents: "fresh_dir dir fs \<Longrightarrow> represents dir test_keys fs Map.empty"
  by (simp add: fresh_dir_def represents_empty)

lemma with_limits_fresh:
  assumes "fresh_dir dir fs" "calm_env e"
  shows "\<exists>fs'. local_with_limits e dir limit fs = (Inr \<lparr>root = dir, max_bytes = limit\<rparr>, fs')
    \<and> holds \<lparr>root = dir, max_bytes = limit\<rparr> fs' Map.empty"
proof -
  have fresh: "dir_at fs dir" "fs_wf fs" "list_all name_ok dir" using assms(1) by (simp_all add: fresh_dir_def dir_at_iff)
  obtain fs' es where new: "create_dir_all no_faults dir fs = (Inr (), fs')"
    "sys_stat no_faults (FsPath dir Plain) fs' = Inr (Dir es)"
    "fs_wf fs'" "file_at fs' = file_at fs" "dir_at fs' = dir_at fs" by (rule open_fresh [OF fresh])
  with represents_cong [OF fresh_represents [OF assms(1)] new(3-5)] assms(2) show ?thesis
    by (simp add: local_with_limits_def local_quiet_def)
qed

lemma temp_store_step:
  assumes "fresh_dir dir fs" "calm_env e"
    and "\<And>L fs'. max_bytes L = None \<Longrightarrow> holds L fs' Map.empty \<Longrightarrow> f L fs'"
  shows "temp_store e dir fs f"
  using with_limits_fresh [OF assms(1,2), of None] assms(3) by (auto simp: temp_store_def local_new_def)

lemma put_step:
  assumes "holds L fs m" "ObjectKey t \<in> test_keys" "calm_env e" "\<not> over_limit (max_bytes L) d" "length d < 2 ^ 64"
  obtains i fs' where "local_put L e (ObjectKey t) d fs = (Inr i, fs')" "holds L fs' (m(ObjectKey t \<mapsto> d))"
  using local_put_match [OF test_keys_apart assms(1,2) _ _ assms(4,5), of e] assms(3) by blast

lemma delete_step:
  assumes "holds L fs m" "ObjectKey t \<in> test_keys" "calm_env e"
  obtains fs' where "local_delete L e (ObjectKey t) fs
      = (if ObjectKey t \<in> dom m then Inr () else Inl (NotFound t), fs')" "holds L fs' (m(ObjectKey t := None))"
  using local_delete_match [OF test_keys_apart assms(1,2), of e] assms(3) by auto

lemma read_steps:
  assumes "holds L fs m" "ObjectKey t \<in> test_keys" "calm_env e"
  shows "local_get L e (ObjectKey t) fs = (case m (ObjectKey t) of Some d \<Rightarrow> Inr d | None \<Rightarrow> Inl (NotFound t))"
    and "local_exists L e (ObjectKey t) fs = Inr (ObjectKey t \<in> dom m)"
  using local_get_match [OF test_keys_apart assms(1,2), of e] local_exists_match [OF test_keys_apart assms(1,2), of e]
    assms(3) by (auto split: option.splits)

lemma put_each_step:
  assumes "holds L fs m" "set ts \<subseteq> set test_texts" "\<And>n. calm_env (E n)" "max_bytes L = None"
  shows "\<exists>fs'. holds L fs' (fold (\<lambda>t m. m(ObjectKey t \<mapsto> bytes_of ''x'')) ts m)
    \<and> (\<forall>f. put_each (local_ops L) E n ts fs f = f fs')"
  using assms(1,2)
proof (induction ts arbitrary: fs m n)
  case Nil
  then show ?case by auto
next
  case (Cons t ts)
  then have t: "t \<in> set test_texts" by simp
  then have new: "key_new t = Inr (ObjectKey t)" using test_key_new by (simp add: list_all_iff)
  obtain i fs1 where put: "local_put L (E n) (ObjectKey t) (bytes_of ''x'') fs = (Inr i, fs1)"
      and rep: "holds L fs1 (m(ObjectKey t \<mapsto> bytes_of ''x''))"
    using put_step [OF Cons.prems(1) test_key_in [OF t] assms(3), of "bytes_of ''x''"] assms(4)
    by (auto simp: over_limit_def bytes_of_def)
  from Cons.IH [OF rep, of "Suc n"] Cons.prems(2) new put show ?case by (simp add: local_ops_def)
qed

section \<open>The proofs\<close>

lemma in_test_keys [simp]:
  "ObjectKey ''a/b.txt'' \<in> test_keys" "ObjectKey ''deep/nested/file.bin'' \<in> test_keys" "ObjectKey ''file.txt'' \<in> test_keys"
  "ObjectKey ''missing.txt'' \<in> test_keys" "ObjectKey ''del.txt'' \<in> test_keys" "ObjectKey ''big.bin'' \<in> test_keys"
  "ObjectKey ''atomic.txt'' \<in> test_keys" "ObjectKey ''presign.txt'' \<in> test_keys" "ObjectKey ''big/object.bin'' \<in> test_keys"
  "ObjectKey ''parity/data.bin'' \<in> test_keys" "ObjectKey ''parity/absent.bin'' \<in> test_keys"
  "ObjectKey ''local/hello.txt'' \<in> test_keys" "ObjectKey ''a/b/c/d.bin'' \<in> test_keys" "ObjectKey ''dyn/test.txt'' \<in> test_keys"
  "ObjectKey ''ok/data.bin'' \<in> test_keys" "ObjectKey ''ring/data.bin'' \<in> test_keys" "ObjectKey ''ring/absent.bin'' \<in> test_keys"
  "ObjectKey ''big/data.bin'' \<in> test_keys"
  by (simp_all add: test_keys_def test_texts_def)

lemma local_put_tests:
  assumes "fresh_dir dir fs" "\<And>n. calm_env (E n)"
  shows "test_local_put_and_get E dir fs" "test_local_put_creates_parent_dirs E dir fs"
proof -
  show "test_local_put_and_get E dir fs"
    unfolding test_local_put_and_get_def
  proof (rule temp_store_step [OF assms], unfold test_texts_simps unwrap.simps)
    fix L fs assume L: "max_bytes L = None" "holds L fs Map.empty"
    obtain i fs1 where "local_put L (E 1) (ObjectKey ''a/b.txt'') (bytes_of ''hello'') fs = (Inr i, fs1)"
        "holds L fs1 [ObjectKey ''a/b.txt'' \<mapsto> bytes_of ''hello'']"
      by (rule put_step [OF L(2) _ assms(2), of "''a/b.txt''" "bytes_of ''hello''"]) (simp_all add: L over_limit_def bytes_of_def)
    with read_steps(1) [OF this(2) _ assms(2)]
    show "let (r, fs) = local_put L (E 1) (ObjectKey ''a/b.txt'') (bytes_of ''hello'') fs
       in unwrap r (\<lambda>_. unwrap (local_get L (E 2) (ObjectKey ''a/b.txt'') fs) (\<lambda>got. got = bytes_of ''hello''))"
      by simp
  qed
  show "test_local_put_creates_parent_dirs E dir fs"
    unfolding test_local_put_creates_parent_dirs_def
  proof (rule temp_store_step [OF assms], unfold test_texts_simps unwrap.simps)
    fix L fs assume L: "max_bytes L = None" "holds L fs Map.empty"
    obtain i fs1 where "local_put L (E 1) (ObjectKey ''deep/nested/file.bin'') [1, 2, 3] fs = (Inr i, fs1)"
        "holds L fs1 [ObjectKey ''deep/nested/file.bin'' \<mapsto> [1, 2, 3]]"
      by (rule put_step [OF L(2) _ assms(2), of "''deep/nested/file.bin''" "[1, 2, 3]"]) (simp_all add: L over_limit_def)
    with read_steps(2) [OF this(2) _ assms(2)]
    show "let (r, fs) = local_put L (E 1) (ObjectKey ''deep/nested/file.bin'') [1, 2, 3] fs
       in unwrap r (\<lambda>_. unwrap (local_exists L (E 2) (ObjectKey ''deep/nested/file.bin'') fs) (\<lambda>b. b))"
      by simp
  qed
qed

text \<open>Two puts under one key: the second is what is read.\<close>

lemma put_twice:
  assumes "holds L fs Map.empty" "max_bytes L = None" "ObjectKey t \<in> test_keys" "\<And>n. calm_env (E n)"
    and "length d1 < 2 ^ 64" "length d2 < 2 ^ 64"
  shows "let (r1, fs) = local_put L (E 1) (ObjectKey t) d1 fs
       in unwrap r1 (\<lambda>_. let (r2, fs) = local_put L (E 2) (ObjectKey t) d2 fs
       in unwrap r2 (\<lambda>_. unwrap (local_get L (E 3) (ObjectKey t) fs) (\<lambda>d. d = d2)))"
proof -
  obtain i fs1 where p1: "local_put L (E 1) (ObjectKey t) d1 fs = (Inr i, fs1)" "holds L fs1 [ObjectKey t \<mapsto> d1]"
    by (rule put_step [OF assms(1,3,4), of d1]) (use assms(2,5) in \<open>simp_all add: over_limit_def\<close>)
  obtain j fs2 where p2: "local_put L (E 2) (ObjectKey t) d2 fs1 = (Inr j, fs2)" "holds L fs2 [ObjectKey t \<mapsto> d2]"
    by (rule put_step [OF p1(2) assms(3,4), of d2]) (use assms(2,6) in \<open>simp_all add: over_limit_def\<close>)
  from read_steps(1) [OF p2(2) assms(3,4)] p1(1) p2(1) show ?thesis by simp
qed

lemma local_overwrite_tests:
  assumes "fresh_dir dir fs" "\<And>n. calm_env (E n)"
  shows "test_local_overwrite E dir fs" "test_local_atomic_write_no_partial_on_overwrite E dir fs"
proof -
  show "test_local_overwrite E dir fs"
    unfolding test_local_overwrite_def
    by (rule temp_store_step [OF assms], unfold test_texts_simps unwrap.simps,
        rule put_twice [OF _ _ _ assms(2)]) (simp_all add: bytes_of_def)
  show "test_local_atomic_write_no_partial_on_overwrite E dir fs"
    unfolding test_local_atomic_write_no_partial_on_overwrite_def
    by (rule temp_store_step [OF assms], unfold test_texts_simps unwrap.simps,
        rule put_twice [OF _ _ _ assms(2)]) (simp_all add: bytes_of_def)
qed

lemma local_missing_tests:
  assumes "fresh_dir dir fs" "\<And>n. calm_env (E n)"
  shows "test_local_not_found E dir fs" "test_local_delete E dir fs"
proof -
  show "test_local_not_found E dir fs"
    unfolding test_local_not_found_def
  proof (rule temp_store_step [OF assms], unfold test_texts_simps unwrap.simps)
    fix L fs assume L: "max_bytes L = None" "holds L fs Map.empty"
    obtain fs1 where "local_delete L (E 2) (ObjectKey ''missing.txt'') fs = (Inl (NotFound ''missing.txt''), fs1)"
        "holds L fs1 Map.empty"
      by (rule delete_step [OF L(2) _ assms(2), of "''missing.txt''" 2]) (simp_all add: fun_upd_idem)
    with read_steps(1) [OF L(2) _ assms(2), of "''missing.txt''"] read_steps(2) [OF this(2) _ assms(2), of "''missing.txt''"]
    show "unwrap_err (local_get L (E 1) (ObjectKey ''missing.txt'') fs) is_not_found
       \<and> (let (r, fs) = local_delete L (E 2) (ObjectKey ''missing.txt'') fs
          in unwrap_err r is_not_found \<and> unwrap (local_exists L (E 3) (ObjectKey ''missing.txt'') fs) (\<lambda>b. \<not> b))"
      by simp
  qed
  show "test_local_delete E dir fs"
    unfolding test_local_delete_def
  proof (rule temp_store_step [OF assms], unfold test_texts_simps unwrap.simps)
    fix L fs assume L: "max_bytes L = None" "holds L fs Map.empty"
    obtain i fs1 where p: "local_put L (E 1) (ObjectKey ''del.txt'') (bytes_of ''x'') fs = (Inr i, fs1)"
        "holds L fs1 [ObjectKey ''del.txt'' \<mapsto> bytes_of ''x'']"
      by (rule put_step [OF L(2) _ assms(2), of "''del.txt''" "bytes_of ''x''"]) (simp_all add: L over_limit_def bytes_of_def)
    obtain fs2 where "local_delete L (E 2) (ObjectKey ''del.txt'') fs1 = (Inr (), fs2)" "holds L fs2 Map.empty"
      by (rule delete_step [OF p(2) _ assms(2), of "''del.txt''" 2]) (simp_all add: fun_upd_idem)
    with p(1) read_steps(2) [OF this(2) _ assms(2), of "''del.txt''"]
    show "let (r1, fs) = local_put L (E 1) (ObjectKey ''del.txt'') (bytes_of ''x'') fs
       in unwrap r1 (\<lambda>_. let (r2, fs) = local_delete L (E 2) (ObjectKey ''del.txt'') fs
       in unwrap r2 (\<lambda>_. unwrap (local_exists L (E 3) (ObjectKey ''del.txt'') fs) (\<lambda>b. \<not> b)))"
      by simp
  qed
qed

lemma local_max_bytes_test:
  assumes "fresh_dir dir fs" "\<And>n. calm_env (E n)"
  shows "test_local_max_bytes_guard E dir fs"
proof -
  let ?L = "\<lparr>root = dir, max_bytes = Some 5\<rparr>" and ?k = "ObjectKey ''big.bin''"
  obtain fs1 where new: "local_with_limits (E 0) dir (Some 5) fs = (Inr ?L, fs1)" "holds ?L fs1 Map.empty"
    using with_limits_fresh [OF assms(1,2)] by blast
  have big: "local_put ?L (E 1) ?k (replicate 6 0) fs1 = (Inl StorageFull, fs1)"
    by (simp add: local_put_def over_limit_def)
  obtain i fs2 where "local_put ?L (E 2) ?k (replicate 5 0) fs1 = (Inr i, fs2)"
    by (rule put_step [OF new(2) _ assms(2), of "''big.bin''" "replicate 5 0"]) (simp_all add: over_limit_def)
  with new(1) big show ?thesis by (simp add: test_local_max_bytes_guard_def test_texts_simps)
qed

lemma contains_middle: "str_contains (a @ b @ c) b"
  by (simp add: str_contains_iff)

lemma local_presign_test:
  assumes "fresh_dir dir fs" "\<And>n. calm_env (E n)"
  shows "test_local_presigned_url_exists_check E dir fs"
  unfolding test_local_presigned_url_exists_check_def
proof (rule temp_store_step [OF assms], unfold test_texts_simps unwrap.simps)
  let ?k = "ObjectKey ''presign.txt''"
  fix L fs assume L: "max_bytes L = None" "holds L fs Map.empty"
  have res: "local_resolve L ?k = Inr (FsPath (key_path L ?k) Plain)"
    by (rule ok_key_resolve [OF keys_apartD(1) [OF test_keys_apart]]) simp
  obtain i fs1 where p: "local_put L (E 2) ?k (bytes_of ''data'') fs = (Inr i, fs1)" "holds L fs1 [?k \<mapsto> bytes_of ''data'']"
    by (rule put_step [OF L(2) _ assms(2), of "''presign.txt''" "bytes_of ''data''"]) (simp_all add: L over_limit_def bytes_of_def)
  have "local_presigned_url L (E 1) ?k 60 fs = Inl (NotFound ''presign.txt'')"
    using read_steps(2) [OF L(2) _ assms(2), of "''presign.txt''"] by (simp add: local_presigned_url_def)
  moreover have "local_presigned_url L (E 3) ?k 60 fs1
      = Inr ((''file://'' @ join_display (root L) ''presign.txt'' @ ''?'') @ ''expires'' @ (''='' @ dec_of_nat (unat (60 :: u64))))"
    using read_steps(2) [OF p(2) _ assms(2), of "''presign.txt''"] by (simp add: local_presigned_url_def res)
  ultimately show "unwrap_err (local_presigned_url L (E 1) ?k 60 fs) is_not_found
       \<and> (let (r, fs) = local_put L (E 2) ?k (bytes_of ''data'') fs
          in unwrap r (\<lambda>_. unwrap (local_presigned_url L (E 3) ?k 60 fs) (\<lambda>url. str_contains url ''expires'')))"
    by (simp only: p(1) Let_def case_prod_conv unwrap.simps unwrap_err.simps is_not_found.simps contains_middle simp_thms)
qed

lemma local_list_test:
  assumes "fresh_dir dir fs" "\<And>n. calm_env (E n)"
  shows "test_local_list_prefix_sorted_and_complete E dir fs"
  unfolding test_local_list_prefix_sorted_and_complete_def
proof (rule temp_store_step [OF assms])
  fix L fs assume L: "max_bytes L = None" "holds L fs Map.empty"
  let ?ts = "[''b/2.txt'', ''a/1.txt'', ''a/sub/3.txt'', ''c.txt'', ''aa.txt'']"
  let ?m = "fold (\<lambda>t m. m(ObjectKey t \<mapsto> bytes_of ''x'')) ?ts Map.empty"
  have "set ?ts \<subseteq> set test_texts" by (simp add: test_texts_def)
  from put_each_step [OF L(2) this assms(2) L(1)] obtain fs1
    where step: "holds L fs1 ?m \<and> (\<forall>f. put_each (local_ops L) E 1 ?ts fs f = f fs1)" ..
  note fs1 = conjunct1 [OF step] conjunct2 [OF step, rule_format]
  have dom: "dom ?m = ObjectKey ` set ?ts" by auto
  have list: "local_list L (E n) p fs1 = Inr (map ObjectKey us)"
    if "sorted (map ObjectKey us)" "distinct us" "set us = set (filter (\<lambda>t. starts_with t p) ?ts)" for n p us
  proof -
    have "ObjectKey t \<in> dom ?m \<and> starts_with t p \<longleftrightarrow> t \<in> set us" for t
      unfolding dom that(3) set_filter by (simp only: image_iff object_key.inject mem_Collect_eq) blast
    from sorted_keys [OF that(1,2) this] show ?thesis
      using local_list_match [OF test_keys_apart fs1(1), of "E n" p] assms(2) by (simp only:)
  qed
  have "local_list L (E 6) '''' fs1 = Inr (map ObjectKey [''a/1.txt'', ''a/sub/3.txt'', ''aa.txt'', ''b/2.txt'', ''c.txt''])"
    by (rule list; code_simp)
  moreover have "local_list L (E 7) ''a/'' fs1 = Inr (map ObjectKey [''a/1.txt'', ''a/sub/3.txt''])"
    by (rule list; code_simp)
  moreover have "local_list L (E 8) ''a'' fs1 = Inr (map ObjectKey [''a/1.txt'', ''a/sub/3.txt'', ''aa.txt''])"
    by (rule list; code_simp)
  moreover have "local_list L (E 9) ''zzz/'' fs1 = Inr (map ObjectKey [])"
    by (rule list; code_simp)
  ultimately show "put_each (local_ops L) E 1 ?ts fs (\<lambda>fs.
       unwrap (local_list L (E 6) '''' fs) (\<lambda>all.
         map as_str all = [''a/1.txt'', ''a/sub/3.txt'', ''aa.txt'', ''b/2.txt'', ''c.txt''])
       \<and> unwrap (local_list L (E 7) ''a/'' fs) (\<lambda>under_a. map as_str under_a = [''a/1.txt'', ''a/sub/3.txt''])
       \<and> unwrap (local_list L (E 8) ''a'' fs) (\<lambda>raw_a.
           map as_str raw_a = [''a/1.txt'', ''a/sub/3.txt'', ''aa.txt''])
       \<and> unwrap (local_list L (E 9) ''zzz/'' fs) (\<lambda>none. none = []))"
    unfolding fs1(2) by simp
qed

section \<open>Properties\<close>

text \<open>The unit tests of \<open>local.rs\<close> pass in every tree with a fresh empty directory for the test, wherever it
  is and whatever surrounds it, in every quiet environment.\<close>

theorem local_tests_pass:
  assumes "fresh_dir dir fs" "\<And>n. local_env_ok (E n) \<and> local_quiet (E n)"
  shows "test_local_put_and_get E dir fs \<and> test_local_put_creates_parent_dirs E dir fs \<and> test_local_overwrite E dir fs
    \<and> test_local_not_found E dir fs \<and> test_local_delete E dir fs \<and> test_local_max_bytes_guard E dir fs
    \<and> test_local_atomic_write_no_partial_on_overwrite E dir fs \<and> test_local_presigned_url_exists_check E dir fs
    \<and> test_local_list_prefix_sorted_and_complete E dir fs"
  by (intro conjI local_put_tests local_overwrite_tests local_missing_tests local_max_bytes_test local_presign_test
      local_list_test assms)

theorem local_tests_pass_witness:
  "test_local_list_prefix_sorted_and_complete (\<lambda>n. calm) [''r''] empty_r
   \<and> test_local_presigned_url_exists_check (\<lambda>n. calm) [''r''] empty_r"
proof -
  have "fresh_dir [''r''] empty_r" by (simp add: fresh_dir_def empty_r_def name_ok_def)
  from local_tests_pass [OF this, of "\<lambda>n. calm"] show ?thesis by simp
qed

end
