(* ===== verification/Ring_Tests.thy ===== *)
theory Ring_Tests
  imports Local_Tests
begin

text \<open>
  The unit tests of \<open>src/src/io_uring_backend.rs\<close>, of the driver and of the store, each as the truth value
  of its body. A transfer that does not return fails its test. A writing call \<open>n\<close> gets the environment
  \<open>W n\<close>, a reading one \<open>R n\<close>; the payloads of several chunks are handled by the theorems of the
  driver, for every kernel that keeps its promises, so that nothing is run.
\<close>

section \<open>IoUringFile\<close>

text \<open>\<open>(0..n).map(|i| (i % m) as u8).collect()\<close>.\<close>

definition counting :: "nat \<Rightarrow> nat \<Rightarrow> bytes" where
  "counting n m = map (\<lambda>i. word_of_nat (i mod m)) [0..<n]"

definition test_uring_write_then_read_roundtrip :: "faults \<Rightarrow> kernel \<Rightarrow> kernel \<Rightarrow> path \<Rightarrow> node \<Rightarrow> bool" where
  "test_uring_write_then_read_roundtrip flt W R dir fs \<longleftrightarrow>
     (let p = FsPath (dir @ [''f.bin'']) Plain;
          payload = counting (3 * DEFAULT_CHUNK_SIZE) 251;
          (r, fs) = uring_create flt p fs
      in unwrap r (\<lambda>f. unwrap_some (uring_write_all_at W f 0 payload (image_of [])) (\<lambda>(q, st). unwrap q (\<lambda>_.
        let fs = set_path (uring_file f) (File (image_bytes (disk st))) fs
        in unwrap (sys_sync_all flt (uring_file f)) (\<lambda>_.
          let out = replicate (length payload) 0
          in unwrap (uring_open flt p fs) (\<lambda>f. case uring_file f of Dir es \<Rightarrow> False | File d \<Rightarrow>
               unwrap_some (uring_read_all_at R f 0 out (image_of d)) (\<lambda>(q, st). unwrap q (\<lambda>_. mem st = payload))))))))"

definition test_uring_offset_write_extends_middle :: "faults \<Rightarrow> kernel \<Rightarrow> kernel \<Rightarrow> path \<Rightarrow> node \<Rightarrow> bool" where
  "test_uring_offset_write_extends_middle flt W R dir fs \<longleftrightarrow>
     (let p = FsPath (dir @ [''f.bin'']) Plain; (r, fs) = uring_create flt p fs
      in unwrap r (\<lambda>f. unwrap_some (uring_write_all_at W f 0 (replicate 4096 0) (image_of [])) (\<lambda>(q, st). unwrap q (\<lambda>_.
         unwrap_some (uring_write_all_at W f 1000 (replicate 16 7) (disk st)) (\<lambda>(q, st). unwrap q (\<lambda>_.
        let fs = set_path (uring_file f) (File (image_bytes (disk st))) fs
        in unwrap (uring_open flt p fs) (\<lambda>f. case uring_file f of Dir es \<Rightarrow> False | File d \<Rightarrow>
             unwrap_some (uring_read_all_at R f 0 (replicate 4096 0) (image_of d)) (\<lambda>(q, st). unwrap q (\<lambda>_.
               let out = mem st
               in take 16 (drop 1000 out) = replicate 16 7 \<and> out ! 0 = 0 \<and> out ! 1016 = 0)))))))))"

section \<open>IoUringStore\<close>

definition test_ring_roundtrip_large_object :: "(nat \<Rightarrow> ring_env) \<Rightarrow> (nat \<Rightarrow> ring_env) \<Rightarrow> path \<Rightarrow> node \<Rightarrow> bool" where
  "test_ring_roundtrip_large_object W R dir fs \<longleftrightarrow>
     (let (r, fs) = ring_new (base (W 0)) dir fs
      in unwrap r (\<lambda>store.
        let payload = counting (3 * 1024 * 1024) 249
        in unwrap (key_new ''big/object.bin'') (\<lambda>key.
          unwrap_some (ring_put store (W 1) key payload fs) (\<lambda>(q, fs). unwrap q (\<lambda>_.
          unwrap_some (ring_get store (R 2) key fs) (\<lambda>q. unwrap q (\<lambda>got.
            length got = length payload \<and> got = payload)))))))"

definition test_ring_parity_with_local_store ::
  "(nat \<Rightarrow> ring_env) \<Rightarrow> (nat \<Rightarrow> ring_env) \<Rightarrow> path \<Rightarrow> path \<Rightarrow> node \<Rightarrow> bool" where
  "test_ring_parity_with_local_store W R ring_dir local_dir fs \<longleftrightarrow>
     (let payload = counting (2 * DEFAULT_CHUNK_SIZE + 777) 253;
          (r, fs) = ring_new (base (W 0)) ring_dir fs
      in unwrap r (\<lambda>ring. let (r, fs) = local_new (base (W 1)) local_dir fs
      in unwrap r (\<lambda>local. unwrap (key_new ''parity/data.bin'') (\<lambda>key.
        unwrap_some (ring_put ring (W 2) key payload fs) (\<lambda>(q, fs). unwrap q (\<lambda>_.
        let (q, fs) = local_put local (base (W 3)) key payload fs in unwrap q (\<lambda>_.
        unwrap_some (ring_get ring (R 4) key fs) (\<lambda>q. unwrap q (\<lambda>a.
          unwrap (local_get local (base (R 5)) key fs) (\<lambda>b. a = b)))
        \<and> (let v2 = bytes_of ''second version'' in
           unwrap_some (ring_put ring (W 6) key v2 fs) (\<lambda>(q, fs). unwrap q (\<lambda>_.
           let (q, fs) = local_put local (base (W 7)) key v2 fs in unwrap q (\<lambda>_.
           unwrap_some (ring_get ring (R 8) key fs) (\<lambda>q. unwrap q (\<lambda>a. a = v2))
           \<and> unwrap (local_get local (base (R 9)) key fs) (\<lambda>b. b = v2)
           \<and> unwrap (key_new ''parity/absent.bin'') (\<lambda>missing.
               unwrap_some (ring_get ring (R 10) missing fs) (\<lambda>q. unwrap_err q is_not_found)
               \<and> unwrap_err (local_get local (base (R 11)) missing fs) is_not_found))))))))))))"

section \<open>Steps of a driver test\<close>

abbreviation handle :: "'f \<Rightarrow> 'f io_uring_file" where
  "handle f \<equiv> \<lparr>uring_file = f, ring_size = DEFAULT_RING_SIZE, chunk_size = DEFAULT_CHUNK_SIZE\<rparr>"

lemma create_fresh:
  assumes "fresh_dir dir fs"
  shows "uring_create no_faults (FsPath (dir @ [n]) Plain) fs = (Inr (handle (dir @ [n])), set_path (dir @ [n]) (File []) fs)"
    and "file_at (set_path (dir @ [n]) (File []) fs) = (file_at fs)(dir @ [n] \<mapsto> [])"
proof -
  have d: "node_at fs dir = Some (Dir [])" using assms by (simp add: fresh_dir_def)
  have no: "\<not> dir_at fs (dir @ [n])" by (simp add: dir_at_def node_at_append d)
  then show "uring_create no_faults (FsPath (dir @ [n]) Plain) fs = (Inr (handle (dir @ [n])), set_path (dir @ [n]) (File []) fs)"
    using d by (simp add: uring_create_def sys_open_truncate_def uring_from_file_def no_faults_def lookup_at)
  show "file_at (set_path (dir @ [n]) (File []) fs) = (file_at fs)(dir @ [n] \<mapsto> [])"
    using set_file [of "dir @ [n]" fs "[]"] no d by (simp add: dir_at_iff)
qed

text \<open>Opening a file whose image was written.\<close>

lemma open_written:
  assumes "file_at fs p = Some x" "p \<noteq> []"
  shows "uring_open no_faults (FsPath p Plain) (set_path p (File d) fs) = Inr (handle (File d))"
proof -
  have "file_at (set_path p (File d) fs) p = Some d"
    using set_file [OF assms(2) file_parent_dir [OF assms] file_not_dir [OF assms(1)], of d] by simp
  then show ?thesis by (simp add: uring_open_def sys_open_def uring_from_file_def no_faults_def file_at_iff lookup_at)
qed

lemma write_step:
  assumes "lawful_kernel K True" "healthy_kernel K True" "off + length d < 2 ^ 64"
  obtains st where "uring_write_all_at K (handle f) off d im = Some (Inr (), st)" "disk st = image_write off d im"
  using write_total [OF assms(1,3), of im] assms(2) write_all_at_result [OF _ assms(1,3), of im] by auto

lemma read_step:
  assumes "lawful_kernel K False" "healthy_kernel K False" "length d < 2 ^ 64" "n = length d"
  obtains st where "uring_read_all_at K (handle f) 0 (replicate n 0) (image_of d) = Some (Inr (), st)" "mem st = d"
  using read_total [OF assms(1), of 0 "replicate (length d) 0" "image_of d"] assms(2-4)
    read_all_at_result [OF _ assms(1), of 0 "replicate (length d) 0" "image_of d"] image_read_all [of d]
  by (auto simp: image_of_def)

lemma length_counting [simp]: "length (counting n m) = n"
  by (simp add: counting_def)

lemma write_read_test:
  assumes "fresh_dir dir fs" "lawful_kernel W True" "healthy_kernel W True" "lawful_kernel R False" "healthy_kernel R False"
  shows "test_uring_write_then_read_roundtrip no_faults W R dir fs"
proof -
  define payload where "payload = counting (3 * DEFAULT_CHUNK_SIZE) 251"
  have len: "length payload < 2 ^ 64" by (simp add: payload_def DEFAULT_CHUNK_SIZE_def)
  let ?p = "dir @ [''f.bin'']"
  note mk = create_fresh [OF assms(1), of "''f.bin''"]
  obtain st where w: "uring_write_all_at W (handle ?p) 0 payload (image_of []) = Some (Inr (), st)"
      "disk st = image_write 0 payload (image_of [])"
    by (rule write_step [OF assms(2,3), of 0 payload]) (use len in simp_all)
  then have img: "image_bytes (disk st) = payload" by (simp add: image_write_new)
  have op: "uring_open no_faults (FsPath ?p Plain) (set_path ?p (File payload) (set_path ?p (File []) fs)) = Inr (handle (File payload))"
    by (rule open_written) (simp_all add: mk(2))
  obtain st' where r: "uring_read_all_at R (handle (File payload)) 0 (replicate (length payload) 0) (image_of payload) = Some (Inr (), st')"
      "mem st' = payload"
    by (rule read_step [OF assms(4,5) len refl])
  show ?thesis
    unfolding test_uring_write_then_read_roundtrip_def payload_def [symmetric]
    by (simp add: mk(1) w(1) img op r sys_sync_all_def no_faults_def del: uring_transfers)
qed

text \<open>The middle of a written image.\<close>

lemma image_middle:
  assumes "off + length d \<le> n"
  shows "image_bytes (image_write off d (image_write 0 (replicate n x) (image_of [])))
    = replicate off x @ d @ replicate (n - off - length d) x"
  using assms
  by (intro nth_equalityI) (auto simp: image_bytes_def image_write_def image_of_def nth_append split: if_splits)

lemma middle_test:
  assumes "fresh_dir dir fs" "lawful_kernel W True" "healthy_kernel W True" "lawful_kernel R False" "healthy_kernel R False"
  shows "test_uring_offset_write_extends_middle no_faults W R dir fs"
proof -
  define zeros where "zeros = replicate 4096 (0 :: u8)"
  define sevens where "sevens = replicate 16 (7 :: u8)"
  define d where "d = replicate 1000 0 @ sevens @ replicate 3080 (0 :: u8)"
  have len: "length d < 2 ^ 64" "length d = 4096" "length zeros = 4096" "length sevens = 16"
    by (simp_all add: d_def sevens_def zeros_def)
  let ?p = "dir @ [''f.bin'']"
  note mk = create_fresh [OF assms(1), of "''f.bin''"]
  obtain st1 where w1: "uring_write_all_at W (handle ?p) 0 zeros (image_of []) = Some (Inr (), st1)"
      "disk st1 = image_write 0 zeros (image_of [])"
    by (rule write_step [OF assms(2,3), of 0 zeros]) (use len in simp_all)
  obtain st2 where w2: "uring_write_all_at W (handle ?p) 1000 sevens (disk st1) = Some (Inr (), st2)"
      "disk st2 = image_write 1000 sevens (disk st1)"
    by (rule write_step [OF assms(2,3), of 1000 sevens]) (use len in simp_all)
  have img: "image_bytes (disk st2) = d"
    using image_middle [of 1000 sevens 4096 0] by (simp add: w1(2) w2(2) zeros_def d_def sevens_def)
  have op: "uring_open no_faults (FsPath ?p Plain) (set_path ?p (File d) (set_path ?p (File []) fs)) = Inr (handle (File d))"
    by (rule open_written) (simp_all add: mk(2))
  obtain st3 where r: "uring_read_all_at R (handle (File d)) 0 zeros (image_of d) = Some (Inr (), st3)" "mem st3 = d"
    unfolding zeros_def by (rule read_step [OF assms(4,5) len(1)]) (use len(2) in simp_all)
  have "take 16 (drop 1000 d) = sevens" "d ! 0 = 0" "d ! 1016 = 0"
    by (simp_all add: d_def sevens_def nth_append)
  then show ?thesis
    unfolding test_uring_offset_write_extends_middle_def zeros_def [symmetric] sevens_def [symmetric]
    by (simp add: mk(1) w1(1) w2(1) img op r del: uring_transfers)
qed

section \<open>Steps of a store test\<close>

abbreviation ring_holds :: "ring_store \<Rightarrow> node \<Rightarrow> (object_key \<rightharpoonup> bytes) \<Rightarrow> bool" where
  "ring_holds R fs m \<equiv> represents (ring_root R) test_keys fs m"

lemma ring_new_step:
  assumes "represents dir test_keys fs m" "calm_env e"
  obtains fs' where "ring_new e dir fs = (Inr \<lparr>ring_root = dir, ring_max_bytes = None\<rparr>, fs')"
    "fs_wf fs'" "file_at fs' = file_at fs" "dir_at fs' = dir_at fs"
proof -
  obtain fs' es where new: "create_dir_all no_faults dir fs = (Inr (), fs')"
    "sys_stat no_faults (FsPath dir Plain) fs' = Inr (Dir es)"
    "fs_wf fs'" "file_at fs' = file_at fs" "dir_at fs' = dir_at fs" by (rule open_fresh [OF representsD(3,1,2) [OF assms(1)]])
  with assms(2) have "ring_new e dir fs = (Inr \<lparr>ring_root = dir, ring_max_bytes = None\<rparr>, fs')"
    by (simp add: ring_new_def ring_with_limits_def local_quiet_def)
  then show ?thesis by (rule that [OF _ new(3-5)])
qed

lemma local_new_step:
  assumes "represents dir test_keys fs m" "calm_env e"
  obtains fs' where "local_new e dir fs = (Inr \<lparr>root = dir, max_bytes = None\<rparr>, fs')"
    "fs_wf fs'" "file_at fs' = file_at fs" "dir_at fs' = dir_at fs"
proof -
  obtain fs' es where new: "create_dir_all no_faults dir fs = (Inr (), fs')"
    "sys_stat no_faults (FsPath dir Plain) fs' = Inr (Dir es)"
    "fs_wf fs'" "file_at fs' = file_at fs" "dir_at fs' = dir_at fs" by (rule open_fresh [OF representsD(3,1,2) [OF assms(1)]])
  with assms(2) have "local_new e dir fs = (Inr \<lparr>root = dir, max_bytes = None\<rparr>, fs')"
    by (simp add: local_new_def local_with_limits_def local_quiet_def)
  then show ?thesis by (rule that [OF _ new(3-5)])
qed

lemma ring_put_step:
  assumes "ring_holds R fs m" "ObjectKey t \<in> test_keys" "ring_quiet e True" "ring_max_bytes R = None" "length d < 2 ^ 64"
  obtains i fs' where "ring_put R e (ObjectKey t) d fs = Some (Inr i, fs')" "ring_holds R fs' (m(ObjectKey t \<mapsto> d))"
    "adds (ring_root R @ key_components (ObjectKey t)) d fs fs'"
  using ring_put_match [OF test_keys_apart assms(1,2,3) _ assms(5)] assms(4) by (auto simp: over_limit_def)

lemma ring_get_step:
  assumes "ring_holds R fs m" "ObjectKey t \<in> test_keys" "ring_quiet e False"
  shows "ring_get R e (ObjectKey t) fs = Some (case m (ObjectKey t) of Some d \<Rightarrow> Inr d | None \<Rightarrow> Inl (NotFound t))"
  using ring_get_match [OF test_keys_apart assms] by (simp split: option.splits)

lemma large_object_test:
  assumes "fresh_dir dir fs" "\<And>n. ring_quiet (W n) True" "\<And>n. ring_quiet (R n) False"
  shows "test_ring_roundtrip_large_object W R dir fs"
proof -
  define payload where "payload = counting (3 * 1024 * 1024) 249"
  let ?S = "\<lparr>ring_root = dir, ring_max_bytes = None\<rparr>" and ?k = "ObjectKey ''big/object.bin''"
  have len: "length payload < 2 ^ 64" by (simp add: payload_def)
  note rep = fresh_represents [OF assms(1)]
  obtain fs1 where new: "ring_new (base (W 0)) dir fs = (Inr ?S, fs1)"
      "fs_wf fs1" "file_at fs1 = file_at fs" "dir_at fs1 = dir_at fs"
    by (rule ring_new_step [OF rep, of "base (W 0)"]) (use ring_quietD(1,2) [OF assms(2)] in auto)
  from represents_cong [OF rep new(2-4)] have "ring_holds ?S fs1 Map.empty" by simp
  then obtain i fs2 where put: "ring_put ?S (W 1) ?k payload fs1 = Some (Inr i, fs2)" "ring_holds ?S fs2 [?k \<mapsto> payload]"
    by (rule ring_put_step [OF _ _ assms(2) _ len, of ?S fs1 Map.empty "''big/object.bin''" 1]) simp_all
  from ring_get_step [OF put(2) _ assms(3), of "''big/object.bin''" 2]
  show ?thesis
    unfolding test_ring_roundtrip_large_object_def payload_def [symmetric] by (simp add: new(1) test_texts_simps put(1) del: One_nat_def)
qed

text \<open>Two stores in one tree, rooted apart: a put on either keeps what both represent.\<close>

lemma both_put_step:
  assumes "ring_holds R fs m" "holds L fs n" "parallel (ring_root R) (root L)" "ObjectKey t \<in> test_keys"
    and "ring_quiet e True" "calm_env e'" "ring_max_bytes R = None" "max_bytes L = None" "length d < 2 ^ 64"
  obtains i j fs1 fs2 where "ring_put R e (ObjectKey t) d fs = Some (Inr i, fs1)"
    "local_put L e' (ObjectKey t) d fs1 = (Inr j, fs2)"
    "ring_holds R fs2 (m(ObjectKey t \<mapsto> d))" "holds L fs2 (n(ObjectKey t \<mapsto> d))"
proof -
  obtain i fs1 where r: "ring_put R e (ObjectKey t) d fs = Some (Inr i, fs1)" "ring_holds R fs1 (m(ObjectKey t \<mapsto> d))"
      "adds (ring_root R @ key_components (ObjectKey t)) d fs fs1"
    by (rule ring_put_step [OF assms(1,4,5,7,9)])
  have l1: "holds L fs1 n"
    using represents_elsewhere [OF assms(2) r(3)] assms(3) by (simp add: parallel_commute)
  have "\<not> over_limit (max_bytes L) d" by (simp add: assms(8) over_limit_def)
  from local_put_match [OF test_keys_apart l1 assms(4) conjunct1 [OF assms(6)] conjunct2 [OF assms(6)] this assms(9)]
  obtain fs2 where l: "local_put L e' (ObjectKey t) d fs1 = (Inr (blob_id_new (entropy e')), fs2)"
      "holds L fs2 (n(ObjectKey t \<mapsto> d))" "adds (root L @ key_components (ObjectKey t)) d fs1 fs2" by blast
  from represents_elsewhere [OF r(2) l(3)] assms(3) have "ring_holds R fs2 (m(ObjectKey t \<mapsto> d))" by simp
  with r(1) l(1,2) that show ?thesis by blast
qed

lemma parity_test:
  assumes "fresh_dir ring_dir fs" "fresh_dir local_dir fs" "parallel ring_dir local_dir"
    and "\<And>n. ring_quiet (W n) True" "\<And>n. ring_quiet (R n) False"
  shows "test_ring_parity_with_local_store W R ring_dir local_dir fs"
proof -
  define payload where "payload = counting (2 * DEFAULT_CHUNK_SIZE + 777) 253"
  define v2 where "v2 = bytes_of ''second version''"
  let ?S = "\<lparr>ring_root = ring_dir, ring_max_bytes = None\<rparr>" and ?L = "\<lparr>root = local_dir, max_bytes = None\<rparr>"
  let ?k = "ObjectKey ''parity/data.bin''"
  have len: "length payload < 2 ^ 64" "length v2 < 2 ^ 64"
    by (simp_all add: payload_def v2_def bytes_of_def DEFAULT_CHUNK_SIZE_def)
  have calmW: "calm_env (base (W n))" and calmR: "calm_env (base (R n))" for n
    using ring_quietD(1,2) [OF assms(4)] ring_quietD(1,2) [OF assms(5)] by auto
  note repr = fresh_represents [OF assms(1)] and repl = fresh_represents [OF assms(2)]
  obtain fs1 where new1: "ring_new (base (W 0)) ring_dir fs = (Inr ?S, fs1)"
      "fs_wf fs1" "file_at fs1 = file_at fs" "dir_at fs1 = dir_at fs" by (rule ring_new_step [OF repr calmW])
  note repr1 = represents_cong [OF repr new1(2-4)] and repl1 = represents_cong [OF repl new1(2-4)]
  obtain fs2 where new2: "local_new (base (W 1)) local_dir fs1 = (Inr ?L, fs2)"
      "fs_wf fs2" "file_at fs2 = file_at fs1" "dir_at fs2 = dir_at fs1" by (rule local_new_step [OF repl1 calmW])
  have start: "ring_holds ?S fs2 Map.empty" "holds ?L fs2 Map.empty"
    using represents_cong [OF repr1 new2(2-4)] represents_cong [OF repl1 new2(2-4)] by simp_all
  obtain i j fs3 fs4 where p1: "ring_put ?S (W 2) ?k payload fs2 = Some (Inr i, fs3)"
      "local_put ?L (base (W 3)) ?k payload fs3 = (Inr j, fs4)"
      "ring_holds ?S fs4 [?k \<mapsto> payload]" "holds ?L fs4 [?k \<mapsto> payload]"
    by (rule both_put_step [OF start _ _ assms(4) calmW _ _ len(1), of "''parity/data.bin''" 2 3]) (simp_all add: assms(3))
  obtain i' j' fs5 fs6 where p2: "ring_put ?S (W 6) ?k v2 fs4 = Some (Inr i', fs5)"
      "local_put ?L (base (W 7)) ?k v2 fs5 = (Inr j', fs6)"
      "ring_holds ?S fs6 ([?k \<mapsto> payload](?k \<mapsto> v2))" "holds ?L fs6 ([?k \<mapsto> payload](?k \<mapsto> v2))"
    by (rule both_put_step [OF p1(3,4) _ _ assms(4) calmW _ _ len(2), of "''parity/data.bin''" 6 7]) (simp_all add: assms(3))
  have ring_reads: "ring_get ?S (R 4) ?k fs4 = Some (Inr payload)" "ring_get ?S (R 8) ?k fs6 = Some (Inr v2)"
    "ring_get ?S (R 10) (ObjectKey ''parity/absent.bin'') fs6 = Some (Inl (NotFound ''parity/absent.bin''))"
    using ring_get_step [OF p1(3) _ assms(5)] ring_get_step [OF p2(3) _ assms(5)] by simp_all
  have local_reads: "local_get ?L (base (R 5)) ?k fs4 = Inr payload" "local_get ?L (base (R 9)) ?k fs6 = Inr v2"
    "local_get ?L (base (R 11)) (ObjectKey ''parity/absent.bin'') fs6 = Inl (NotFound ''parity/absent.bin'')"
    using read_steps(1) [OF p1(4) _ calmR] read_steps(1) [OF p2(4) _ calmR] by simp_all
  show ?thesis
    unfolding test_ring_parity_with_local_store_def payload_def [symmetric] v2_def [symmetric] Let_def
    by (simp add: new1(1) new2(1) test_texts_simps p1(1,2) p2(1,2) ring_reads local_reads del: One_nat_def)
qed

section \<open>Properties\<close>

text \<open>The unit tests of the ring driver and of the ring store pass, payloads of megabytes included, with
  every kernel that keeps its promises and makes progress, however it splits and reorders the transfers,
  in every tree with fresh directories for the tests that lie apart.\<close>

theorem ring_tests_pass:
  assumes "fresh_dir dir fs" "fresh_dir local_dir fs" "parallel dir local_dir"
    and "\<And>n. ring_quiet (W n) True" "\<And>n. ring_quiet (R n) False"
  shows "test_uring_write_then_read_roundtrip no_faults (kernel_of (W n)) (kernel_of (R n)) dir fs
    \<and> test_uring_offset_write_extends_middle no_faults (kernel_of (W n)) (kernel_of (R n)) dir fs
    \<and> test_ring_roundtrip_large_object W R dir fs \<and> test_ring_parity_with_local_store W R dir local_dir fs"
  by (intro conjI write_read_test middle_test large_object_test parity_test assms
      ring_quietD(5,6) [OF assms(4)] ring_quietD(5,6) [OF assms(5)])

theorem ring_tests_pass_witness:
  "test_ring_roundtrip_large_object (\<lambda>n. ring_calm) (\<lambda>n. reading) [''t1''] (Dir [(''t1'', Dir []), (''t2'', Dir [])])
   \<and> test_ring_parity_with_local_store (\<lambda>n. ring_calm) (\<lambda>n. reading) [''t1''] [''t2''] (Dir [(''t1'', Dir []), (''t2'', Dir [])])"
proof -
  let ?fs = "Dir [(''t1'', Dir []), (''t2'', Dir [])]"
  have "fresh_dir [''t1''] ?fs" "fresh_dir [''t2''] ?fs" by (simp_all add: fresh_dir_def name_ok_def)
  moreover have "parallel [''t1''] [''t2'']" by (simp add: parallel_def)
  ultimately show ?thesis
    using ring_tests_pass [of "[''t1'']" ?fs "[''t2'']" "\<lambda>n. ring_calm" "\<lambda>n. reading"] calm_quiet by blast
qed

end
