(* ===== verification/Integration_Tests.thy ===== *)
theory Integration_Tests
  imports Clients Memory_Tests Local_Tests Cloud_Tests
begin

text \<open>
  The tests of \<open>src/tests/integration.rs\<close>, which drive the two local stores and the S3 stub through the
  trait, each as the truth value of its body, as in the theories of the unit tests. The tasks of the
  concurrent test are the clients of theory Clients: each call of the memory store is one operation of
  the concurrent map, and the calls of the tasks follow one another in any order. The test of the
  published SHA-256 vectors checks the crate sha2 only and is left out.
\<close>

section \<open>Memory\<close>

definition itest_memory_put_get_roundtrip :: "'m key_map_ops \<Rightarrow> (nat \<Rightarrow> call_env) \<Rightarrow> bool" where
  "itest_memory_put_get_roundtrip M E \<longleftrightarrow>
     (let store = memory_new M in
      unwrap (key_new ''integration/hello.txt'') (\<lambda>key.
        let payload = bytes_of ''hello integration'';
            (r, store) = memory_put M (E 0) key payload store
        in unwrap r (\<lambda>_. unwrap (memory_get M key store) (\<lambda>got. got = payload))))"

definition itest_memory_exists_delete :: "'m key_map_ops \<Rightarrow> (nat \<Rightarrow> call_env) \<Rightarrow> bool" where
  "itest_memory_exists_delete M E \<longleftrightarrow>
     (let store = memory_new M in
      unwrap (key_new ''exists/del.txt'') (\<lambda>key.
        unwrap (memory_exists M key store) (\<lambda>b. \<not> b)
        \<and> (let (r1, store) = memory_put M (E 0) key (bytes_of ''x'') store
           in unwrap r1 (\<lambda>_. unwrap (memory_exists M key store) (\<lambda>b. b)
           \<and> (let (r2, store) = memory_delete M key store
              in unwrap r2 (\<lambda>_. unwrap (memory_exists M key store) (\<lambda>b. \<not> b) \<and> is_err (memory_get M key store)))))))"

definition itest_memory_overwrite_is_idempotent :: "'m key_map_ops \<Rightarrow> (nat \<Rightarrow> call_env) \<Rightarrow> bool" where
  "itest_memory_overwrite_is_idempotent M E \<longleftrightarrow>
     (let store = memory_new M in
      unwrap (key_new ''overwrite.txt'') (\<lambda>key.
        let (r1, store) = memory_put M (E 0) key (bytes_of ''v1'') store
        in unwrap r1 (\<lambda>_. let (r2, store) = memory_put M (E 1) key (bytes_of ''v2'') store
        in unwrap r2 (\<lambda>_. unwrap (memory_get M key store) (\<lambda>d. d = bytes_of ''v2'')))))"

definition itest_memory_presigned_url_unsupported :: "'m key_map_ops \<Rightarrow> bool" where
  "itest_memory_presigned_url_unsupported M \<longleftrightarrow>
     (let store = memory_new M in
      unwrap (key_new ''a.txt'') (\<lambda>key. let res = memory_presigned_url key 60 store in is_err res))"

definition itest_memory_empty_key_rejected :: bool where
  "itest_memory_empty_key_rejected \<longleftrightarrow> unwrap_err (key_new '''') is_invalid_key"

definition itest_memory_put_records_matching_sha256_metadata ::
  "(bytes \<Rightarrow> bytes) \<Rightarrow> 'm key_map_ops \<Rightarrow> (nat \<Rightarrow> call_env) \<Rightarrow> bool" where
  "itest_memory_put_records_matching_sha256_metadata digest M E \<longleftrightarrow>
     (let store = memory_new M in
      unwrap (key_new ''integrity/digest.bin'') (\<lambda>key.
        let (r, store) = memory_put M (E 0) key (bytes_of ''digest me please'') store
        in unwrap r (\<lambda>_. unwrap_some (memory_metadata M key store) (\<lambda>meta.
          sha256 meta = Some (compute_sha256 digest (bytes_of ''digest me please'')) \<and> meta_size meta = 16))))"

definition itest_memory_delete_missing_key_is_err :: "'m key_map_ops \<Rightarrow> bool" where
  "itest_memory_delete_missing_key_is_err M \<longleftrightarrow>
     (let store = memory_new M in
      unwrap (key_new ''never/written.txt'') (\<lambda>key. unwrap_err (fst (memory_delete M key store)) is_not_found))"

definition itest_memory_fresh_blob_id_per_put :: "'m key_map_ops \<Rightarrow> (nat \<Rightarrow> call_env) \<Rightarrow> bool" where
  "itest_memory_fresh_blob_id_per_put M E \<longleftrightarrow>
     (let store = memory_new M in
      unwrap (key_new ''ids/fresh.txt'') (\<lambda>key.
        let payload = bytes_of ''same content'';
            (r1, store) = memory_put M (E 0) key payload store
        in unwrap r1 (\<lambda>id1. let (r2, store) = memory_put M (E 1) key payload store
        in unwrap r2 (\<lambda>id2. id1 \<noteq> id2))))"

definition itest_memory_empty_payload_roundtrip :: "'m key_map_ops \<Rightarrow> (nat \<Rightarrow> call_env) \<Rightarrow> bool" where
  "itest_memory_empty_payload_roundtrip M E \<longleftrightarrow>
     (let store = memory_new M in
      unwrap (key_new ''empty/payload.bin'') (\<lambda>key.
        let (r, store) = memory_put M (E 0) key [] store
        in unwrap r (\<lambda>_. unwrap (memory_get M key store) (\<lambda>got. got = [])
          \<and> unwrap_some (memory_metadata M key store) (\<lambda>meta.
              sha256 meta = Some ''e3b0c44298fc1c149afbf4c8996fb92427ae41e4649b934ca495991b7852b855''))))"

section \<open>Concurrent tasks\<close>

definition task_text :: "nat \<Rightarrow> string" where
  "task_text i = ''concurrent/key-'' @ dec_of_nat i @ ''.txt''"

definition task_payload :: "nat \<Rightarrow> bytes" where
  "task_payload i = bytes_of (''payload-'' @ dec_of_nat i)"

definition task_calls :: "nat \<Rightarrow> store_call list" where
  "task_calls i = (let key = ObjectKey (task_text i)
     in [CallPut key (task_payload i), CallGet key, CallExists key])"

text \<open>An order of the calls of the 16 tasks, each with an environment.\<close>

definition spawned :: "(nat \<times> call_env \<times> store_call) list \<Rightarrow> bool" where
  "spawned tcs \<longleftrightarrow> list_all (\<lambda>(i, e, c). i < 16) tcs
     \<and> list_all (\<lambda>i. map snd (of_client i tcs) = task_calls i) [0..<16]"

fun task_asserts :: "nat \<Rightarrow> store_reply list \<Rightarrow> bool" where
  "task_asserts i [ReplyId put, ReplyBytes got, ReplyBool there] \<longleftrightarrow>
     unwrap put (\<lambda>_. unwrap got (\<lambda>d. d = task_payload i) \<and> unwrap there (\<lambda>b. b))"
| "task_asserts i rs \<longleftrightarrow> False"

definition itest_memory_concurrent_put_get_consistency ::
  "'m key_map_ops \<Rightarrow> (nat \<times> call_env \<times> store_call) list \<Rightarrow> bool" where
  "itest_memory_concurrent_put_get_consistency M tcs \<longleftrightarrow>
     (let store = memory_new M; replies = session (memory_ops M) (map snd tcs) store
      in list_all (\<lambda>i. unwrap (key_new (task_text i)) (\<lambda>key. task_asserts i (replies_to i tcs replies))) [0..<16]
        \<and> memory_len M (after (memory_ops M) (map snd tcs) store) = 16)"

section \<open>Local, both, and the stub\<close>

definition itest_local_put_get_roundtrip :: "(nat \<Rightarrow> local_env) \<Rightarrow> path \<Rightarrow> node \<Rightarrow> bool" where
  "itest_local_put_get_roundtrip E dir fs \<longleftrightarrow> temp_store (E 0) dir fs (\<lambda>store fs.
     unwrap (key_new ''local/hello.txt'') (\<lambda>key.
       let payload = bytes_of ''local hello'';
           (r, fs) = local_put store (E 1) key payload fs
       in unwrap r (\<lambda>_. unwrap (local_get store (E 2) key fs) (\<lambda>got. got = payload))))"

definition itest_local_nested_keys :: "(nat \<Rightarrow> local_env) \<Rightarrow> path \<Rightarrow> node \<Rightarrow> bool" where
  "itest_local_nested_keys E dir fs \<longleftrightarrow> temp_store (E 0) dir fs (\<lambda>store fs.
     unwrap (key_new ''a/b/c/d.bin'') (\<lambda>key.
       let (r1, fs) = local_put store (E 1) key (replicate 1024 0) fs
       in unwrap r1 (\<lambda>_. unwrap (local_exists store (E 2) key fs) (\<lambda>b. b)
         \<and> (let (r2, fs) = local_delete store (E 3) key fs
            in unwrap r2 (\<lambda>_. unwrap (local_exists store (E 4) key fs) (\<lambda>b. \<not> b))))))"

definition itest_local_max_bytes_enforced :: "(nat \<Rightarrow> local_env) \<Rightarrow> path \<Rightarrow> node \<Rightarrow> bool" where
  "itest_local_max_bytes_enforced E dir fs \<longleftrightarrow>
     (let (r, fs) = local_with_limits (E 0) dir (Some 10) fs
      in unwrap r (\<lambda>store. unwrap (key_new ''big.bin'') (\<lambda>key.
        unwrap_err (fst (local_put store (E 1) key (replicate 11 0) fs)) (\<lambda>err. err = StorageFull))))"

definition itest_local_presigned_url_flow :: "(nat \<Rightarrow> local_env) \<Rightarrow> path \<Rightarrow> node \<Rightarrow> bool" where
  "itest_local_presigned_url_flow E dir fs \<longleftrightarrow> temp_store (E 0) dir fs (\<lambda>store fs.
     unwrap (key_new ''presign.txt'') (\<lambda>key.
       is_err (local_presigned_url store (E 1) key 60 fs)
       \<and> (let (r, fs) = local_put store (E 2) key (bytes_of ''data'') fs
          in unwrap r (\<lambda>_. unwrap (local_presigned_url store (E 3) key 60 fs) (\<lambda>url. str_contains url ''expires'')))))"

text \<open>The body of the loop over the two boxed stores, for either of them.\<close>

definition dyn_body :: "('e, 's) blob_ops \<Rightarrow> 'e \<Rightarrow> 'e \<Rightarrow> 's \<Rightarrow> bool" where
  "dyn_body store e1 e2 s \<longleftrightarrow> unwrap (key_new ''dyn/test.txt'') (\<lambda>key.
     let (r, s) = op_put (box_ops store) e1 key (bytes_of ''dyn hello'') s
     in unwrap r (\<lambda>_. unwrap (op_get (box_ops store) e2 key s) (\<lambda>got. got = bytes_of ''dyn hello'')))"

definition itest_local_and_memory_same_trait_object ::
  "'m key_map_ops \<Rightarrow> (nat \<Rightarrow> local_env) \<Rightarrow> path \<Rightarrow> node \<Rightarrow> bool" where
  "itest_local_and_memory_same_trait_object M E dir fs \<longleftrightarrow>
     (let mem = memory_new M in temp_store (E 0) dir fs (\<lambda>local fs.
        dyn_body (memory_ops M) (call_env.truncate (E 1)) (call_env.truncate (E 2)) mem
        \<and> dyn_body (local_ops local) (E 3) (E 4) fs))"

definition itest_s3_stub_returns_unsupported :: bool where
  "itest_s3_stub_returns_unsupported \<longleftrightarrow> unwrap (bucket_new ''my-bucket'') (\<lambda>b.
     let cfg = s3_config_new b ''us-east-1'' in
     unwrap (s3_stub_new cfg) (\<lambda>store. unwrap (key_new ''stub.txt'') (\<lambda>key.
       unwrap_err (fst (op_put s3_stub_ops () key (bytes_of ''hi'') store)) is_unsupported
       \<and> unwrap_err (op_get s3_stub_ops () key store) is_unsupported)))"

section \<open>The proofs\<close>

lemma itest_texts:
  "key_new ''integration/hello.txt'' = Inr (ObjectKey ''integration/hello.txt'')"
  "key_new ''exists/del.txt'' = Inr (ObjectKey ''exists/del.txt'')"
  "key_new ''overwrite.txt'' = Inr (ObjectKey ''overwrite.txt'')"
  "key_new ''integrity/digest.bin'' = Inr (ObjectKey ''integrity/digest.bin'')"
  "key_new ''never/written.txt'' = Inr (ObjectKey ''never/written.txt'')"
  "key_new ''ids/fresh.txt'' = Inr (ObjectKey ''ids/fresh.txt'')"
  "key_new ''empty/payload.bin'' = Inr (ObjectKey ''empty/payload.bin'')"
  "key_new ''dyn/test.txt'' = Inr (ObjectKey ''dyn/test.txt'')"
  by code_simp+

lemma task_key_new: "list_all (\<lambda>i. key_new (task_text i) = Inr (ObjectKey (task_text i))) [0..<16]"
  by code_simp

lemma task_text_distinct: "distinct (map task_text [0..<16])"
  by code_simp

lemma spawned_calls:
  assumes "spawned tcs" "(i, e, c) \<in> set tcs"
  shows "i < 16" "c \<in> set (task_calls i)" "call_key c = Some (ObjectKey (task_text i))"
proof -
  show i: "i < 16" using assms by (auto simp: spawned_def list_all_iff)
  have "(e, c) \<in> set (of_client i tcs)" using assms(2) by (simp add: of_client_in)
  then have "c \<in> set (map snd (of_client i tcs))" by force
  with assms(1) i show c: "c \<in> set (task_calls i)" by (simp add: spawned_def list_all_iff)
  then show "call_key c = Some (ObjectKey (task_text i))" by (auto simp: task_calls_def Let_def)
qed

lemma spawned_separate:
  assumes "spawned tcs"
  shows "separate tcs"
proof -
  have inj: "i = j" if "task_text i = task_text j" "i < 16" "j < 16" for i j
    using task_text_distinct that by (simp add: distinct_map inj_on_def)
  show ?thesis
  proof (rule separateI)
    show "call_key c \<noteq> None" if "(i, e, c) \<in> set tcs" for i e c
      using spawned_calls(3) [OF assms that] by simp
    show "call_key c \<noteq> call_key c'" if "(i, e, c) \<in> set tcs" "(j, e', c') \<in> set tcs" "i \<noteq> j" for i e c j e' c'
      using inj [of i j] that(3) spawned_calls(1,3) [OF assms that(1)] spawned_calls(1,3) [OF assms that(2)] by auto
  qed
qed

context key_map
begin

lemma itest_memory:
  "itest_memory_put_get_roundtrip M E" "itest_memory_exists_delete M E" "itest_memory_overwrite_is_idempotent M E"
  "itest_memory_presigned_url_unsupported M" "itest_memory_delete_missing_key_is_err M"
  by (simp_all add: itest_memory_put_get_roundtrip_def itest_memory_exists_delete_def
      itest_memory_overwrite_is_idempotent_def itest_memory_presigned_url_unsupported_def
      itest_memory_delete_missing_key_is_err_def memory_presigned_url_def is_err_def test_steps itest_texts)

lemma itest_fresh: "itest_memory_fresh_blob_id_per_put M E \<longleftrightarrow> entropy (E 0) \<noteq> entropy (E 1)"
  by (simp add: itest_memory_fresh_blob_id_per_put_def test_steps itest_texts conjunct1 [OF blob_id_new_fresh_iff])

lemma itest_digests:
  assumes "sha256_digest (crates_of (E 0)) = Some digest"
    and "compute_sha256 digest [] = ''e3b0c44298fc1c149afbf4c8996fb92427ae41e4649b934ca495991b7852b855''"
  shows "itest_memory_put_records_matching_sha256_metadata digest M E" "itest_memory_empty_payload_roundtrip M E"
  using assms
  by (simp_all add: itest_memory_put_records_matching_sha256_metadata_def itest_memory_empty_payload_roundtrip_def
      test_steps itest_texts put_metadata put_entry_def with_sha256_def new_with_content_type_def bytes_of_def)

lemma dyn_memory: "dyn_body (memory_ops M) e1 e2 (memory_new M)"
  by (simp add: dyn_body_def memory_ops_def test_steps itest_texts)

lemma after_puts:
  assumes "\<And>e c. (e, c) \<in> set cs \<Longrightarrow> call_key c \<noteq> None \<and> (\<forall>k. c \<noteq> CallDelete k)"
  shows "dom (memory_view M (after (memory_ops M) cs st))
    = dom (memory_view M st) \<union> {k. \<exists>e d. (e, CallPut k d) \<in> set cs}"
  using assms
proof (induction cs arbitrary: st)
  case (Cons p cs)
  obtain e c where p: "p = (e, c)" by (cases p)
  have head: "call_key c \<noteq> None \<and> (\<forall>k. c \<noteq> CallDelete k)" using Cons.prems [of e c] by (simp add: p)
  have rest: "call_key c' \<noteq> None \<and> (\<forall>k. c' \<noteq> CallDelete k)" if "(e', c') \<in> set cs" for e' c'
    using Cons.prems [of e' c'] that by (simp add: p)
  from head have "dom (memory_view M (snd (do_call (memory_ops M) e c st)))
      = dom (memory_view M st) \<union> {k. \<exists>d. c = CallPut k d}"
    by (cases c) (auto simp: memory_ops_def put_view case_prod_beta)
  moreover have "dom (memory_view M (after (memory_ops M) cs (snd (do_call (memory_ops M) e c st))))
      = dom (memory_view M (snd (do_call (memory_ops M) e c st))) \<union> {k. \<exists>e d. (e, CallPut k d) \<in> set cs}"
    by (rule Cons.IH) (rule rest)
  ultimately show ?case by (auto simp: p)
qed simp

lemma itest_concurrent:
  assumes "spawned tcs"
  shows "itest_memory_concurrent_put_get_consistency M tcs"
proof -
  let ?run = "session (memory_ops M) (map snd tcs) (memory_new M)"
  have alone: "replies_to i tcs ?run = session (memory_ops M) (of_client i tcs) (memory_new M)" for i
  proof (rule mem_clients [OF spawned_separate [OF assms]])
    fix j e c assume "(j, e, c) \<in> set tcs"
    from spawned_calls(2) [OF assms this] show "no_presign c" by (auto simp: task_calls_def Let_def)
  qed
  have asserts: "task_asserts i (replies_to i tcs ?run)" if "i < 16" for i
  proof -
    have "map snd (of_client i tcs) = task_calls i" using assms that by (simp add: spawned_def list_all_iff)
    then obtain e1 e2 e3 where "of_client i tcs = [(e1, CallPut (ObjectKey (task_text i)) (task_payload i)),
        (e2, CallGet (ObjectKey (task_text i))), (e3, CallExists (ObjectKey (task_text i)))]"
      by (auto simp: task_calls_def Let_def map_eq_Cons_conv)
    then show ?thesis unfolding alone
      by (simp add: memory_ops_def put_ok put_view get_from_view exists_from_view case_prod_beta)
  qed
  have calls: "call_key c \<noteq> None \<and> (\<forall>k. c \<noteq> CallDelete k)" if "(e, c) \<in> set (map snd tcs)" for e c
    using that spawned_calls(2) [OF assms] by (fastforce simp: task_calls_def Let_def)
  have "(\<exists>e d. (e, CallPut k d) \<in> set (map snd tcs)) \<longleftrightarrow> k \<in> ObjectKey ` task_text ` {0..<16}" for k
  proof
    assume "\<exists>e d. (e, CallPut k d) \<in> set (map snd tcs)"
    then obtain i e d where "(i, e, CallPut k d) \<in> set tcs" by auto
    from spawned_calls(1,3) [OF assms this] show "k \<in> ObjectKey ` task_text ` {0..<16}" by auto
  next
    assume "k \<in> ObjectKey ` task_text ` {0..<16}"
    then obtain i where i: "i < 16" "k = ObjectKey (task_text i)" by auto
    then have "map snd (of_client i tcs) = task_calls i" using assms by (simp add: spawned_def list_all_iff)
    then have "CallPut k (task_payload i) \<in> snd ` set (of_client i tcs)"
      by (metis i(2) list.set_intros(1) list.set_map task_calls_def Let_def)
    then obtain e where "(i, e, CallPut k (task_payload i)) \<in> set tcs" by (force simp: of_client_in)
    then show "\<exists>e d. (e, CallPut k d) \<in> set (map snd tcs)" by force
  qed
  moreover have "dom (memory_view M (after (memory_ops M) (map snd tcs) (memory_new M)))
      = dom (memory_view M (memory_new M)) \<union> {k. \<exists>e d. (e, CallPut k d) \<in> set (map snd tcs)}"
    by (rule after_puts) (rule calls)
  ultimately have "dom (memory_view M (after (memory_ops M) (map snd tcs) (memory_new M))) = ObjectKey ` task_text ` {0..<16}"
    by (simp only: new_view) auto
  moreover have "card (ObjectKey ` task_text ` {0..<16}) = 16"
    using task_text_distinct by (subst card_image; (simp add: card_image distinct_map inj_on_def)?)
  ultimately have "memory_len M (after (memory_ops M) (map snd tcs) (memory_new M)) = 16"
    by (simp add: memory_len_def len_card dom_def memory_view_def)
  with asserts task_key_new show ?thesis
    by (simp add: itest_memory_concurrent_put_get_consistency_def list_all_iff Let_def)
qed

end

lemma itest_local:
  assumes "fresh_dir dir fs" "\<And>n. calm_env (E n)"
  shows "itest_local_put_get_roundtrip E dir fs" "itest_local_nested_keys E dir fs"
    "itest_local_max_bytes_enforced E dir fs" "itest_local_presigned_url_flow E dir fs"
proof -
  show "itest_local_put_get_roundtrip E dir fs"
    unfolding itest_local_put_get_roundtrip_def
  proof (rule temp_store_step [OF assms], unfold test_texts_simps unwrap.simps)
    fix L fs assume L: "max_bytes L = None" "holds L fs Map.empty"
    obtain i fs1 where "local_put L (E 1) (ObjectKey ''local/hello.txt'') (bytes_of ''local hello'') fs = (Inr i, fs1)"
        "holds L fs1 [ObjectKey ''local/hello.txt'' \<mapsto> bytes_of ''local hello'']"
      by (rule put_step [OF L(2) _ assms(2), of "''local/hello.txt''" "bytes_of ''local hello''"])
         (simp_all add: L over_limit_def bytes_of_def)
    with read_steps(1) [OF this(2) _ assms(2)]
    show "let payload = bytes_of ''local hello'';
           (r, fs) = local_put L (E 1) (ObjectKey ''local/hello.txt'') payload fs
       in unwrap r (\<lambda>_. unwrap (local_get L (E 2) (ObjectKey ''local/hello.txt'') fs) (\<lambda>got. got = payload))"
      by simp
  qed
  show "itest_local_nested_keys E dir fs"
    unfolding itest_local_nested_keys_def
  proof (rule temp_store_step [OF assms], unfold test_texts_simps unwrap.simps)
    let ?k = "ObjectKey ''a/b/c/d.bin''" and ?d = "replicate 1024 (0 :: u8)"
    fix L fs assume L: "max_bytes L = None" "holds L fs Map.empty"
    obtain i fs1 where p: "local_put L (E 1) ?k ?d fs = (Inr i, fs1)" "holds L fs1 [?k \<mapsto> ?d]"
      by (rule put_step [OF L(2) _ assms(2), of "''a/b/c/d.bin''" ?d]) (simp_all add: L over_limit_def)
    obtain fs2 where "local_delete L (E 3) ?k fs1 = (Inr (), fs2)" "holds L fs2 Map.empty"
      by (rule delete_step [OF p(2) _ assms(2), of "''a/b/c/d.bin''" 3]) (simp_all add: fun_upd_idem)
    with p(1) read_steps(2) [OF p(2) _ assms(2), of "''a/b/c/d.bin''"] read_steps(2) [OF this(2) _ assms(2), of "''a/b/c/d.bin''"]
    show "let (r1, fs) = local_put L (E 1) ?k ?d fs
       in unwrap r1 (\<lambda>_. unwrap (local_exists L (E 2) ?k fs) (\<lambda>b. b)
         \<and> (let (r2, fs) = local_delete L (E 3) ?k fs
            in unwrap r2 (\<lambda>_. unwrap (local_exists L (E 4) ?k fs) (\<lambda>b. \<not> b))))"
      by simp
  qed
  show "itest_local_max_bytes_enforced E dir fs"
    using with_limits_fresh [OF assms, of 0 "Some 10"]
    by (auto simp: itest_local_max_bytes_enforced_def test_texts_simps local_put_def over_limit_def)
  show "itest_local_presigned_url_flow E dir fs"
    using local_presign_test [of dir fs E, OF assms]
    unfolding itest_local_presigned_url_flow_def test_local_presigned_url_exists_check_def temp_store_def Let_def case_prod_beta
    by (elim unwrap_mono conjE) (intro conjI unwrap_err_is_err)
qed

lemma itest_stub: itest_s3_stub_returns_unsupported
proof -
  have "key_new ''stub.txt'' = Inr (ObjectKey ''stub.txt'')" by code_simp
  then show ?thesis
    by (simp add: itest_s3_stub_returns_unsupported_def my_bucket s3_stub_new_def s3_stub_ops_def)
qed

lemma dyn_local:
  assumes "max_bytes L = None" "holds L fs Map.empty" "calm_env e1" "calm_env e2"
  shows "dyn_body (local_ops L) e1 e2 fs"
proof -
  let ?k = "ObjectKey ''dyn/test.txt''" and ?d = "bytes_of ''dyn hello''"
  obtain i fs1 where put: "local_put L e1 ?k ?d fs = (Inr i, fs1)" "holds L fs1 [?k \<mapsto> ?d]"
    by (rule put_step [OF assms(2) _ assms(3), of "''dyn/test.txt''" ?d]) (simp_all add: assms(1) over_limit_def bytes_of_def)
  show ?thesis
    using read_steps(1) [OF put(2) _ assms(4), of "''dyn/test.txt''"]
    by (simp add: dyn_body_def itest_texts local_ops_def put(1))
qed

lemma itest_dyn:
  assumes "key_map M" "fresh_dir dir fs" "\<And>n. calm_env (E n)"
  shows "itest_local_and_memory_same_trait_object M E dir fs"
  unfolding itest_local_and_memory_same_trait_object_def Let_def
  by (rule temp_store_step [OF assms(2,3)]) (intro conjI key_map.dyn_memory [OF assms(1)] dyn_local assms(3))

section \<open>Properties\<close>

text \<open>The integration tests of the two local stores and of the S3 stub pass over every map that meets the map
  laws, in every tree with a fresh directory and every quiet environment; the test with 16 concurrent tasks
  passes in every order of their calls. The test that identifiers are fresh passes exactly when the
  clock-and-thread hashes of its two puts differ: the code does not ensure it.\<close>

theorem integration_tests_pass:
  assumes "key_map M" "fresh_dir dir fs" "\<And>n. local_env_ok (L n) \<and> local_quiet (L n)"
    and "sha256_digest (crates_of (E 0)) = Some digest"
    and "compute_sha256 digest [] = ''e3b0c44298fc1c149afbf4c8996fb92427ae41e4649b934ca495991b7852b855''"
  shows "itest_memory_put_get_roundtrip M E \<and> itest_memory_exists_delete M E
    \<and> itest_memory_overwrite_is_idempotent M E \<and> itest_memory_presigned_url_unsupported M
    \<and> itest_memory_empty_key_rejected \<and> itest_memory_put_records_matching_sha256_metadata digest M E
    \<and> itest_memory_delete_missing_key_is_err M \<and> itest_memory_empty_payload_roundtrip M E
    \<and> (itest_memory_fresh_blob_id_per_put M E \<longleftrightarrow> entropy (E 0) \<noteq> entropy (E 1))
    \<and> (spawned tcs \<longrightarrow> itest_memory_concurrent_put_get_consistency M tcs)
    \<and> itest_local_put_get_roundtrip L dir fs \<and> itest_local_nested_keys L dir fs
    \<and> itest_local_max_bytes_enforced L dir fs \<and> itest_local_presigned_url_flow L dir fs
    \<and> itest_local_and_memory_same_trait_object M L dir fs \<and> itest_s3_stub_returns_unsupported"
proof -
  have itest_memory_empty_key_rejected by code_simp
  then show ?thesis
    by (intro conjI impI key_map.itest_memory [OF assms(1)] key_map.itest_fresh [OF assms(1)]
        key_map.itest_digests [where E = E, OF assms(1,4,5)] key_map.itest_concurrent [OF assms(1)]
        itest_local [of dir fs L, OF assms(2,3)] itest_dyn [of M dir fs L, OF assms(1-3)] itest_stub)
qed

text \<open>
  A digest function with the published value, read back from its text, and an order of the tasks: round robin.
\<close>

fun read_hex :: "string \<Rightarrow> bytes" where
  "read_hex (a # b # s) = (case u8_from_str_radix16 [a, b] of Some w \<Rightarrow> w # read_hex s | None \<Rightarrow> [])"
| "read_hex s = []"

definition empty_digest :: "bytes \<Rightarrow> bytes" where
  "empty_digest d = read_hex ''e3b0c44298fc1c149afbf4c8996fb92427ae41e4649b934ca495991b7852b855''"

definition round_robin :: "(nat \<times> call_env \<times> store_call) list" where
  "round_robin = concat (map (\<lambda>n. map (\<lambda>i. (i, plain_env, task_calls i ! n)) [0..<16]) [0..<3])"

theorem integration_tests_pass_witness:
  "itest_memory_concurrent_put_get_consistency hash_map_ops round_robin
   \<and> itest_memory_empty_payload_roundtrip hash_map_ops (\<lambda>n. plain_env\<lparr>crates_of := (crates_of plain_env)\<lparr>sha256_digest := Some empty_digest\<rparr>\<rparr>)"
proof -
  have fresh: "fresh_dir [''r''] empty_r" by (simp add: fresh_dir_def empty_r_def name_ok_def)
  have spawned: "spawned round_robin"
    by (simp add: spawned_def round_robin_def upt_rec task_calls_def Let_def)
  have digest: "compute_sha256 empty_digest [] = ''e3b0c44298fc1c149afbf4c8996fb92427ae41e4649b934ca495991b7852b855''"
    by code_simp
  let ?E = "\<lambda>n :: nat. plain_env\<lparr>crates_of := (crates_of plain_env)\<lparr>sha256_digest := Some empty_digest\<rparr>\<rparr>"
  have calm: "local_env_ok calm \<and> local_quiet calm" for n :: nat using calm_quiet(1) by (simp add: ring_quiet_def ring_calm_def)
  show ?thesis
    using integration_tests_pass [of hash_map_ops "[''r'']" empty_r "\<lambda>n. calm" ?E empty_digest round_robin,
        OF hash_map.key_map_axioms fresh calm _ digest] spawned by simp
qed

end
