(* ===== verification/Gate_Tests.thy ===== *)
theory Gate_Tests
  imports Integration_Tests Ring_Tests
begin

text \<open>
  The tests of \<open>src/tests/coverage_gates.rs\<close> that run without the features \<open>s3\<close> and \<open>typed-id\<close>, each as the
  truth value of its body: conversions and builders of the types, the error paths of the two
  file-system stores in a fresh directory, and a boxed store.
\<close>

section \<open>Types\<close>

definition gtest_object_key_conversions :: bool where
  "gtest_object_key_conversions \<longleftrightarrow> unwrap (key_new ''docs/readme.md'') (\<lambda>key.
     key_display key = ''docs/readme.md''
     \<and> unwrap (key_from_str ''docs/readme.md'') (\<lambda>parsed. as_str parsed = ''docs/readme.md'')
     \<and> unwrap_err (key_from_str '''') is_invalid_key
     \<and> unwrap_err (key_from_str ''/leading'') is_invalid_key
     \<and> unwrap (key_try_from_string ''a/b.txt'') (\<lambda>from_string.
         unwrap (key_try_from_str ''a/b.txt'') (\<lambda>from_slice. from_string = from_slice))
     \<and> is_err (key_try_from_string '''')
     \<and> key_as_ref key = ''docs/readme.md''
     \<and> (let unchecked = key_new_unchecked ''trusted/key.bin''
        in as_str unchecked = ''trusted/key.bin'' \<and> key_into_inner unchecked = ''trusted/key.bin''))"

definition gtest_bucket_name_conversions :: bool where
  "gtest_bucket_name_conversions \<longleftrightarrow> unwrap (bucket_new ''my-bucket'') (\<lambda>bucket.
     bucket_display bucket = ''my-bucket''
     \<and> unwrap_err (bucket_from_str ''other.bucket'') is_invalid_key
     \<and> unwrap (bucket_from_str ''ok-name'') (\<lambda>ok. bucket_str ok = ''ok-name'')
     \<and> bucket_as_ref bucket = ''my-bucket'' \<and> bucket_into_inner bucket = ''my-bucket''
     \<and> is_err (bucket_new ''ab'') \<and> is_err (bucket_new (replicate 64 (CHR ''a''))))"

definition gtest_blob_metadata_builders_chain :: "crates \<Rightarrow> bool" where
  "gtest_blob_metadata_builders_chain c \<longleftrightarrow> unwrap (key_new ''video/clip.mp4'') (\<lambda>key.
     let meta = with_sha256 ''deadbeef'' (with_content_type ''video/mp4'' (metadata_new c key 1234))
     in content_type meta = ''video/mp4'' \<and> sha256 meta = Some ''deadbeef'' \<and> meta_size meta = 1234)"

definition gtest_guess_content_type_maps_known_extensions :: "crates \<Rightarrow> bool" where
  "gtest_guess_content_type_maps_known_extensions c \<longleftrightarrow>
     unwrap (key_new ''a/b.png'') (\<lambda>k. guess_content_type c k = ''image/png'')
     \<and> unwrap (key_new ''a/b.unknownext'') (\<lambda>k. guess_content_type c k = ''application/octet-stream'')"

definition gtest_persist_error_converts_to_io_error :: bool where
  "gtest_persist_error_converts_to_io_error \<longleftrightarrow>
     (let persist_err = \<lparr>pe_error = CustomError KPermissionDenied ''rename denied''\<rparr>
      in case from_persist_error persist_err of Io e \<Rightarrow> True | _ \<Rightarrow> False)"

section \<open>LocalStore\<close>

fun is_io :: "blob_error \<Rightarrow> bool" where
  "is_io (Io e) = True"
| "is_io _ = False"

fun is_io_kind :: "io_error_kind \<Rightarrow> blob_error \<Rightarrow> bool" where
  "is_io_kind k (Io e) = (io_kind e = k)"
| "is_io_kind k _ = False"

definition gtest_local_with_limits_rejects_non_directory_root :: "local_env \<Rightarrow> path \<Rightarrow> node \<Rightarrow> bool" where
  "gtest_local_with_limits_rejects_non_directory_root e dir fs \<longleftrightarrow>
     (let file_path = dir @ [''plain-file''];
          fs = set_path file_path (File (bytes_of ''not a dir'')) fs
      in unwrap_err (fst (local_with_limits e file_path None fs)) (is_io_kind KAlreadyExists))"

definition gtest_local_new_unchecked_builder_and_root_accessor :: "(nat \<Rightarrow> local_env) \<Rightarrow> path \<Rightarrow> node \<Rightarrow> bool" where
  "gtest_local_new_unchecked_builder_and_root_accessor E dir fs \<longleftrightarrow>
     (let store = local_with_max_bytes (Some 8) (local_new_unchecked dir)
      in root store = dir
        \<and> unwrap (key_new ''too/big.bin'') (\<lambda>key.
            let (r, fs) = local_put store (E 0) key (replicate 9 0) fs
            in unwrap_err r (\<lambda>err. err = StorageFull)
              \<and> unwrap (key_new ''ok/data.bin'') (\<lambda>key.
                  let (r, fs) = local_put store (E 1) key (bytes_of ''small'') fs
                  in unwrap r (\<lambda>_. unwrap (local_exists store (E 2) key fs) (\<lambda>b. b)))))"

definition gtest_local_put_fails_when_parent_component_is_a_file :: "(nat \<Rightarrow> local_env) \<Rightarrow> path \<Rightarrow> node \<Rightarrow> bool" where
  "gtest_local_put_fails_when_parent_component_is_a_file E dir fs \<longleftrightarrow> temp_store (E 0) dir fs (\<lambda>store fs.
     let fs = set_path (dir @ [''blocker'']) (File (bytes_of ''x'')) fs
     in unwrap (key_new ''blocker/inner.txt'') (\<lambda>key.
          unwrap_err (fst (local_put store (E 1) key (bytes_of ''data'') fs)) is_io))"

definition gtest_local_put_fails_when_destination_is_a_directory :: "(nat \<Rightarrow> local_env) \<Rightarrow> path \<Rightarrow> node \<Rightarrow> bool" where
  "gtest_local_put_fails_when_destination_is_a_directory E dir fs \<longleftrightarrow> temp_store (E 0) dir fs (\<lambda>store fs.
     let (r, fs) = create_dir_all no_faults (dir @ [''dest'']) fs
     in unwrap r (\<lambda>_. unwrap (key_new ''dest'') (\<lambda>key.
          unwrap_err (fst (local_put store (E 1) key (bytes_of ''data'') fs)) is_io)))"

definition gtest_local_put_rejects_dotdot_containing_keys :: "(nat \<Rightarrow> local_env) \<Rightarrow> path \<Rightarrow> node \<Rightarrow> bool" where
  "gtest_local_put_rejects_dotdot_containing_keys E dir fs \<longleftrightarrow> temp_store (E 0) dir fs (\<lambda>store fs.
     unwrap (key_new ''file..name.txt'') (\<lambda>key.
       unwrap_err (fst (local_put store (E 1) key (bytes_of ''data'') fs)) is_invalid_key))"

definition gtest_boxed_dyn_store_delegates_all_operations :: "'m key_map_ops \<Rightarrow> call_env \<Rightarrow> bool" where
  "gtest_boxed_dyn_store_delegates_all_operations M e \<longleftrightarrow>
     (let boxed = box_ops (memory_ops M); s = memory_new M in
      unwrap (key_new ''boxed/data.txt'') (\<lambda>key.
        let (r, s) = op_put boxed e key (bytes_of ''boxed'') s
        in unwrap r (\<lambda>_. unwrap (op_get boxed e key s) (\<lambda>got. got = bytes_of ''boxed'')
          \<and> unwrap (op_exists boxed e key s) (\<lambda>b. b)
          \<and> (let (r, s) = op_delete boxed e key s
             in unwrap r (\<lambda>_. unwrap (op_exists boxed e key s) (\<lambda>b. \<not> b)
               \<and> unwrap_err (op_get boxed e key s) is_not_found)))))"

section \<open>IoUringStore\<close>

definition gtest_ring_with_limits_rejects_non_directory_root :: "ring_env \<Rightarrow> path \<Rightarrow> node \<Rightarrow> bool" where
  "gtest_ring_with_limits_rejects_non_directory_root e dir fs \<longleftrightarrow>
     (let file_path = dir @ [''plain-file''];
          fs = set_path file_path (File (bytes_of ''not a dir'')) fs
      in unwrap_err (fst (ring_with_limits (base e) file_path None fs)) (is_io_kind KAlreadyExists))"

definition gtest_ring_new_unchecked_and_max_bytes_guard ::
  "(nat \<Rightarrow> ring_env) \<Rightarrow> (nat \<Rightarrow> ring_env) \<Rightarrow> path \<Rightarrow> node \<Rightarrow> bool" where
  "gtest_ring_new_unchecked_and_max_bytes_guard W R dir fs \<longleftrightarrow>
     (let store = ring_new_unchecked dir;
          (r, fs) = ring_with_limits (base (W 0)) dir (Some 4) fs
      in unwrap r (\<lambda>guarded. unwrap (key_new ''ring/big.bin'') (\<lambda>key.
        unwrap_some (ring_put guarded (W 1) key (replicate 5 0) fs) (\<lambda>(q, fs).
          unwrap_err q (\<lambda>err. err = StorageFull)
          \<and> unwrap (key_new ''ring/data.bin'') (\<lambda>key.
              unwrap_some (ring_put store (W 2) key (bytes_of ''ring-data'') fs) (\<lambda>(q, fs). unwrap q (\<lambda>_.
                unwrap_some (ring_get store (R 3) key fs) (\<lambda>q. unwrap q (\<lambda>got. got = bytes_of ''ring-data''))
                \<and> unwrap (ring_exists store (R 4) key fs) (\<lambda>b. b))))))))"

definition gtest_ring_store_rejects_dotdot_keys_and_missing_objects ::
  "(nat \<Rightarrow> ring_env) \<Rightarrow> (nat \<Rightarrow> ring_env) \<Rightarrow> path \<Rightarrow> node \<Rightarrow> bool" where
  "gtest_ring_store_rejects_dotdot_keys_and_missing_objects W R dir fs \<longleftrightarrow>
     (let (r, fs) = ring_new (base (W 0)) dir fs
      in unwrap r (\<lambda>store. unwrap (key_new ''file..name.txt'') (\<lambda>key.
        unwrap_some (ring_put store (W 1) key (bytes_of ''x'') fs) (\<lambda>(q, fs). unwrap_err q is_invalid_key
        \<and> unwrap (key_new ''ring/absent.bin'') (\<lambda>missing.
            unwrap_some (ring_get store (R 2) missing fs) (\<lambda>q. unwrap_err q is_not_found)
            \<and> (let (q, fs) = ring_delete store (R 3) missing fs
               in unwrap_err q is_not_found \<and> unwrap (ring_exists store (R 4) missing fs) (\<lambda>b. \<not> b)))))))"

definition gtest_ring_put_fails_when_parent_component_is_a_file :: "(nat \<Rightarrow> ring_env) \<Rightarrow> path \<Rightarrow> node \<Rightarrow> bool" where
  "gtest_ring_put_fails_when_parent_component_is_a_file W dir fs \<longleftrightarrow>
     (let (r, fs) = ring_new (base (W 0)) dir fs
      in unwrap r (\<lambda>store.
        let fs = set_path (dir @ [''blocker'']) (File (bytes_of ''x'')) fs
        in unwrap (key_new ''blocker/inner.txt'') (\<lambda>key.
             unwrap_some (ring_put store (W 1) key (bytes_of ''data'') fs) (\<lambda>(q, fs). unwrap_err q is_io))))"

section \<open>The proofs\<close>

lemma gtest_texts:
  "key_new ''too/big.bin'' = Inr (ObjectKey ''too/big.bin'')"
  "key_new ''blocker/inner.txt'' = Inr (ObjectKey ''blocker/inner.txt'')"
  "key_new ''dest'' = Inr (ObjectKey ''dest'')"
  "key_new ''file..name.txt'' = Inr (ObjectKey ''file..name.txt'')"
  "key_new ''boxed/data.txt'' = Inr (ObjectKey ''boxed/data.txt'')"
  "key_new ''ring/big.bin'' = Inr (ObjectKey ''ring/big.bin'')"
  "key_new ''video/clip.mp4'' = Inr (ObjectKey ''video/clip.mp4'')"
  "key_new ''a/b.png'' = Inr (ObjectKey ''a/b.png'')"
  "key_new ''a/b.unknownext'' = Inr (ObjectKey ''a/b.unknownext'')"
  by code_simp+

lemma gtest_ok_keys: "local_ok_key (ObjectKey ''blocker/inner.txt'')" "local_ok_key (ObjectKey ''dest'')"
  by code_simp+

text \<open>A file where a directory should be made.\<close>

lemma mkdir_over_file:
  assumes "file_at fs p = Some d" "p \<noteq> []"
  shows "create_dir_all no_faults p fs = (Inl (OsError EEXIST), fs)"
proof -
  from file_parent_dir [OF assms] obtain es where "node_at fs (butlast p) = Some (Dir es)"
    by (auto simp: dir_at_iff)
  moreover have "node_at fs p = Some (File d)" using assms(1) by (simp add: file_at_iff)
  ultimately have "sys_mkdir no_faults p fs = (Inl (OsError EEXIST), fs)"
    using assms(2) by (auto simp: sys_mkdir_def no_faults_def lookup_at)
  moreover have "\<not> path_is_dir no_faults p fs" using file_not_dir [OF assms(1)] by (simp add: path_is_dir_quiet)
  ultimately show ?thesis by (subst create_dir_all.simps) (simp add: decode_errno_def errno_defs)
qed

lemma kind_exists: "io_kind (OsError EEXIST) = KAlreadyExists"
  by (simp add: decode_errno_def errno_defs)

lemma fresh_file:
  assumes "fresh_dir dir fs"
  shows "file_at (set_path (dir @ [n]) (File d) fs) (dir @ [n]) = Some d"
proof -
  have "node_at fs dir = Some (Dir [])" using assms by (simp add: fresh_dir_def)
  then have "dir_at fs dir" "\<not> dir_at fs (dir @ [n])" by (simp_all add: dir_at_def node_at_append)
  then show ?thesis using set_file(1) [of "dir @ [n]" fs d] by simp
qed

text \<open>A directory in a tree that agrees with a fresh one is fresh.\<close>

lemma opened_file:
  assumes "fresh_dir dir fs" "file_at fs' = file_at fs" "dir_at fs' = dir_at fs"
  shows "file_at (set_path (dir @ [n]) (File d) fs') (dir @ [n]) = Some d"
proof -
  have "node_at fs dir = Some (Dir [])" using assms(1) by (simp add: fresh_dir_def)
  then have "dir_at fs' dir" "\<not> dir_at fs' (dir @ [n])" by (simp_all add: assms(3) dir_at_def node_at_append)
  then show ?thesis using set_file(1) [of "dir @ [n]" fs' d] by simp
qed

lemma opened:
  assumes "fresh_dir dir fs" "calm_env e"
  obtains fs' where "local_new e dir fs = (Inr \<lparr>root = dir, max_bytes = None\<rparr>, fs')"
    "ring_with_limits e dir limit fs = (Inr \<lparr>ring_root = dir, ring_max_bytes = limit\<rparr>, fs')"
    "fs_wf fs'" "file_at fs' = file_at fs" "dir_at fs' = dir_at fs"
proof -
  have "dir_at fs dir" "fs_wf fs" "list_all name_ok dir" using assms(1) by (simp_all add: fresh_dir_def dir_at_iff)
  then obtain fs' es where "create_dir_all no_faults dir fs = (Inr (), fs')"
    "sys_stat no_faults (FsPath dir Plain) fs' = Inr (Dir es)"
    "fs_wf fs'" "file_at fs' = file_at fs" "dir_at fs' = dir_at fs" by (rule open_fresh)
  with that assms(2) show ?thesis
    by (simp add: local_new_def local_with_limits_def ring_with_limits_def local_quiet_def)
qed

lemma gtest_root:
  assumes "fresh_dir dir fs"
  shows "local_quiet e \<Longrightarrow> gtest_local_with_limits_rejects_non_directory_root e dir fs"
    and "local_quiet (base e') \<Longrightarrow> gtest_ring_with_limits_rejects_non_directory_root e' dir fs"
  using mkdir_over_file [OF fresh_file [OF assms]] kind_exists
  by (simp_all add: gtest_local_with_limits_rejects_non_directory_root_def
      gtest_ring_with_limits_rejects_non_directory_root_def local_with_limits_def ring_with_limits_def local_quiet_def)

text \<open>A put below a file, by either store.\<close>

lemma put_below_file:
  assumes "local_quiet e" "file_at fs (dir @ [''blocker'']) = Some x"
  shows "fst (local_put \<lparr>root = dir, max_bytes = None\<rparr> e (ObjectKey ''blocker/inner.txt'') d fs) = Inl (Io (OsError EEXIST))"
    and "base e' = e \<Longrightarrow> ring_put \<lparr>ring_root = dir, ring_max_bytes = None\<rparr> e' (ObjectKey ''blocker/inner.txt'') d fs
      = Some (Inl (Io (OsError EEXIST)), fs)"
proof -
  let ?L = "\<lparr>root = dir, max_bytes = None\<rparr>" and ?R = "\<lparr>ring_root = dir, ring_max_bytes = None\<rparr>"
    and ?k = "ObjectKey ''blocker/inner.txt''"
  have comps: "butlast (key_path ?L ?k) = dir @ [''blocker'']" "key_path ?L ?k \<noteq> []"
    by (simp_all add: key_path_def key_components_def butlast_append)
  have res: "local_resolve ?L ?k = Inr (FsPath (key_path ?L ?k) Plain)" by (rule ok_key_resolve [OF gtest_ok_keys(1)])
  then have res': "ring_resolve ?R ?k = Inr (FsPath (key_path ?L ?k) Plain)"
    by (simp add: ring_resolve_def local_resolve_def)
  have par: "local_ensure_parent (faults_of e) (FsPath (key_path ?L ?k) Plain) fs = (Inl (Io (OsError EEXIST)), fs)"
    using mkdir_over_file [OF assms(2)] assms(1) comps
    by (simp add: local_ensure_parent_def path_parent_def local_quiet_def)
  show "fst (local_put ?L e ?k d fs) = Inl (Io (OsError EEXIST))"
    by (simp add: local_put_def over_limit_def res par)
  show "base e' = e \<Longrightarrow> ring_put ?R e' ?k d fs = Some (Inl (Io (OsError EEXIST)), fs)"
    by (simp add: ring_put_def over_limit_def res' par)
qed

lemma gtest_below_file:
  assumes "fresh_dir dir fs"
  shows "(\<And>n. calm_env (E n)) \<Longrightarrow> gtest_local_put_fails_when_parent_component_is_a_file E dir fs"
    and "(\<And>n. calm_env (base (W n))) \<Longrightarrow> gtest_ring_put_fails_when_parent_component_is_a_file W dir fs"
proof -
  assume calm: "calm_env (E n)" for n
  obtain fs' where new: "local_new (E 0) dir fs = (Inr \<lparr>root = dir, max_bytes = None\<rparr>, fs')"
      "file_at fs' = file_at fs" "dir_at fs' = dir_at fs" by (rule opened [OF assms calm])
  with put_below_file(1) [OF _ opened_file [OF assms new(2,3)]] calm
  show "gtest_local_put_fails_when_parent_component_is_a_file E dir fs"
    by (simp add: gtest_local_put_fails_when_parent_component_is_a_file_def temp_store_def gtest_texts Let_def)
next
  assume calm: "calm_env (base (W n))" for n
  obtain fs' where new: "ring_with_limits (base (W 0)) dir None fs = (Inr \<lparr>ring_root = dir, ring_max_bytes = None\<rparr>, fs')"
      "file_at fs' = file_at fs" "dir_at fs' = dir_at fs" by (rule opened [OF assms calm])
  with put_below_file(2) [OF _ opened_file [OF assms new(2,3)], where e = "base (W 1)" and e' = "W 1"] calm
  show "gtest_ring_put_fails_when_parent_component_is_a_file W dir fs"
    by (simp add: gtest_ring_put_fails_when_parent_component_is_a_file_def ring_new_def gtest_texts Let_def)
qed

text \<open>A put whose destination is a directory.\<close>

lemma publish_on_dir:
  assumes "faults_of e = no_faults" "tmp \<noteq> []" "dir_at fs (butlast tmp)" "node_at fs tmp = None"
    and "p \<noteq> []" "butlast p = butlast tmp" "dir_at fs p"
  shows "\<exists>fs'. local_publish e tmp (FsPath p Plain) d fs = (Inl (Io (OsError EISDIR)), fs')"
proof -
  let ?flt = "faults_of e"
  obtain fs1 where mk: "sys_create_new ?flt tmp fs = (Inr (), fs1)"
    using assms(1-4) by (auto simp: sys_create_new_def no_faults_def dir_at_iff lookup_at)
  note c = sys_create_new_effect [OF mk]
  obtain fs2 where wr: "sys_write_all ?flt (partial_write e) tmp d fs1 = (Inr (), fs2)"
    using assms(1) by (auto simp: sys_write_all_def no_faults_def)
  have fs2: "file_at fs2 tmp = Some d" "dir_at fs2 = dir_at fs"
    using sys_write_all_effect [OF wr _ c(1), unfolded c(3), simplified] c(4) by (auto simp: fun_eq_iff)
  have "dir_at fs2 (butlast p)" using fs2(2) assms(3,6) by simp
  then obtain es where es: "node_at fs2 (butlast p) = Some (Dir es)" by (auto simp: dir_at_iff)
  have rn: "sys_rename ?flt tmp (FsPath p Plain) fs2 = (Inl (OsError EISDIR), fs2)"
    using es assms(1,5,7) fs2 by (auto simp: sys_rename_def no_faults_def lookup_at)
  have "sys_flush ?flt tmp = Inr ()" "sys_sync_all ?flt tmp = Inr ()"
    using assms(1) by (simp_all add: sys_flush_def sys_sync_all_def no_faults_def)
  with mk wr rn show ?thesis by (simp add: local_publish_def)
qed

lemma gtest_on_dir:
  assumes "fresh_dir dir fs" "\<And>n. calm_env (E n)"
  shows "gtest_local_put_fails_when_destination_is_a_directory E dir fs"
proof -
  let ?L = "\<lparr>root = dir, max_bytes = None\<rparr>" and ?k = "ObjectKey ''dest''" and ?dest = "dir @ [''dest'']"
  have empty: "node_at fs dir = Some (Dir [])" using assms(1) by (simp add: fresh_dir_def)
  have none: "node_at fs (dir @ [n]) = None" for n by (simp add: node_at_append empty)
  obtain fs1 where new: "local_new (E 0) dir fs = (Inr ?L, fs1)"
      "file_at fs1 = file_at fs" "dir_at fs1 = dir_at fs" by (rule opened [OF assms])
  have nofile: "file_at fs q = None" if "prefix q ?dest" for q
  proof (cases "q = ?dest")
    case True
    then show ?thesis using none by (simp add: file_at_def)
  next
    case False
    with that have "prefix q dir" by auto
    then have "dir_at fs q" using dir_at_ancestor [of fs q] empty by (auto simp: prefix_def dir_at_iff)
    then show ?thesis by (auto simp: dir_at_iff file_at_def)
  qed
  have "prefix q ?dest \<Longrightarrow> file_at fs1 q = None" for q using nofile new(2) by simp
  from create_dir_all_quiet [OF this] obtain fs2 where mk: "create_dir_all no_faults ?dest fs1 = (Inr (), fs2)"
      "\<And>q. dir_at fs2 q \<longleftrightarrow> dir_at fs1 q \<or> prefix q ?dest" "file_at fs2 = file_at fs1" by blast
  have "prefix q dir \<Longrightarrow> file_at fs2 q = None" for q using nofile mk(3) new(2) by simp
  from create_dir_all_quiet [OF this] obtain fs3 where par: "create_dir_all no_faults dir fs2 = (Inr (), fs3)"
      "\<And>q. dir_at fs3 q \<longleftrightarrow> dir_at fs2 q \<or> prefix q dir" "file_at fs3 = file_at fs2" by blast
  have quiet: "faults_of (E 1) = no_faults" using assms(2) by (simp add: local_quiet_def)
  let ?tmp = "dir @ [''.blobkit-'' @ tmp_suffix (E 1)]"
  have "\<not> prefix ?tmp dir" "\<not> prefix ?tmp ?dest" by (auto simp: prefix_def)
  then have tmp: "node_at fs3 ?tmp = None"
    using none [of "''.blobkit-'' @ tmp_suffix (E 1)"] par(2,3) mk(2,3) new(2,3) by (simp add: node_at_None_iff)
  have "\<exists>fs'. local_publish (E 1) ?tmp (FsPath ?dest Plain) (bytes_of ''data'') fs3 = (Inl (Io (OsError EISDIR)), fs')"
    by (rule publish_on_dir [OF quiet _ _ tmp]) (simp_all add: par(2) mk(2))
  moreover have "local_resolve ?L ?k = Inr (FsPath ?dest Plain)"
    using ok_key_resolve [OF gtest_ok_keys(2), of ?L] by (simp add: key_path_def key_components_def)
  ultimately have "fst (local_put ?L (E 1) ?k (bytes_of ''data'') fs2) = Inl (Io (OsError EISDIR))"
    using par(1) quiet by (auto simp: local_put_def over_limit_def local_ensure_parent_def path_parent_def Let_def)
  with new(1) mk(1) show ?thesis
    by (simp add: gtest_local_put_fails_when_destination_is_a_directory_def temp_store_def gtest_texts Let_def)
qed

lemma dotdot_name: "str_contains ''file..name.txt'' ''..''"
  by code_simp

lemma gtest_dotdot:
  assumes "fresh_dir dir fs" "\<And>n. calm_env (E n)"
  shows "gtest_local_put_rejects_dotdot_containing_keys E dir fs"
  unfolding gtest_local_put_rejects_dotdot_containing_keys_def
proof (rule temp_store_step [OF assms], unfold gtest_texts unwrap.simps)
  fix L :: local_store and fs' assume "max_bytes L = None"
  then show "unwrap_err (fst (local_put L (E 1) (ObjectKey ''file..name.txt'') (bytes_of ''data'') fs')) is_invalid_key"
    by (simp add: local_put_def over_limit_def local_resolve_def dotdot_name del: str_contains.simps)
qed

text \<open>Stores with a limit, and stores made without touching the directory.\<close>

lemma gtest_new_unchecked:
  assumes "fresh_dir dir fs" "\<And>n. calm_env (E n)"
  shows "gtest_local_new_unchecked_builder_and_root_accessor E dir fs"
proof -
  let ?L = "\<lparr>root = dir, max_bytes = Some 8\<rparr>" and ?k = "ObjectKey ''ok/data.bin''"
  have big: "local_put ?L (E 0) (ObjectKey ''too/big.bin'') (replicate 9 0) fs = (Inl StorageFull, fs)"
    by (simp add: local_put_def over_limit_def)
  have "holds ?L fs Map.empty" using fresh_represents [OF assms(1)] by simp
  then obtain i fs1 where p: "local_put ?L (E 1) ?k (bytes_of ''small'') fs = (Inr i, fs1)"
      "holds ?L fs1 [?k \<mapsto> bytes_of ''small'']"
    by (rule put_step [OF _ _ assms(2), of ?L fs Map.empty "''ok/data.bin''" "bytes_of ''small''" 1])
      (simp_all add: over_limit_def bytes_of_def)
  from read_steps(2) [OF p(2) _ assms(2), of "''ok/data.bin''"] p(1) big
  show ?thesis
    by (simp add: gtest_local_new_unchecked_builder_and_root_accessor_def local_with_max_bytes_def local_new_unchecked_def
        gtest_texts test_texts_simps del: One_nat_def)
qed

lemma gtest_ring_new_unchecked:
  assumes "fresh_dir dir fs" "\<And>n. ring_quiet (W n) True" "\<And>n. ring_quiet (R n) False"
  shows "gtest_ring_new_unchecked_and_max_bytes_guard W R dir fs"
proof -
  let ?S = "\<lparr>ring_root = dir, ring_max_bytes = None\<rparr>" and ?G = "\<lparr>ring_root = dir, ring_max_bytes = Some 4\<rparr>"
    and ?k = "ObjectKey ''ring/data.bin''" and ?d = "bytes_of ''ring-data''"
  have calm: "calm_env (base (W n))" "calm_env (base (R n))" for n
    using ring_quietD(1,2) [OF assms(2)] ring_quietD(1,2) [OF assms(3)] by auto
  obtain fs1 where new: "ring_with_limits (base (W 0)) dir (Some 4) fs = (Inr ?G, fs1)"
      "fs_wf fs1" "file_at fs1 = file_at fs" "dir_at fs1 = dir_at fs" by (rule opened [OF assms(1) calm(1)])
  have big: "ring_put ?G (W 1) (ObjectKey ''ring/big.bin'') (replicate 5 0) fs1 = Some (Inl StorageFull, fs1)"
    by (simp add: ring_put_def over_limit_def)
  have "ring_holds ?S fs1 Map.empty" using represents_cong [OF fresh_represents [OF assms(1)] new(2-4)] by simp
  then obtain i fs2 where p: "ring_put ?S (W 2) ?k ?d fs1 = Some (Inr i, fs2)" "ring_holds ?S fs2 [?k \<mapsto> ?d]"
    by (rule ring_put_step [OF _ _ assms(2), of ?S fs1 Map.empty "''ring/data.bin''" ?d 2]) (simp_all add: bytes_of_def)
  have "ring_get ?S (R 3) ?k fs2 = Some (Inr ?d)" using ring_get_step [OF p(2) _ assms(3)] by simp
  moreover have "ring_exists ?S (R 4) ?k fs2 = Inr True"
    using read_steps(2) [of "local_new_unchecked dir" fs2 "[?k \<mapsto> ?d]", OF _ _ calm(2), of "''ring/data.bin''" 4] p(2)
      by (simp add: ring_others_local as_local_def local_new_unchecked_def)
  ultimately show ?thesis
    by (simp add: gtest_ring_new_unchecked_and_max_bytes_guard_def ring_new_unchecked_def new(1) big p(1)
        gtest_texts test_texts_simps del: One_nat_def)
qed

lemma gtest_ring_rejects:
  assumes "fresh_dir dir fs" "\<And>n. ring_quiet (W n) True" "\<And>n. ring_quiet (R n) False"
  shows "gtest_ring_store_rejects_dotdot_keys_and_missing_objects W R dir fs"
proof -
  let ?S = "\<lparr>ring_root = dir, ring_max_bytes = None\<rparr>" and ?L = "\<lparr>root = dir, max_bytes = None\<rparr>"
    and ?k = "ObjectKey ''ring/absent.bin''"
  have calm: "calm_env (base (W n))" "calm_env (base (R n))" for n
    using ring_quietD(1,2) [OF assms(2)] ring_quietD(1,2) [OF assms(3)] by auto
  obtain fs1 where new: "ring_new (base (W 0)) dir fs = (Inr ?S, fs1)"
      "fs_wf fs1" "file_at fs1 = file_at fs" "dir_at fs1 = dir_at fs"
    by (rule ring_new_step [OF fresh_represents [OF assms(1)] calm(1)])
  have put: "ring_put ?S (W 1) (ObjectKey ''file..name.txt'') (bytes_of ''x'') fs1
      = Some (Inl (invalid_key (''key contains '..'' @ [CHR 0x27])), fs1)"
    by (simp add: ring_put_def over_limit_def ring_resolve_def dotdot_name del: str_contains.simps)
  have start: "ring_holds ?S fs1 Map.empty" "holds ?L fs1 Map.empty"
    using represents_cong [OF fresh_represents [OF assms(1)] new(2-4)] by simp_all
  obtain fs2 where del: "local_delete ?L (base (R 3)) ?k fs1 = (Inl (NotFound ''ring/absent.bin''), fs2)"
      "holds ?L fs2 Map.empty"
    by (rule delete_step [OF start(2) _ calm(2), of "''ring/absent.bin''" 3]) (simp_all add: fun_upd_idem)
  have "ring_get ?S (R 2) ?k fs1 = Some (Inl (NotFound ''ring/absent.bin''))"
    using ring_get_step [OF start(1) _ assms(3)] by simp
  moreover have "local_exists ?L (base (R 4)) ?k fs2 = Inr False"
    using read_steps(2) [OF del(2) _ calm(2), of "''ring/absent.bin''"] by simp
  ultimately show ?thesis
    using del(1)
    by (simp add: gtest_ring_store_rejects_dotdot_keys_and_missing_objects_def new(1) put ring_others_local as_local_def
        gtest_texts test_texts_simps del: One_nat_def)
qed

section \<open>The types and the boxed store\<close>

lemma gtest_conversions:
  gtest_object_key_conversions gtest_bucket_name_conversions gtest_persist_error_converts_to_io_error
proof -
  show gtest_object_key_conversions gtest_persist_error_converts_to_io_error by code_simp+
  have "is_err (bucket_new (replicate 64 (CHR ''a'')))"
    using bucket_new_Inr [of "replicate 64 (CHR ''a'')"] by (auto simp: is_err_def is_ok_iff bucket_str_wf_def)
  moreover have "bucket_new ''my-bucket'' = Inr (BucketName ''my-bucket'')" "is_err (bucket_new ''ab'')"
    "unwrap_err (bucket_from_str ''other.bucket'') is_invalid_key"
    "unwrap (bucket_from_str ''ok-name'') (\<lambda>ok. bucket_str ok = ''ok-name'')"
    by code_simp+
  ultimately show gtest_bucket_name_conversions
    by (simp add: gtest_bucket_name_conversions_def bucket_display_def bucket_as_ref_def bucket_into_inner_def)
qed

text \<open>Guessing knows PNG and nothing of an unknown extension.\<close>

definition mime_of_png :: "crates \<Rightarrow> bool" where
  "mime_of_png c \<longleftrightarrow> (\<exists>g. mime_guess c = Some g \<and> g ''a/b.png'' = Some ''image/png'' \<and> g ''a/b.unknownext'' = None)"

lemma gtest_types:
  "gtest_blob_metadata_builders_chain c" "mime_of_png c \<Longrightarrow> gtest_guess_content_type_maps_known_extensions c"
  by (auto simp: gtest_blob_metadata_builders_chain_def gtest_guess_content_type_maps_known_extensions_def gtest_texts
      metadata_new_def with_sha256_def with_content_type_def guess_content_type_def octet_stream_def mime_of_png_def Let_def
      split: option.splits)

context key_map
begin

lemma gtest_boxed: "gtest_boxed_dyn_store_delegates_all_operations M e"
  by (simp add: gtest_boxed_dyn_store_delegates_all_operations_def memory_ops_def test_steps gtest_texts)

end

section \<open>All of them\<close>

text \<open>The tests of the coverage gates pass over every map, in every fresh directory, with every kernel that keeps its
  promises and makes progress, when guessing knows PNG files.\<close>

theorem gate_tests_pass:
  assumes "key_map M" "mime_of_png c" "fresh_dir dir fs" "\<And>n. calm_env (E n)"
    and "\<And>n. ring_quiet (W n) True" "\<And>n. ring_quiet (R n) False"
  shows "gtest_object_key_conversions \<and> gtest_bucket_name_conversions \<and> gtest_blob_metadata_builders_chain c
    \<and> gtest_guess_content_type_maps_known_extensions c \<and> gtest_persist_error_converts_to_io_error
    \<and> gtest_local_with_limits_rejects_non_directory_root (E 0) dir fs
    \<and> gtest_local_new_unchecked_builder_and_root_accessor E dir fs
    \<and> gtest_local_put_fails_when_parent_component_is_a_file E dir fs
    \<and> gtest_local_put_fails_when_destination_is_a_directory E dir fs
    \<and> gtest_local_put_rejects_dotdot_containing_keys E dir fs
    \<and> gtest_boxed_dyn_store_delegates_all_operations M e
    \<and> gtest_ring_with_limits_rejects_non_directory_root (W 0) dir fs
    \<and> gtest_ring_new_unchecked_and_max_bytes_guard W R dir fs
    \<and> gtest_ring_store_rejects_dotdot_keys_and_missing_objects W R dir fs
    \<and> gtest_ring_put_fails_when_parent_component_is_a_file W dir fs"
proof -
  have calm: "calm_env (base (W n))" for n using ring_quietD(1,2) [OF assms(5)] by auto
  show ?thesis
    by (intro conjI gtest_conversions gtest_types assms gtest_root gtest_new_unchecked gtest_below_file gtest_on_dir
        gtest_dotdot key_map.gtest_boxed gtest_ring_new_unchecked gtest_ring_rejects calm
        conjunct2 [OF assms(4)] conjunct2 [OF calm])
qed

definition png_crates :: crates where
  "png_crates = \<lparr>mime_guess = Some (\<lambda>s. if ends_with s ''.png'' then Some ''image/png'' else None), sha256_digest = None,
     clock_now = None\<rparr>"

theorem gate_tests_pass_witness:
  "gtest_local_put_fails_when_destination_is_a_directory (\<lambda>n. calm) [''r''] empty_r
   \<and> gtest_ring_new_unchecked_and_max_bytes_guard (\<lambda>n. ring_calm) (\<lambda>n. reading) [''r''] empty_r"
proof -
  have "fresh_dir [''r''] empty_r" by (simp add: fresh_dir_def empty_r_def name_ok_def)
  moreover have "mime_of_png png_crates"
    by (simp add: mime_of_png_def png_crates_def ends_with_def)
  ultimately show ?thesis
    using gate_tests_pass [OF hash_map.key_map_axioms, of png_crates "[''r'']" empty_r "\<lambda>n. calm" "\<lambda>n. ring_calm" "\<lambda>n. reading" plain_env]
      calm_quiet by simp
qed

end
