(* ===== verification/Config_Tests.thy ===== *)
theory Config_Tests
  imports Gate_Tests Cloud_Tests
begin

text \<open>
  The tests of configuration: \<open>src/tests/config_matrix.rs\<close>, the tests of \<open>src/tests/s3.rs\<close> and
  \<open>src/tests/object_store.rs\<close> that need no live service, and the S3 part of \<open>src/tests/coverage_gates.rs\<close>.
  Left out are those that look into a URL signed by the AWS SDK and the published vector of SHA-256.
\<close>

section \<open>Keys, buckets, metadata\<close>

definition ktest_object_key_length_boundary :: bool where
  "ktest_object_key_length_boundary \<longleftrightarrow>
     is_ok (key_new (replicate 1024 (CHR ''a''))) \<and> is_err (key_new (replicate 1025 (CHR ''a'')))"

definition ktest_object_key_traversal_rejected_by_store :: "'m key_map_ops \<Rightarrow> call_env \<Rightarrow> bool" where
  "ktest_object_key_traversal_rejected_by_store M e \<longleftrightarrow>
     (let store = memory_new M in
      is_err (key_new ''../escape'') \<and> is_err (key_new ''a/../b'')
      \<and> unwrap (key_new ''file..name.txt'') (\<lambda>ok.
          let (r, store) = memory_put M e ok (bytes_of ''x'') store
          in unwrap r (\<lambda>_. unwrap (memory_exists M ok store) (\<lambda>b. b))))"

definition ktest_bucket_name_length_edges :: bool where
  "ktest_bucket_name_length_edges \<longleftrightarrow>
     is_err (bucket_new ''ab'') \<and> is_ok (bucket_new ''abc'') \<and> is_ok (bucket_new (replicate 63 (CHR ''a'')))
     \<and> is_err (bucket_new (replicate 64 (CHR ''a'')))"

definition ktest_guess_content_type_maps_extensions :: "crates \<Rightarrow> bool" where
  "ktest_guess_content_type_maps_extensions c \<longleftrightarrow>
     unwrap (key_new ''a/b.png'') (\<lambda>k. guess_content_type c k = ''image/png'')
     \<and> unwrap (key_new ''a/b.txt'') (\<lambda>k. guess_content_type c k = ''text/plain'')"

definition ktest_guess_content_type_without_feature_falls_back :: "crates \<Rightarrow> bool" where
  "ktest_guess_content_type_without_feature_falls_back c \<longleftrightarrow>
     unwrap (key_new ''a/b.png'') (\<lambda>k. guess_content_type c k = ''application/octet-stream'')"

definition ktest_compute_sha256_without_feature_is_none :: bool where
  "ktest_compute_sha256_without_feature_is_none \<longleftrightarrow> compute_sha256_stub (bytes_of ''abc'') = None"

text \<open>The expected media type and digest depend on the features, as in the test.\<close>

definition ktest_memory_put_records_content_type_and_sha256 :: "'m key_map_ops \<Rightarrow> (nat \<Rightarrow> call_env) \<Rightarrow> bool" where
  "ktest_memory_put_records_content_type_and_sha256 M E \<longleftrightarrow>
     unwrap (key_new ''img/photo.png'') (\<lambda>png.
       let (r, store) = memory_put M (E 0) png (bytes_of ''png-bytes'') (memory_new M)
       in unwrap r (\<lambda>_. unwrap_some (memory_metadata M png store) (\<lambda>meta.
         meta_size meta = 9
         \<and> content_type meta = (if mime_guess (crates_of (E 0)) = None then ''application/octet-stream'' else ''image/png'')
         \<and> (case sha256_digest (crates_of (E 0)) of
              Some digest \<Rightarrow> sha256 meta = Some (compute_sha256 digest (bytes_of ''png-bytes''))
            | None \<Rightarrow> True)
         \<and> unwrap (key_new ''obj/blob.unknownext'') (\<lambda>bin.
             let (r, store) = memory_put M (E 1) bin (bytes_of ''data'') store
             in unwrap r (\<lambda>_. unwrap_some (memory_metadata M bin store) (\<lambda>meta.
                  content_type meta = ''application/octet-stream''))))))"

section \<open>The limit of LocalStore\<close>

definition ktest_local_max_bytes_contrast :: "(nat \<Rightarrow> local_env) \<Rightarrow> path \<Rightarrow> node \<Rightarrow> bool" where
  "ktest_local_max_bytes_contrast E dir fs \<longleftrightarrow>
     (let capped = local_with_max_bytes (Some 8) (local_new_unchecked dir) in
      unwrap (key_new ''big/data.bin'') (\<lambda>key.
        let (r, fs) = local_put capped (E 0) key (replicate 9 0) fs
        in unwrap_err r (\<lambda>err. err = StorageFull)
          \<and> (let open = local_with_max_bytes None (local_new_unchecked dir) in
             unwrap (key_new ''big/data.bin'') (\<lambda>key.
               let (r, fs) = local_put open (E 1) key (replicate 9 0) fs
               in unwrap r (\<lambda>_. unwrap (local_exists open (E 2) key fs) (\<lambda>b. b))))))"

section \<open>S3\<close>

text \<open>What \<open>S3Store::new\<close> needs of the AWS crates: the settings loader and the client of some settings.\<close>

type_synonym ('s, 'url) aws =
  "((string \<times> string) option \<Rightarrow> string \<Rightarrow> sdk_settings) \<times> (sdk_settings \<Rightarrow> ('s, 'url) s3_client)"

definition new_s3 :: "('s, 'url) aws \<Rightarrow> s3_config \<Rightarrow> ('s, 'url) s3_store result" where
  "new_s3 aws c = s3_new (fst aws) (snd aws) c"

definition secs :: "nat \<Rightarrow> nat" where
  "secs n = n * 1000000000"

definition ktest_s3_timeout_none_vs_some_roundtrips :: bool where
  "ktest_s3_timeout_none_vs_some_roundtrips \<longleftrightarrow> unwrap (bucket_new ''my-bucket'') (\<lambda>b.
     let base = s3_config_new b ''us-east-1'';
         none = with_timeout None base;
         ten = with_timeout (Some (secs 10)) base
     in timeout base = Some (secs 30) \<and> timeout none = None \<and> timeout ten = Some (secs 10))"

definition ktest_s3_static_credentials_construct_offline :: "('s, 'url) aws \<Rightarrow> bool" where
  "ktest_s3_static_credentials_construct_offline aws \<longleftrightarrow> unwrap (bucket_new ''my-bucket'') (\<lambda>b.
     let cfg = with_credentials (Static ''test'' ''test'') (s3_config_new b ''us-east-1'')
     in unwrap (new_s3 aws cfg) (\<lambda>store. bucket_str (s3_bucket (s3_cfg store)) = ''my-bucket''
       \<and> unwrap (bucket_new ''other-bucket'') (\<lambda>b.
           let other = with_credentials (Static ''test'' ''test'') (s3_config_new b ''us-east-1'')
           in unwrap (new_s3 aws other) (\<lambda>other_store. bucket_str (s3_bucket (s3_cfg other_store)) = ''other-bucket''))))"

definition s3test_config_defaults :: bool where
  "s3test_config_defaults \<longleftrightarrow> unwrap (bucket_new ''my-bucket'') (\<lambda>b.
     let cfg = s3_config_new b ''us-east-1''
     in bucket_str (s3_bucket cfg) = ''my-bucket'' \<and> region cfg = ''us-east-1'' \<and> endpoint cfg = None
       \<and> \<not> path_style cfg \<and> credentials_mode cfg = FromEnv \<and> timeout cfg = Some (secs 30))"

definition s3test_config_builders_chain :: "(string \<Rightarrow> string + string) \<Rightarrow> bool" where
  "s3test_config_builders_chain parse \<longleftrightarrow> unwrap (bucket_new ''minio-bucket'') (\<lambda>b.
     unwrap (parse ''http://localhost:9000'') (\<lambda>url.
       let cfg = with_timeout (Some (secs 10)) (with_credentials (Static ''minioadmin'' ''minioadmin'')
             (with_path_style True (with_endpoint url (s3_config_new b ''us-east-1''))))
       in endpoint cfg = Some ''http://localhost:9000/'' \<and> path_style cfg
         \<and> credentials_mode cfg = Static ''minioadmin'' ''minioadmin'' \<and> timeout cfg = Some (secs 10)))"

definition s3test_store_construction_offline :: "('s, 'url) aws \<Rightarrow> bool" where
  "s3test_store_construction_offline aws \<longleftrightarrow> unwrap (bucket_new ''my-bucket'') (\<lambda>b.
     let cfg = with_timeout (Some (secs 2)) (with_credentials (Static ''test'' ''test'') (s3_config_new b ''us-east-1''))
     in unwrap (new_s3 aws cfg) (\<lambda>store. bucket_str (s3_bucket (s3_cfg store)) = ''my-bucket''))"

definition gtest_credentials_mode_debug_redacts_static_secret :: "formatter \<Rightarrow> bool" where
  "gtest_credentials_mode_debug_redacts_static_secret F \<longleftrightarrow>
     (let rendered = debug_credentials F (Static ''AKIA-TEST'' ''super-secret-do-not-leak'')
      in str_contains rendered ''AKIA-TEST'' \<and> \<not> str_contains rendered ''super-secret'' \<and> str_contains rendered ''[redacted]'')
     \<and> str_contains (debug_credentials F FromEnv) ''FromEnv'' \<and> str_contains (debug_credentials F FromProfile) ''FromProfile''"

definition gtest_s3_store_builds_offline :: "(string \<Rightarrow> string + string) \<Rightarrow> ('s, 'url) aws \<Rightarrow> bool" where
  "gtest_s3_store_builds_offline parse aws \<longleftrightarrow> unwrap (bucket_new ''test-bucket'') (\<lambda>b.
     unwrap (parse ''http://127.0.0.1:9'') (\<lambda>url.
       let config = with_timeout (Some (secs 2)) (with_credentials (Static ''test-access'' ''test-secret'')
             (with_path_style True (with_endpoint url (s3_config_new b ''us-east-1''))))
       in unwrap (new_s3 aws config) (\<lambda>store. bucket_str (s3_bucket (s3_cfg store)) = ''test-bucket''
         \<and> region (s3_cfg store) = ''us-east-1'' \<and> path_style (s3_cfg store))))"

definition gtest_s3_store_from_bucket_region :: "('s, 'url) aws \<Rightarrow> bool" where
  "gtest_s3_store_from_bucket_region aws \<longleftrightarrow> unwrap (bucket_new ''cfg-bucket'') (\<lambda>b.
     unwrap (s3_from_bucket_region (fst aws) (snd aws) b ''eu-west-1'') (\<lambda>store.
       bucket_str (s3_bucket (s3_cfg store)) = ''cfg-bucket'' \<and> region (s3_cfg store) = ''eu-west-1''
       \<and> (case credentials_mode (s3_cfg store) of FromEnv \<Rightarrow> True | _ \<Rightarrow> False)))"

section \<open>GCS and Azure\<close>

definition ostest_config_defaults :: bool where
  "ostest_config_defaults \<longleftrightarrow>
     (let gcs = gcs_config_new ''my-bucket''; azure = azure_config_new ''my-container''
      in gcs_bucket gcs = ''my-bucket'' \<and> gcs_creds gcs = GcsFromEnv
        \<and> azure_container azure = ''my-container'' \<and> azure_creds azure = AzureFromEnv)"

definition json_k1 :: string where
  "json_k1 = ''{'' @ [CHR 0x22] @ ''k'' @ [CHR 0x22] @ '':1}''"

definition ostest_config_builders_chain :: bool where
  "ostest_config_builders_chain \<longleftrightarrow>
     (let gcs = gcs_with_credentials (ServiceAccountKey json_k1) (gcs_config_new ''my-bucket'');
          azure = azure_with_credentials (AccountKey ''myaccount'' ''a2V5'') (azure_config_new ''my-container'')
      in gcs_creds gcs = ServiceAccountKey json_k1 \<and> azure_creds azure = AccountKey ''myaccount'' ''a2V5'')"

definition ostest_store_construction_offline ::
  "(string \<Rightarrow> (string \<times> string) option \<Rightarrow> os_error + ('s, 'url) os_client) \<Rightarrow> bool" where
  "ostest_store_construction_offline build \<longleftrightarrow>
     unwrap (backend_azure build (azure_with_credentials (AccountKey ''devstoreaccount1'' ''a2V5'')
         (azure_config_new ''my-container''))) (\<lambda>azure.
       backend_container azure = Some ''my-container'' \<and> gcs_config_of azure = None)"

definition ostest_debug_redacts_credentials :: "formatter \<Rightarrow> bool" where
  "ostest_debug_redacts_credentials F \<longleftrightarrow>
     (let dbg = debug_azure_credentials F (AccountKey ''myaccount'' ''super-secret-key'')
      in \<not> str_contains dbg ''super-secret-key'' \<and> str_contains dbg ''[redacted]'')
     \<and> (let dbg = debug_gcs_credentials F (ServiceAccountKey ''super-secret'')
        in \<not> str_contains dbg ''super-secret'' \<and> str_contains dbg ''[redacted]'')"

section \<open>The proofs\<close>

lemma ktest_texts:
  "key_new ''img/photo.png'' = Inr (ObjectKey ''img/photo.png'')"
  "key_new ''obj/blob.unknownext'' = Inr (ObjectKey ''obj/blob.unknownext'')"
  "key_new ''file..name.txt'' = Inr (ObjectKey ''file..name.txt'')"
  "key_new ''a/b.png'' = Inr (ObjectKey ''a/b.png'')"
  by code_simp+

lemma ktest_buckets:
  "bucket_new ''my-bucket'' = Inr (BucketName ''my-bucket'')" "bucket_new ''other-bucket'' = Inr (BucketName ''other-bucket'')"
  "bucket_new ''minio-bucket'' = Inr (BucketName ''minio-bucket'')" "bucket_new ''test-bucket'' = Inr (BucketName ''test-bucket'')"
  "bucket_new ''cfg-bucket'' = Inr (BucketName ''cfg-bucket'')"
  by code_simp+

lemma ktest_lengths: ktest_object_key_length_boundary ktest_bucket_name_length_edges
proof -
  have "length (replicate 1024 (CHR ''a'')) \<noteq> length ''..''" by simp
  then have "replicate 1024 (CHR ''a'') \<noteq> ''..''" by metis
  then have "key_str_wf (replicate 1024 (CHR ''a''))" "\<not> key_str_wf (replicate 1025 (CHR ''a''))"
    by (simp_all add: key_str_wf_def max_key_len_def split_on_no_sep)
  then show ktest_object_key_length_boundary
    by (simp only: ktest_object_key_length_boundary_def is_err_def key_ok_iff simp_thms)
  have bucket: "is_ok (bucket_new s) \<longleftrightarrow> bucket_str_wf s" for s by (auto simp: is_ok_iff bucket_new_Inr)
  have "\<not> bucket_str_wf (replicate 64 (CHR ''a''))" by (simp add: bucket_str_wf_def)
  then show ktest_bucket_name_length_edges
    unfolding ktest_bucket_name_length_edges_def is_err_def bucket by (intro conjI) (assumption | code_simp)+
qed

text \<open>Guessing knows PNG and text files and nothing of an unknown extension.\<close>

definition mime_of_files :: "crates \<Rightarrow> bool" where
  "mime_of_files c \<longleftrightarrow> (\<exists>g. mime_guess c = Some g \<and> g ''a/b.png'' = Some ''image/png'' \<and> g ''a/b.txt'' = Some ''text/plain''
     \<and> g ''img/photo.png'' = Some ''image/png'' \<and> g ''obj/blob.unknownext'' = None)"

lemma ktest_guesses:
  "mime_of_files c \<Longrightarrow> ktest_guess_content_type_maps_extensions c"
  "mime_guess c = None \<Longrightarrow> ktest_guess_content_type_without_feature_falls_back c"
  by (auto simp: ktest_guess_content_type_maps_extensions_def ktest_guess_content_type_without_feature_falls_back_def
      ktest_texts test_texts_simps guess_content_type_def octet_stream_def mime_of_files_def)

context key_map
begin

lemma ktest_memory:
  "ktest_object_key_traversal_rejected_by_store M e"
  "mime_of_files (crates_of (E 0)) \<or> mime_guess (crates_of (E 0)) = None \<Longrightarrow> crates_of (E 1) = crates_of (E 0) \<Longrightarrow>
    ktest_memory_put_records_content_type_and_sha256 M E"
proof -
  have "is_err (key_new ''../escape'')" "is_err (key_new ''a/../b'')" by code_simp+
  then show "ktest_object_key_traversal_rejected_by_store M e"
    by (simp add: ktest_object_key_traversal_rejected_by_store_def ktest_texts test_steps del: key_new_def)
  assume "mime_of_files (crates_of (E 0)) \<or> mime_guess (crates_of (E 0)) = None" "crates_of (E 1) = crates_of (E 0)"
  then show "ktest_memory_put_records_content_type_and_sha256 M E"
    by (auto simp: ktest_memory_put_records_content_type_and_sha256_def ktest_texts test_steps put_metadata put_entry_def
        new_with_content_type_def guess_content_type_def mime_of_files_def octet_stream_def bytes_of_def split: option.splits)
qed

end

lemma ktest_local:
  assumes "fresh_dir dir fs" "\<And>n. calm_env (E n)"
  shows "ktest_local_max_bytes_contrast E dir fs"
proof -
  let ?C = "\<lparr>root = dir, max_bytes = Some 8\<rparr>" and ?L = "\<lparr>root = dir, max_bytes = None\<rparr>" and ?k = "ObjectKey ''big/data.bin''"
  have big: "local_put ?C (E 0) ?k (replicate 9 0) fs = (Inl StorageFull, fs)"
    by (simp add: local_put_def over_limit_def)
  have "holds ?L fs Map.empty" using fresh_represents [OF assms(1)] by simp
  then obtain i fs1 where p: "local_put ?L (E 1) ?k (replicate 9 0) fs = (Inr i, fs1)" "holds ?L fs1 [?k \<mapsto> replicate 9 0]"
    by (rule put_step [OF _ _ assms(2), of ?L fs Map.empty "''big/data.bin''" "replicate 9 0" 1]) (simp_all add: over_limit_def)
  from read_steps(2) [OF p(2) _ assms(2), of "''big/data.bin''"] p(1) big
  show ?thesis
    by (simp add: ktest_local_max_bytes_contrast_def local_with_max_bytes_def local_new_unchecked_def test_texts_simps
        del: One_nat_def)
qed

lemmas s3_config_simps = new_s3_def s3_new_def s3_from_bucket_region_def s3_config_new_def with_timeout_def
  with_credentials_def with_path_style_def with_endpoint_def secs_def

lemma s3_configs:
  ktest_s3_timeout_none_vs_some_roundtrips "ktest_s3_static_credentials_construct_offline aws" s3test_config_defaults
  "s3test_store_construction_offline aws" "gtest_s3_store_from_bucket_region aws"
  "parse ''http://localhost:9000'' = Inr ''http://localhost:9000/'' \<Longrightarrow> s3test_config_builders_chain parse"
  "is_ok (parse ''http://127.0.0.1:9'') \<Longrightarrow> gtest_s3_store_builds_offline parse aws"
  by (auto simp: ktest_s3_timeout_none_vs_some_roundtrips_def ktest_s3_static_credentials_construct_offline_def
      s3test_config_defaults_def s3test_store_construction_offline_def gtest_s3_store_from_bucket_region_def
      s3test_config_builders_chain_def gtest_s3_store_builds_offline_def ktest_buckets s3_config_simps is_ok_iff)

lemma redactions:
  assumes "quoting F"
  shows "gtest_credentials_mode_debug_redacts_static_secret F" "ostest_debug_redacts_credentials F"
proof -
  have "list_all plain_char ''AKIA-TEST''" by (simp add: plain_char_def)
  note q = quotingD [OF assms this]
  show "gtest_credentials_mode_debug_redacts_static_secret F" "ostest_debug_redacts_credentials F"
    by (simp_all add: gtest_credentials_mode_debug_redacts_static_secret_def ostest_debug_redacts_credentials_def
        debug_struct_def q quoted [OF assms] Let_def)
qed

lemma ostest_configs:
  ostest_config_defaults ostest_config_builders_chain
  "is_ok (build ''my-container'' (Some (''devstoreaccount1'', ''a2V5''))) \<Longrightarrow> ostest_store_construction_offline build"
proof -
  show ostest_config_defaults ostest_config_builders_chain
    by (simp_all add: ostest_config_defaults_def ostest_config_builders_chain_def gcs_config_new_def azure_config_new_def
        gcs_with_credentials_def azure_with_credentials_def)
  assume "is_ok (build ''my-container'' (Some (''devstoreaccount1'', ''a2V5'')))"
  moreover have "\<not> trim_is_empty ''my-container''" "\<not> trim_is_empty ''devstoreaccount1''" "\<not> trim_is_empty ''a2V5''"
    by code_simp+
  ultimately show "ostest_store_construction_offline build"
    by (auto simp: ostest_store_construction_offline_def backend_azure_def azure_config_new_def azure_with_credentials_def
        azure_keys_missing_def is_ok_iff)
qed

section \<open>All of them\<close>

text \<open>The tests of configuration pass over every map and every AWS client, in every fresh directory, when guessing knows
  PNG and text files, a URL parser adds the root path, and \<open>Debug\<close> quotes plain strings.\<close>

theorem config_tests_pass:
  assumes "key_map M" "mime_of_files (crates_of (E 0))" "crates_of (E 1) = crates_of (E 0)" "mime_guess c = None"
    and "fresh_dir dir fs" "\<And>n. calm_env (L n)"
    and "quoting F" "parse ''http://localhost:9000'' = Inr ''http://localhost:9000/''" "is_ok (parse ''http://127.0.0.1:9'')"
    and "is_ok (build ''my-container'' (Some (''devstoreaccount1'', ''a2V5'')))"
  shows "ktest_object_key_length_boundary \<and> ktest_object_key_traversal_rejected_by_store M (E 0)
    \<and> ktest_bucket_name_length_edges \<and> ktest_guess_content_type_maps_extensions (crates_of (E 0))
    \<and> ktest_guess_content_type_without_feature_falls_back c \<and> ktest_compute_sha256_without_feature_is_none
    \<and> ktest_memory_put_records_content_type_and_sha256 M E \<and> ktest_local_max_bytes_contrast L dir fs
    \<and> ktest_s3_timeout_none_vs_some_roundtrips \<and> ktest_s3_static_credentials_construct_offline aws
    \<and> s3test_config_defaults \<and> s3test_config_builders_chain parse \<and> s3test_store_construction_offline aws
    \<and> gtest_credentials_mode_debug_redacts_static_secret F \<and> gtest_s3_store_builds_offline parse aws
    \<and> gtest_s3_store_from_bucket_region aws \<and> ostest_config_defaults \<and> ostest_config_builders_chain
    \<and> ostest_store_construction_offline build \<and> ostest_debug_redacts_credentials F"
proof -
  have stub: ktest_compute_sha256_without_feature_is_none
    by (simp add: ktest_compute_sha256_without_feature_is_none_def compute_sha256_stub_def)
  show ?thesis
    by (intro conjI stub ktest_lengths ktest_guesses key_map.ktest_memory ktest_local s3_configs redactions ostest_configs assms
        disjI1)
qed

definition file_crates :: crates where
  "file_crates = \<lparr>mime_guess = Some (\<lambda>s. if ends_with s ''.png'' then Some ''image/png''
       else if ends_with s ''.txt'' then Some ''text/plain'' else None), sha256_digest = None, clock_now = None\<rparr>"

definition s3_settings_of :: "(string \<times> string) option \<Rightarrow> string \<Rightarrow> sdk_settings" where
  "s3_settings_of creds r = \<lparr>static_credentials = creds, set_region = Some r, force_path_style = None, endpoint_url = None,
     operation_timeout = None\<rparr>"

theorem config_tests_pass_witness:
  "ktest_memory_put_records_content_type_and_sha256 hash_map_ops (\<lambda>n. plain_env\<lparr>crates_of := file_crates\<rparr>)
   \<and> ktest_local_max_bytes_contrast (\<lambda>n. calm) [''r''] empty_r"
proof -
  have "fresh_dir [''r''] empty_r" by (simp add: fresh_dir_def empty_r_def name_ok_def)
  moreover have "mime_of_files file_crates"
    by (simp add: mime_of_files_def file_crates_def ends_with_def)
  ultimately show ?thesis
    using config_tests_pass [OF hash_map.key_map_axioms, of "\<lambda>n. plain_env\<lparr>crates_of := file_crates\<rparr>" "crates_of plain_env" "[''r'']"
        empty_r "\<lambda>n. calm" quoter "\<lambda>s. if s = ''http://localhost:9000'' then Inr ''http://localhost:9000/'' else Inr s"
        "\<lambda>b a. Inr list_client" "(s3_settings_of, \<lambda>conf. client map_s3)"] quoter_quoting
    by (simp add: plain_env_def)
qed

end
