(* ===== verification/Ring_Reuse.thy ===== *)
theory Ring_Reuse
  imports Ring_Correct
begin

text \<open>
  Several transfers on one \<open>IoUringFile\<close>: its ring outlives a transfer, so entries that a transfer leaves
  in flight, or in the submission queue, complete during a later one. Entries are numbered for the
  life of the ring; the driver knows them by \<open>user_data\<close> only, which starts from 0 in every transfer. As long as
  transfers return \<open>Ok\<close>, nothing is left over and each is the transfer of a fresh ring (theory Ring_File).
\<close>

section \<open>Entries of a ring\<close>

text \<open>
  An entry the kernel holds. \<open>op_buf\<close> is \<open>None\<close> for the buffer of the transfer under way; when the
  transfer has returned its caller has the memory back, and \<open>Some b\<close> is what is there.
\<close>

record ring_op =
  op_seq :: nat
  op_user :: nat
  op_write :: bool
  op_piece :: piece
  op_buf :: "bytes option"

text \<open>\<open>base\<close> is the number of entries of earlier transfers, \<open>stray\<close> the bytes stored in memory given back.\<close>

record uring =
  base_seq :: nat
  ops :: "ring_op list"
  stray :: nat

record ring_kernel =
  room :: "nat \<Rightarrow> ring_op list \<Rightarrow> ring_state \<Rightarrow> nat"
  wait :: "nat \<Rightarrow> ring_op list \<Rightarrow> ring_state \<Rightarrow> wait_result"

definition op_of_sqe :: "nat \<Rightarrow> sqe \<Rightarrow> ring_op" where
  "op_of_sqe b s = \<lparr>op_seq = b + sqe_user s, op_user = sqe_user s, op_write = sqe_write s,
     op_piece = \<lparr>file_off = sqe_off s, buf_off = sqe_ptr s, plen = sqe_len s\<rparr>, op_buf = None\<rparr>"

text \<open>The bytes the kernel moves for an entry: between the file and the buffer the entry points into.\<close>

definition move_op :: "ring_op \<Rightarrow> nat \<Rightarrow> ring_state \<Rightarrow> ring_state" where
  "move_op p n st =
     (case op_buf p of
        None \<Rightarrow> transfer (op_write p) (op_piece p) n st
      | Some b \<Rightarrow>
          if op_write p
          then st\<lparr>disk := image_write (file_off (op_piece p)) (take n (drop (buf_off (op_piece p)) b)) (disk st)\<rparr>
          else st)"

definition finish_op :: "ring_op \<Rightarrow> nat \<Rightarrow> uring \<Rightarrow> uring" where
  "finish_op p n R = R\<lparr>ops := filter (\<lambda>q. op_seq q \<noteq> op_seq p) (ops R),
     stray := stray R + (if op_buf p \<noteq> None \<and> \<not> op_write p then n else 0)\<rparr>"

section \<open>The loop on a ring\<close>

text \<open>The loop of Ring_File; the entry that completes and the piece its \<open>user_data\<close> stands for may differ.\<close>

fun reap_ops :: "bool \<Rightarrow> (nat \<times> int) list \<Rightarrow> uring \<Rightarrow> ring_state \<Rightarrow> (io_error + unit) \<times> uring \<times> ring_state" where
  "reap_ops w [] R st = (Inr (), R, st)"
| "reap_ops w ((q, r) # cs) R st =
     (case find (\<lambda>p. op_seq p = q) (ops R) of
        None \<Rightarrow> reap_ops w cs R st
      | Some done \<Rightarrow>
          (let n = nat r; R1 = finish_op done n R; st0 = move_op done n st in
           case map_of (in_flight st0) (op_user done) of
             None \<Rightarrow> (Inl (CustomError KOther ''io_uring: unknown user_data''), R1, st0)
           | Some p \<Rightarrow>
               (let st1 = st0\<lparr>in_flight := AList.delete (op_user done) (in_flight st0)\<rparr> in
                if r < 0 then (Inl (OsError (nat (- r))), R1, st1)
                else if n = plen p then reap_ops w cs R1 st1
                else if n = 0 then (Inl (CustomError KUnexpectedEof ''io_uring: zero-length completion''), R1, st1)
                else reap_ops w cs R1 (st1\<lparr>work := work st1 @ [advance p n]\<rparr>))))"

definition submit_ops :: "ring_state \<Rightarrow> ring_state \<Rightarrow> uring \<Rightarrow> uring" where
  "submit_ops st st1 R = R\<lparr>ops := ops R @ map (op_of_sqe (base_seq R)) (drop (length (pushed st)) (pushed st1))\<rparr>"

partial_function (option) drive_ops ::
  "ring_kernel \<Rightarrow> bool \<Rightarrow> nat \<Rightarrow> nat \<Rightarrow> uring \<Rightarrow> ring_state \<Rightarrow> ((io_error + unit) \<times> uring \<times> ring_state) option" where
  "drive_ops K w ring round R st =
     (let st1 = fill w ring (room K round (ops R) st) st; R1 = submit_ops st st1 R in
      if in_flight st1 = [] then Some (Inr (), R1, st1)
      else (case wait K round (ops R1) st1 of
          WaitError e \<Rightarrow> Some (Inl e, R1, st1)
        | Completions cs \<Rightarrow>
            (case reap_ops w cs R1 st1 of
               (Inl e, R2, st2) \<Rightarrow> Some (Inl e, R2, st2)
             | (Inr u, R2, st2) \<Rightarrow> drive_ops K w ring (round + 1) R2 st2)))"

section \<open>Transfers of a handle\<close>

datatype transfer_call = WriteAt nat bytes | ReadAt nat bytes

fun call_range :: "transfer_call \<Rightarrow> bool \<times> nat \<times> bytes" where
  "call_range (WriteAt off data) = (True, off, data)"
| "call_range (ReadAt off buf) = (False, off, buf)"

text \<open>The entries a transfer leaves keep pointing into its buffer.\<close>

definition leave :: "ring_state \<Rightarrow> uring \<Rightarrow> uring" where
  "leave st R = R\<lparr>base_seq := base_seq R + next_id st,
     ops := map (\<lambda>p. case op_buf p of None \<Rightarrow> p\<lparr>op_buf := Some (mem st)\<rparr> | Some b \<Rightarrow> p) (ops R)\<rparr>"

definition transfer_at ::
  "ring_kernel \<Rightarrow> transfer_call \<Rightarrow> uring \<Rightarrow> file_image \<Rightarrow> ((io_error + bytes) \<times> uring \<times> file_image) option" where
  "transfer_at K c R f =
     (let (w, off, buf) = call_range c in
      case drive_ops K w DEFAULT_RING_SIZE 0 R (start_state DEFAULT_CHUNK_SIZE off f buf) of
        None \<Rightarrow> None
      | Some (Inl e, R', st) \<Rightarrow> Some (Inl e, leave st R', disk st)
      | Some (Inr u, R', st) \<Rightarrow> Some (Inr (mem st), leave st R', disk st))"

text \<open>Transfers one after the other, up to the first error, with the buffers they leave.\<close>

fun transfers_at ::
  "ring_kernel \<Rightarrow> transfer_call list \<Rightarrow> uring \<Rightarrow> file_image \<Rightarrow> ((io_error + bytes list) \<times> uring \<times> file_image) option" where
  "transfers_at K [] R f = Some (Inr [], R, f)"
| "transfers_at K (c # cs) R f =
     (case transfer_at K c R f of
        None \<Rightarrow> None
      | Some (Inl e, R', f') \<Rightarrow> Some (Inl e, R', f')
      | Some (Inr b, R', f') \<Rightarrow>
          (case transfers_at K cs R' f' of
             None \<Rightarrow> None
           | Some (Inl e, H) \<Rightarrow> Some (Inl e, H)
           | Some (Inr bs, H) \<Rightarrow> Some (Inr (b # bs), H)))"

text \<open>What the transfers do to the file and leave in the buffers.\<close>

fun expected :: "transfer_call list \<Rightarrow> file_image \<Rightarrow> bytes list \<times> file_image" where
  "expected [] f = ([], f)"
| "expected (WriteAt off data # cs) f = apfst ((#) data) (expected cs (image_write off data f))"
| "expected (ReadAt off buf # cs) f = apfst ((#) (image_read off (length buf) f)) (expected cs f)"

section \<open>The kernel's promises\<close>

text \<open>
  Completions are of entries it holds, each once, of at most their length, for a read at most what
  the file has; it waits for at least one, and the queue has a place for each entry it does not hold.
\<close>

definition lawful_ring :: "ring_kernel \<Rightarrow> bool" where
  "lawful_ring K \<longleftrightarrow>
     (\<forall>round os st. DEFAULT_RING_SIZE - length os \<le> room K round os st)
     \<and> (\<forall>round os st cs. wait K round os st = Completions cs \<longrightarrow>
          distinct (map fst cs) \<and> (os \<noteq> [] \<longrightarrow> cs \<noteq> [])
          \<and> (\<forall>(q, r) \<in> set cs. \<exists>p \<in> set os. op_seq p = q \<and> r \<le> int (plen (op_piece p))
               \<and> (\<not> op_write p \<longrightarrow> r \<le> int (flen (disk st) - file_off (op_piece p)))))"

text \<open>A kernel without errors that makes progress where there is something to move.\<close>

definition healthy_ring :: "ring_kernel \<Rightarrow> bool" where
  "healthy_ring K \<longleftrightarrow> (\<forall>round os st. \<exists>cs. wait K round os st = Completions cs
     \<and> (\<forall>(q, r) \<in> set cs. \<exists>p \<in> set os. op_seq p = q \<and> (0 < plen (op_piece p)
          \<and> (op_write p \<or> file_off (op_piece p) < flen (disk st)) \<longrightarrow> 0 < r)))"

text \<open>The entries of the transfer under way, and the kernel as one transfer of a fresh ring sees it.\<close>

definition current_ops :: "bool \<Rightarrow> nat \<Rightarrow> ring_state \<Rightarrow> ring_op list" where
  "current_ops w b st = map (\<lambda>(i, p). op_of_sqe b (make_sqe w i p)) (in_flight st)"

definition as_kernel :: "ring_kernel \<Rightarrow> bool \<Rightarrow> nat \<Rightarrow> kernel" where
  "as_kernel K w b =
     \<lparr>sq_room = (\<lambda>round st. room K round (current_ops w b st) st),
      submit_and_wait = (\<lambda>round st.
        if distinct (map fst (in_flight st)) then
          (case wait K round (current_ops w b st) st of
             WaitError e \<Rightarrow> WaitError e
           | Completions cs \<Rightarrow> Completions (map (apfst (\<lambda>q. q - b)) cs))
        else submit_and_wait (trickle w 1) round st)\<rparr>"

lemma current_op_simps:
  "op_seq (op_of_sqe b (make_sqe w i p)) = b + i" "op_user (op_of_sqe b (make_sqe w i p)) = i"
  "op_write (op_of_sqe b (make_sqe w i p)) = w" "op_buf (op_of_sqe b (make_sqe w i p)) = None"
  "plen (op_piece (op_of_sqe b (make_sqe w i p))) = plen p mod 2 ^ 32"
  "file_off (op_piece (op_of_sqe b (make_sqe w i p))) = file_off p"
  "move_op (op_of_sqe b (make_sqe w i p)) n st = transfer w p n st"
  by (simp_all add: op_of_sqe_def make_sqe_def move_op_def transfer_def)

lemma lawful_ringD:
  assumes "lawful_ring K" "wait K round os st = Completions cs"
  shows "distinct (map fst cs)" "os \<noteq> [] \<longrightarrow> cs \<noteq> []"
    "(q, r) \<in> set cs \<Longrightarrow> \<exists>p \<in> set os. op_seq p = q \<and> r \<le> int (plen (op_piece p))
               \<and> (\<not> op_write p \<longrightarrow> r \<le> int (flen (disk st) - file_off (op_piece p)))"
proof -
  from assms have "distinct (map fst cs) \<and> (os \<noteq> [] \<longrightarrow> cs \<noteq> [])
          \<and> (\<forall>(q, r) \<in> set cs. \<exists>p \<in> set os. op_seq p = q \<and> r \<le> int (plen (op_piece p))
               \<and> (\<not> op_write p \<longrightarrow> r \<le> int (flen (disk st) - file_off (op_piece p))))"
    unfolding lawful_ring_def by (elim conjE allE) (rule mp)
  then show "distinct (map fst cs)" "os \<noteq> [] \<longrightarrow> cs \<noteq> []"
    "(q, r) \<in> set cs \<Longrightarrow> \<exists>p \<in> set os. op_seq p = q \<and> r \<le> int (plen (op_piece p))
               \<and> (\<not> op_write p \<longrightarrow> r \<le> int (flen (disk st) - file_off (op_piece p)))" by fast+
qed

lemma as_kernel_wait:
  "distinct (map fst (in_flight st)) \<Longrightarrow> submit_and_wait (as_kernel K w b) round st =
     (case wait K round (current_ops w b st) st of
        WaitError e \<Rightarrow> WaitError e
      | Completions cs \<Rightarrow> Completions (map (apfst (\<lambda>q. q - b)) cs))"
  by (simp add: as_kernel_def)

lemma as_kernel_lawful:
  assumes "lawful_ring K"
  shows "lawful_kernel (as_kernel K w b) w"
  unfolding lawful_kernel_def
proof (intro conjI allI impI)
  fix round st
  show "DEFAULT_RING_SIZE - length (in_flight st) \<le> sq_room (as_kernel K w b) round st"
    using assms by (metis (no_types, lifting) as_kernel_def current_ops_def kernel.select_convs(1) lawful_ring_def length_map)
next
  fix round st cs
  assume sw: "submit_and_wait (as_kernel K w b) round st = Completions cs"
  show "lawful_round w cs st"
  proof (cases "distinct (map fst (in_flight st))")
    case False
    with sw trickle_lawful [of w 1] show ?thesis by (simp add: as_kernel_def lawful_kernel_def)
  next
    case d: True
    from sw d obtain cs' where wt: "wait K round (current_ops w b st) st = Completions cs'"
        and cs: "cs = map (apfst (\<lambda>q. q - b)) cs'" by (auto simp: as_kernel_def split: wait_result.splits)
    note L = lawful_ringD [OF assms wt]
    have entry: "\<exists>i p. q = b + i \<and> map_of (in_flight st) i = Some p \<and> r \<le> int (plen p mod 2 ^ 32)
        \<and> (\<not> w \<longrightarrow> r \<le> int (flen (disk st) - file_off p))" if "(q, r) \<in> set cs'" for q r
    proof -
      from L(3) [OF that] obtain e where e: "e \<in> set (current_ops w b st)" "op_seq e = q" "r \<le> int (plen (op_piece e))"
          "\<not> op_write e \<longrightarrow> r \<le> int (flen (disk st) - file_off (op_piece e))" by blast
      from e(1) obtain i p where ip: "(i, p) \<in> set (in_flight st)" "e = op_of_sqe b (make_sqe w i p)"
        by (auto simp: current_ops_def)
      with e map_of_is_SomeI [OF d ip(1)] show ?thesis by (intro exI [of _ i] exI [of _ p]) (simp add: current_op_simps del: of_nat_mod)
    qed
    have "inj_on (\<lambda>q. q - b) (fst ` set cs')"
    proof (rule inj_onI)
      fix x y assume "x \<in> fst ` set cs'" "y \<in> fst ` set cs'" "x - b = y - b"
      then obtain r r' where "(x, r) \<in> set cs'" "(y, r') \<in> set cs'" by auto
      then have "b \<le> x" "b \<le> y" using entry by (metis le_add1)+
      with \<open>x - b = y - b\<close> show "x = y" by simp
    qed
    then have "distinct (map (\<lambda>q. q - b) (map fst cs'))" using L(1) by (simp only: distinct_map set_map simp_thms)
    then have "distinct (map fst cs)" by (simp add: cs comp_def)
    moreover have "in_flight st \<noteq> [] \<longrightarrow> cs \<noteq> []" using L(2) by (auto simp: cs current_ops_def)
    moreover have "\<exists>p. map_of (in_flight st) i = Some p \<and> r \<le> int (plen p mod 2 ^ 32)
        \<and> (\<not> w \<longrightarrow> r \<le> int (flen (disk st) - file_off p))" if "(i, r) \<in> set cs" for i r
    proof -
      from that obtain q where "(q, r) \<in> set cs'" "i = q - b" by (auto simp: cs)
      with entry [of q r] show ?thesis by (simp del: of_nat_mod) (metis diff_add_inverse)
    qed
    ultimately show ?thesis unfolding lawful_round_def by blast
  qed
qed

lemma as_kernel_healthy:
  assumes "healthy_ring K"
  shows "healthy_kernel (as_kernel K w b) w"
  unfolding healthy_kernel_def
proof (intro allI)
  fix round and st :: ring_state
  let ?good = "\<lambda>cs. \<forall>(i, r) \<in> set cs. \<forall>p. map_of (in_flight st) i = Some p \<and> 0 < plen p mod 2 ^ 32
          \<and> (w \<or> file_off p < flen (disk st)) \<longrightarrow> 0 < r"
  show "\<exists>cs. submit_and_wait (as_kernel K w b) round st = Completions cs \<and> ?good cs"
  proof (cases "distinct (map fst (in_flight st))")
    case True
    from assms obtain cs where cs: "wait K round (current_ops w b st) st = Completions cs"
        "\<forall>(q, r) \<in> set cs. \<exists>p \<in> set (current_ops w b st). op_seq p = q \<and> (0 < plen (op_piece p)
          \<and> (op_write p \<or> file_off (op_piece p) < flen (disk st)) \<longrightarrow> 0 < r)"
      unfolding healthy_ring_def by blast
    have "0 < r" if "(q, r) \<in> set cs" "map_of (in_flight st) (q - b) = Some p" "0 < plen p mod 2 ^ 32"
        "w \<or> file_off p < flen (disk st)" for q r p
    proof -
      from bspec [OF cs(2) that(1)] obtain e where e: "e \<in> set (current_ops w b st)" "op_seq e = q"
          "0 < plen (op_piece e) \<and> (op_write e \<or> file_off (op_piece e) < flen (disk st)) \<longrightarrow> 0 < r" by auto
      from e(1) obtain i p' where ip: "(i, p') \<in> set (in_flight st)" "e = op_of_sqe b (make_sqe w i p')"
        by (auto simp: current_ops_def)
      with e(2) that(2) map_of_is_SomeI [OF True ip(1)] have "p' = p" by (auto simp: current_op_simps)
      with e(3) ip(2) that(3,4) show ?thesis by (simp add: current_op_simps)
    qed
    then have "?good (map (apfst (\<lambda>q. q - b)) cs)" by auto
    with cs(1) show ?thesis by (simp only: as_kernel_wait [OF True] wait_result.case) blast
  next
    case False
    with trickle_healthy [of 1 w] show ?thesis by (simp add: as_kernel_def healthy_kernel_def)
  qed
qed

section \<open>A transfer on a ring with nothing left over\<close>

lemma image_write_Nil [simp]: "image_write off [] f = f"
proof -
  have no: "(off \<le> i \<and> i < off) = False" for i by auto
  show ?thesis by (cases f) (simp add: image_write_def no)
qed

lemma transfer_0 [simp]: "transfer w p 0 st = st"
  by (cases st) (simp add: transfer_def image_read_def buf_store_def)

text \<open>The ring while a transfer is the only one it knows of.\<close>

definition only_current :: "bool \<Rightarrow> uring \<Rightarrow> ring_state \<Rightarrow> uring" where
  "only_current w R st = R\<lparr>ops := current_ops w (base_seq R) st\<rparr>"

lemma only_current_simps [simp]:
  "base_seq (only_current w R st) = base_seq R" "ops (only_current w R st) = current_ops w (base_seq R) st"
  "stray (only_current w R st) = stray R" "only_current w (only_current w R st) st' = only_current w R st'"
  by (simp_all add: only_current_def)

lemma only_current_cong: "in_flight st = in_flight st' \<Longrightarrow> only_current w R st = only_current w R st'"
  by (simp add: only_current_def current_ops_def)

lemma find_current:
  assumes "distinct (map fst (in_flight st))" "map_of (in_flight st) i = Some p"
  shows "find (\<lambda>e. op_seq e = b + i) (current_ops w b st) = Some (op_of_sqe b (make_sqe w i p))"
proof -
  have "find (\<lambda>e. op_seq e = b + i) (map (\<lambda>(i, p). op_of_sqe b (make_sqe w i p)) al) = Some (op_of_sqe b (make_sqe w i p))"
    if "map_of al i = Some p" for al
    using that by (induction al) (auto simp: current_op_simps split: if_splits)
  with assms(2) show ?thesis by (simp add: current_ops_def)
qed

lemma finish_current:
  "finish_op (op_of_sqe (base_seq R) (make_sqe w i p)) n (only_current w R st)
     = only_current w R (st\<lparr>in_flight := AList.delete i (in_flight st)\<rparr>)"
proof -
  have "filter (\<lambda>q. op_seq q \<noteq> base_seq R + i) (map (\<lambda>(i, p). op_of_sqe (base_seq R) (make_sqe w i p)) al)
      = map (\<lambda>(i, p). op_of_sqe (base_seq R) (make_sqe w i p)) (AList.delete i al)" for al
    by (induction al) (auto simp: current_op_simps)
  then show ?thesis by (simp add: finish_op_def only_current_def current_ops_def current_op_simps)
qed

lemma transfer_delete:
  "(transfer w p n st)\<lparr>in_flight := al\<rparr> = transfer w p n (st\<lparr>in_flight := al\<rparr>)"
  by (simp add: transfer_def)

lemma reap_current:
  assumes "distinct (map fst (in_flight st))" "distinct (map fst cs)"
    and "\<forall>(i, r) \<in> set cs. map_of (in_flight st) i \<noteq> None"
  shows "reap_ops w (map (apfst ((+) (base_seq R))) cs) (only_current w R st) st
    = (case reap w cs st of (q, st') \<Rightarrow> (q, only_current w R st', st'))"
  using assms
proof (induction cs arbitrary: st)
  case Nil
  then show ?case by simp
next
  case (Cons c cs)
  obtain i r where c: "c = (i, r)" by (cases c)
  with Cons.prems(3) obtain p where p: "map_of (in_flight st) i = Some p" by auto
  let ?al = "AList.delete i (in_flight st)"
  note step = find_current [OF Cons.prems(1) p, of "base_seq R" w] finish_current
  show ?case
  proof (cases "r < 0 \<or> nat r \<noteq> plen p \<and> r = 0")
    case True
    then show ?thesis
      by (auto simp: c step p current_op_simps reap_settle Let_def intro!: only_current_cong
          simp del: reap.simps(2))
  next
    case False
    have "reap_ops w (map (apfst ((+) (base_seq R))) (c # cs)) (only_current w R st) st
        = reap_ops w (map (apfst ((+) (base_seq R))) cs) (only_current w R (settle w i p (nat r) st)) (settle w i p (nat r) st)"
      using False by (auto simp: c step p current_op_simps Let_def settle_def transfer_delete intro!: arg_cong2 [where f = "reap_ops w _"] only_current_cong)
    also have "\<dots> = (case reap w cs (settle w i p (nat r) st) of (q, st') \<Rightarrow> (q, only_current w R st', st'))"
    proof (rule Cons.IH)
      show "distinct (map fst (in_flight (settle w i p (nat r) st)))"
        using Cons.prems(1) by (simp add: AList.delete_eq distinct_map_filter)
      show "distinct (map fst cs)" using Cons.prems(2) by (simp add: c)
      show "\<forall>(j, r') \<in> set cs. map_of (in_flight (settle w i p (nat r) st)) j \<noteq> None"
        using Cons.prems(2,3) by (force simp: c delete_conv')
    qed
    also have "reap w cs (settle w i p (nat r) st) = reap w (c # cs) st"
      using False p by (auto simp: c reap_settle simp del: reap.simps(2))
    finally show ?thesis .
  qed
qed

lemma fill_new:
  assumes "\<forall>i \<in> fst ` set (in_flight st). i < next_id st"
  shows "\<exists>new. in_flight (fill w ring n st) = in_flight st @ new
    \<and> pushed (fill w ring n st) = pushed st @ map (\<lambda>(i, p). make_sqe w i p) new"
  using assms
proof (induction n arbitrary: st)
  case 0
  have "fill w ring 0 st = st" by (cases st) (auto simp: fill.simps split: list.splits)
  then show ?case by simp
next
  case (Suc n)
  show ?case
  proof (cases "length (in_flight st) < ring \<and> work st \<noteq> []")
    case False
    then have "fill w ring (Suc n) st = st" by (subst fill.simps) (auto split: list.splits)
    then show ?thesis by simp
  next
    case True
    then obtain p ps where work: "work st = p # ps" by (cases "work st") auto
    let ?st = "st\<lparr>work := ps, in_flight := AList.update (next_id st) p (in_flight st),
        next_id := next_id st + 1, pushed := pushed st @ [make_sqe w (next_id st) p]\<rparr>"
    have "next_id st \<notin> fst ` set (in_flight st)" using Suc.prems by auto
    note upd = update_fresh [OF this, of p]
    have "\<forall>i \<in> fst ` set (in_flight ?st). i < next_id ?st" using Suc.prems by (auto simp: upd less_Suc_eq)
    from Suc.IH [OF this] obtain new where "in_flight (fill w ring n ?st) = in_flight st @ (next_id st, p) # new"
        "pushed (fill w ring n ?st) = pushed st @ map (\<lambda>(i, p). make_sqe w i p) ((next_id st, p) # new)"
      by (auto simp: upd)
    moreover have "fill w ring (Suc n) st = fill w ring n ?st" using True work by (subst fill.simps) simp
    ultimately show ?thesis by metis
  qed
qed

lemma submit_current:
  assumes "\<forall>i \<in> fst ` set (in_flight st). i < next_id st"
  shows "submit_ops st (fill w ring n st) (only_current w R st) = only_current w R (fill w ring n st)"
  using fill_new [OF assms, of w ring n]
  by (auto simp: submit_ops_def only_current_def current_ops_def comp_def case_prod_beta)

text \<open>A round in which the kernel reports completions is the same on the ring and alone.\<close>

lemma round_current:
  assumes "lawful_ring K" "distinct (map fst (in_flight st))"
    and wt: "wait K round (current_ops w (base_seq R) st) st = Completions cs"
  defines "cs' \<equiv> map (apfst (\<lambda>q. q - base_seq R)) cs"
  shows "submit_and_wait (as_kernel K w (base_seq R)) round st = Completions cs'" "lawful_round w cs' st"
    "reap_ops w cs (only_current w R st) st = (case reap w cs' st of (q, st') \<Rightarrow> (q, only_current w R st', st'))"
proof -
  show sw: "submit_and_wait (as_kernel K w (base_seq R)) round st = Completions cs'"
    using wt by (simp only: as_kernel_wait [OF assms(2)] wait_result.case cs'_def)
  with as_kernel_lawful [OF assms(1), of w "base_seq R"] show lr: "lawful_round w cs' st"
    unfolding lawful_kernel_def by blast
  have "base_seq R \<le> q" if "(q, r) \<in> set cs" for q r
    using lawful_ringD(3) [OF assms(1) wt that] by (auto simp: current_ops_def current_op_simps)
  then have cs: "map (apfst ((+) (base_seq R))) cs' = cs"
    by (auto simp: cs'_def comp_def apfst_def map_prod_def intro!: map_idI)
  have "reap_ops w (map (apfst ((+) (base_seq R))) cs') (only_current w R st) st
      = (case reap w cs' st of (q, st') \<Rightarrow> (q, only_current w R st', st'))"
    using lr by (intro reap_current assms(2)) (auto simp: lawful_round_def)
  then show "reap_ops w cs (only_current w R st) st = (case reap w cs' st of (q, st') \<Rightarrow> (q, only_current w R st', st'))"
    by (simp only: cs)
qed

lemma drive_ops_round:
  fixes K R w
  defines "K' \<equiv> as_kernel K w (base_seq R)" and "cur \<equiv> only_current w R"
  assumes "lawful_ring K" "loop_inv off N w f buf st" and st1: "st1 = topped K' w round st"
  shows "drive_ops K w DEFAULT_RING_SIZE round (cur st) st =
    (if in_flight st1 = [] then Some (Inr (), cur st1, st1)
     else (case submit_and_wait K' round st1 of
         WaitError e \<Rightarrow> Some (Inl e, cur st1, st1)
       | Completions cs \<Rightarrow>
           (case reap w cs st1 of
              (Inl e, st2) \<Rightarrow> Some (Inl e, cur st2, st2)
            | (Inr u, st2) \<Rightarrow> drive_ops K w DEFAULT_RING_SIZE (round + 1) (cur st2) st2)))"
proof -
  have inv: "ring_inv off N st" "ring_inv off N st1"
    using assms(4) topped_inv [OF assms(4), of K' round] by (simp_all add: st1 loop_inv_def)
  have room: "room K round (ops (cur st)) st = sq_room K' round st" by (simp add: K'_def cur_def as_kernel_def only_current_simps)
  have sub: "submit_ops st st1 (cur st) = cur st1"
    using inv(1) by (auto simp: st1 cur_def ring_inv_def intro!: submit_current)
  have ops: "ops (cur st1) = current_ops w (base_seq R) st1" by (simp add: cur_def only_current_simps)
  have dist: "distinct (map fst (in_flight st1))" using inv(2) by (simp add: ring_inv_def)
  have body: "drive_ops K w DEFAULT_RING_SIZE round (cur st) st =
    (if in_flight st1 = [] then Some (Inr (), cur st1, st1)
     else (case wait K round (current_ops w (base_seq R) st1) st1 of
         WaitError e \<Rightarrow> Some (Inl e, cur st1, st1)
       | Completions cs \<Rightarrow>
           (case reap_ops w cs (cur st1) st1 of
              (Inl e, R2, st2) \<Rightarrow> Some (Inl e, R2, st2)
            | (Inr u, R2, st2) \<Rightarrow> drive_ops K w DEFAULT_RING_SIZE (round + 1) R2 st2)))"
    by (subst drive_ops.simps) (simp only: room sub ops Let_def flip: st1)
  show ?thesis
  proof (cases "wait K round (current_ops w (base_seq R) st1) st1")
    case (WaitError e)
    then have "submit_and_wait K' round st1 = WaitError e" by (simp only: K'_def as_kernel_wait [OF dist] wait_result.case)
    with WaitError show ?thesis unfolding body by simp
  next
    case (Completions cs)
    note now = round_current [OF assms(3) dist Completions, folded K'_def cur_def]
    show ?thesis unfolding body Completions now(1) wait_result.case now(3)
      by (simp only: prod.case_distrib [of "case_prod _"] prod.case split: prod.split sum.split)
  qed
qed

lemma drive_current:
  assumes "lawful_ring K" "loop_inv off N w f buf st"
  shows "drive_ops K w DEFAULT_RING_SIZE round (only_current w R st) st
    = map_option (\<lambda>(q, st'). (q, only_current w R st', st')) (drive (as_kernel K w (base_seq R)) w DEFAULT_RING_SIZE round st)"
  using as_kernel_lawful [OF assms(1), of w "base_seq R"] assms(2)
  by (induction round st rule: drive_induct) (simp_all add: drive_ops_round [OF assms(1)])

section \<open>Transfers that succeed\<close>

lemma transfer_current:
  assumes "lawful_ring K" "ops R = []" "call_range c = (w, off, buf)" "off + length buf < 2 ^ 64"
  shows "\<exists>q R' f'. transfer_at K c R f = Some (q, R', f')
    \<and> (healthy_ring K \<and> (w \<or> off + length buf \<le> flen f) \<longrightarrow> is_ok q)
    \<and> (\<forall>b. q = Inr b \<longrightarrow> ([b], f') = expected [c] f \<and> ops R' = [] \<and> stray R' = stray R)"
proof -
  let ?K = "as_kernel K w (base_seq R)" and ?s = "start_state DEFAULT_CHUNK_SIZE off f buf"
  note law = as_kernel_lawful [OF assms(1), of w "base_seq R"] and start = start_loop_inv [OF assms(4)]
  have "disk ?s = f" by (simp add: start_state_def)
  with drive_terminates [OF law start [where f = f], where round = 0] as_kernel_healthy [of K w "base_seq R"]
  obtain q st where run: "drive ?K w DEFAULT_RING_SIZE 0 ?s = Some (q, st)"
      and ok: "healthy_ring K \<and> (w \<or> off + length buf \<le> flen f) \<longrightarrow> q = Inr ()" by metis
  have "only_current w R ?s = R" using assms(2) by (simp add: only_current_def current_ops_def start_state_def)
  with drive_current [OF assms(1) start [where f = f], where round = 0 and R = R and w = w] run
  have ops: "drive_ops K w DEFAULT_RING_SIZE 0 R ?s = Some (q, only_current w R st, st)" by simp
  show ?thesis
  proof (cases q)
    case (Inl e)
    with ok show ?thesis by (auto simp: transfer_at_def assms(3) ops)
  next
    case (Inr u)
    have exact: "(mem st, disk st) = (if w then (buf, image_write off buf f) else (image_read off (length buf) f, f)) \<and> in_flight st = []"
    proof (cases w)
      case True
      with drive_result [OF law start [where f = f], of 0 st] run Inr write_all_at_result [of ?K off buf f st] law assms(4)
      show ?thesis by (auto simp: write_all_at_def loop_inv_def framed_def)
    next
      case False
      with run Inr read_all_at_result [of ?K off buf f st] law assms(4) show ?thesis by (auto simp: read_all_at_def)
    qed
    moreover have "expected [c] f = (if w then ([buf], image_write off buf f) else ([image_read off (length buf) f], f))"
      using assms(3) by (cases c) auto
    ultimately show ?thesis
      using Inr by (auto simp: transfer_at_def assms(3) ops leave_def current_ops_def split: if_splits)
  qed
qed

text \<open>Every read is inside the file as the transfers before it leave it.\<close>

fun inside :: "transfer_call list \<Rightarrow> file_image \<Rightarrow> bool" where
  "inside [] f \<longleftrightarrow> True"
| "inside (WriteAt off data # cs) f \<longleftrightarrow> inside cs (image_write off data f)"
| "inside (ReadAt off buf # cs) f \<longleftrightarrow> off + length buf \<le> flen f \<and> inside cs f"

lemma expected_Cons: "expected (c # cs) f = (case expected [c] f of (bs, f') \<Rightarrow> apfst ((@) bs) (expected cs f'))"
  by (cases c) (simp_all add: apfst_def map_prod_def case_prod_beta)

lemma transfers_current:
  assumes "lawful_ring K" "ops R = []" "\<forall>c \<in> set cs. case call_range c of (w, off, buf) \<Rightarrow> off + length buf < 2 ^ 64"
  shows "\<exists>q R' f'. transfers_at K cs R f = Some (q, R', f')
    \<and> (healthy_ring K \<and> inside cs f \<longrightarrow> is_ok q)
    \<and> (\<forall>bs. q = Inr bs \<longrightarrow> (bs, f') = expected cs f \<and> ops R' = [] \<and> stray R' = stray R)"
  using assms(2,3)
proof (induction cs arbitrary: R f)
  case Nil
  then show ?case by simp
next
  case (Cons c cs)
  obtain w off buf where c: "call_range c = (w, off, buf)" by (cases "call_range c")
  with Cons.prems(2) have "off + length buf < 2 ^ 64" by simp
  from transfer_current [OF assms(1) Cons.prems(1) c this, of f] obtain q R1 f1
    where one: "transfer_at K c R f = Some (q, R1, f1)"
      "healthy_ring K \<and> (w \<or> off + length buf \<le> flen f) \<longrightarrow> is_ok q"
      "\<And>b. q = Inr b \<Longrightarrow> ([b], f1) = expected [c] f \<and> ops R1 = [] \<and> stray R1 = stray R" by blast
  have in1: "w \<or> off + length buf \<le> flen f" if "inside (c # cs) f" using that c by (cases c) auto
  show ?case
  proof (cases q)
    case (Inl e)
    with one(2) in1 show ?thesis by (auto simp: one(1))
  next
    case (Inr b)
    note ok = one(3) [OF Inr]
    from ok have "ops R1 = []" by blast
    from Cons.IH [OF this, of f1] Cons.prems(2) obtain q2 R2 f2
      where rest: "transfers_at K cs R1 f1 = Some (q2, R2, f2)"
        "healthy_ring K \<and> inside cs f1 \<longrightarrow> is_ok q2" "\<And>bs. q2 = Inr bs \<Longrightarrow> (bs, f2) = expected cs f1 \<and> ops R2 = [] \<and> stray R2 = stray R1" by auto
    have in2: "inside cs f1" if "inside (c # cs) f" using that ok by (cases c) auto
    have "expected (c # cs) f = apfst ((@) [b]) (expected cs f1)"
      using ok by (subst expected_Cons) (metis (no_types, lifting) case_prod_conv)
    moreover have "(b # bs, f2) = apfst ((@) [b]) (expected cs f1)" if "q2 = Inr bs" for bs
      using rest(3) [OF that] by (metis append_Cons append_Nil apfst_conv)
    ultimately show ?thesis
      using ok rest in2 by (cases q2) (auto simp: one(1) Inr)
  qed
qed

section \<open>After an error\<close>

definition fresh_ring :: uring where
  "fresh_ring = \<lparr>base_seq = 0, ops = [], stray = 0\<rparr>"

text \<open>A kernel that is interrupted in the first transfer and completes its entry in the next one.\<close>

definition late :: ring_kernel where
  "late = \<lparr>room = (\<lambda>round os st. DEFAULT_RING_SIZE),
     wait = (\<lambda>round os st. case filter (\<lambda>p. op_buf p \<noteq> None) os of
         [] \<Rightarrow> WaitError (OsError EINTR)
       | p # ps \<Rightarrow> Completions [(op_seq p, int (if op_write p then plen (op_piece p)
             else min (plen (op_piece p)) (flen (disk st) - file_off (op_piece p))))])\<rparr>"

lemma late_lawful: "lawful_ring late"
proof -
  have "p \<in> set os" if "filter (\<lambda>p. op_buf p \<noteq> None) os = p # ps" for os p ps
    using that by (metis filter_is_subset list.set_intros(1) subsetD)
  then show ?thesis
    by (fastforce simp: lawful_ring_def late_def split: list.splits)
qed

definition left_over :: "bool \<Rightarrow> nat \<Rightarrow> bytes \<Rightarrow> uring" where
  "left_over w off buf = \<lparr>base_seq = 1, ops = [\<lparr>op_seq = 0, op_user = 0, op_write = w,
     op_piece = \<lparr>file_off = off, buf_off = 0, plen = length buf\<rparr>, op_buf = Some buf\<rparr>], stray = 0\<rparr>"

lemma late_first:
  assumes "call_range c = (w, off, buf)" "buf \<noteq> []" "length buf \<le> DEFAULT_CHUNK_SIZE"
  shows "transfer_at late c fresh_ring f = Some (Inl (OsError EINTR), left_over w off buf, f)"
proof -
  have len: "0 < length buf" "length buf mod 4294967296 = length buf"
    using assms(2,3) by (simp_all add: DEFAULT_CHUNK_SIZE_def)
  then have "drive_ops late w DEFAULT_RING_SIZE 0 fresh_ring (start_state DEFAULT_CHUNK_SIZE off f buf)
    = Some (Inl (OsError EINTR), \<lparr>base_seq = 0, ops = [op_of_sqe 0 (make_sqe w 0 \<lparr>file_off = off, buf_off = 0, plen = length buf\<rparr>)], stray = 0\<rparr>,
        \<lparr>work = [], in_flight = [(0, \<lparr>file_off = off, buf_off = 0, plen = length buf\<rparr>)], next_id = 1,
          pushed = [make_sqe w 0 \<lparr>file_off = off, buf_off = 0, plen = length buf\<rparr>], disk = f, mem = buf\<rparr>)"
    using one_piece [OF len(1) assms(3), of off]
    by (subst drive_ops.simps) (simp add: start_state_def late_def fill_one fresh_ring_def submit_ops_def current_op_simps)
  with len show ?thesis
    by (simp add: transfer_at_def assms(1) leave_def left_over_def op_of_sqe_def make_sqe_def)
qed

lemma late_second:
  assumes "call_range c = (w, off, buf)" "buf \<noteq> []" "length buf \<le> DEFAULT_CHUNK_SIZE" "length old = length buf"
    and "w' \<or> off' + length old \<le> flen f"
  shows "\<exists>R. transfer_at late c (left_over w' off' old) f = Some (Inr buf, R, if w' then image_write off' old f else f)
    \<and> ops R \<noteq> [] \<and> stray R = (if w' then 0 else length old)"
proof -
  have len: "0 < length buf" "length buf mod 4294967296 = length buf"
    using assms(2,3) by (simp_all add: DEFAULT_CHUNK_SIZE_def)
  have amount: "min (length old) (flen f - off') = length old" if "\<not> w'" using assms(5) that by auto
  show ?thesis
    using one_piece [OF len(1) assms(3), of off] len amount
    by (simp add: transfer_at_def assms(1,4) leave_def left_over_def start_state_def late_def fill_one submit_ops_def
        drive_ops.simps op_of_sqe_def make_sqe_def finish_op_def move_op_def Let_def)
qed

section \<open>Properties\<close>

text \<open>C12. One handle, many transfers. On a ring with nothing left over and under every kernel that keeps its
  promises, a sequence of transfers returns; with a kernel that reports no error and reads inside the
  file it returns \<open>Ok\<close>; and when it does, the file holds what the writes one after the other make of it,
  every read buffer what the file held at that point, nothing is left in flight, and no byte was stored in memory
  given back. Identifiers that start from 0 in every transfer do no harm then.\<close>

theorem ring_reuse_exact:
  assumes "lawful_ring K" "ops R = []" "\<forall>c \<in> set cs. case call_range c of (w, off, buf) \<Rightarrow> off + length buf < 2 ^ 64"
  shows "\<exists>q R' f'. transfers_at K cs R f = Some (q, R', f')
    \<and> (healthy_ring K \<and> inside cs f \<longrightarrow> is_ok q)
    \<and> (\<forall>bs. q = Inr bs \<longrightarrow> (bs, f') = expected cs f \<and> ops R' = [] \<and> stray R' = stray R)"
  by (rule transfers_current [OF assms])

text \<open>A kernel that completes the oldest entry in full.\<close>

definition prompt :: ring_kernel where
  "prompt = \<lparr>room = (\<lambda>round os st. DEFAULT_RING_SIZE),
     wait = (\<lambda>round os st. case os of [] \<Rightarrow> Completions []
       | p # ps \<Rightarrow> Completions [(op_seq p, int (if op_write p then plen (op_piece p)
             else min (plen (op_piece p)) (flen (disk st) - file_off (op_piece p))))])\<rparr>"

lemma prompt_lawful: "lawful_ring prompt"
  by (auto simp: lawful_ring_def prompt_def split: list.splits)

lemma prompt_healthy: "healthy_ring prompt"
  unfolding healthy_ring_def
proof (intro allI)
  fix round os st
  show "\<exists>cs. wait prompt round os st = Completions cs \<and> (\<forall>(q, r) \<in> set cs. \<exists>p \<in> set os. op_seq p = q \<and> (0 < plen (op_piece p)
          \<and> (op_write p \<or> file_off (op_piece p) < flen (disk st)) \<longrightarrow> 0 < r))"
    by (cases os) (auto simp: prompt_def)
qed

theorem ring_reuse_exact_witness:
  "\<exists>R f'. transfers_at prompt [WriteAt 0 [1, 2, 3], WriteAt 2 [9], ReadAt 1 [0, 0]] fresh_ring (image_of [])
    = Some (Inr [[1, 2, 3], [9], [2, 9]], R, f') \<and> stray R = 0"
proof -
  let ?cs = "[WriteAt 0 [1, 2, 3], WriteAt 2 [9], ReadAt 1 [0, 0]]"
  have "fst (expected ?cs (image_of [])) = [[1, 2, 3], [9], [2, 9]]" "inside ?cs (image_of [])"
    by code_simp+
  moreover obtain q R f' where "transfers_at prompt ?cs fresh_ring (image_of []) = Some (q, R, f')"
      "healthy_ring prompt \<and> inside ?cs (image_of []) \<longrightarrow> is_ok q"
      "\<And>bs. q = Inr bs \<Longrightarrow> (bs, f') = expected ?cs (image_of []) \<and> stray R = 0"
    using ring_reuse_exact [OF prompt_lawful, of fresh_ring ?cs "image_of []"] by (auto simp: fresh_ring_def)
  ultimately show ?thesis
    using prompt_healthy by (cases q) (auto dest: arg_cong [where f = fst])
qed

text \<open>C13. A handle after an error. The entries of a transfer that failed stay with the ring, and their
  identifiers are given out again: with a kernel that keeps its promises, a write interrupted by a
  signal and then retried with other data of the same length returns \<open>Ok\<close> while the file holds the data
  of the first attempt only; and a read after an interrupted read returns \<open>Ok\<close> with nothing in its
  buffer, while the kernel stores the bytes of the first read into memory its caller has back.\<close>

theorem ring_reuse_after_error:
  assumes "data \<noteq> []" "length data \<le> DEFAULT_CHUNK_SIZE" "length old = length data" "off' + length old \<le> flen f"
  shows "lawful_ring late
    \<and> (\<exists>R R'. transfer_at late (WriteAt off' old) fresh_ring f = Some (Inl (OsError EINTR), R, f)
        \<and> transfer_at late (WriteAt off data) R f = Some (Inr data, R', image_write off' old f) \<and> ops R' \<noteq> [])
    \<and> (\<exists>R R'. transfer_at late (ReadAt off' old) fresh_ring f = Some (Inl (OsError EINTR), R, f)
        \<and> transfer_at late (ReadAt off data) R f = Some (Inr data, R', f) \<and> stray R' = length old)"
proof -
  have old: "old \<noteq> []" "length old \<le> DEFAULT_CHUNK_SIZE" using assms(1-3) by auto
  have first: "transfer_at late c fresh_ring f = Some (Inl (OsError EINTR), left_over w off' old, f)"
    if "call_range c = (w, off', old)" for c w by (rule late_first [OF that old])
  have second: "\<exists>R. transfer_at late c (left_over w off' old) f = Some (Inr data, R, if w then image_write off' old f else f)
      \<and> ops R \<noteq> [] \<and> stray R = (if w then 0 else length old)" if "call_range c = (w', off, data)" for c w w'
    by (rule late_second [OF that assms(1-3)]) (use assms(4) in simp)
  obtain R where w: "transfer_at late (WriteAt off data) (left_over True off' old) f = Some (Inr data, R, image_write off' old f)" "ops R \<noteq> []"
    using second [of "WriteAt off data" True True] by auto
  obtain R' where r: "transfer_at late (ReadAt off data) (left_over False off' old) f = Some (Inr data, R', f)" "stray R' = length old"
    using second [of "ReadAt off data" False False] by auto
  show ?thesis
    using late_lawful first [of "WriteAt off' old" True] first [of "ReadAt off' old" False] w r by fastforce
qed

theorem ring_reuse_after_error_witness:
  "\<exists>R R'. transfer_at late (WriteAt 0 [1, 2]) fresh_ring (image_of [0, 0, 0]) = Some (Inl (OsError EINTR), R, image_of [0, 0, 0])
    \<and> transfer_at late (WriteAt 0 [3, 4]) R (image_of [0, 0, 0]) = Some (Inr [3, 4], R', image_write 0 [1, 2] (image_of [0, 0, 0]))"
  using ring_reuse_after_error [of "[3, 4]" "[1, 2]" 0 "image_of [0, 0, 0]" 0]
  by (simp add: DEFAULT_CHUNK_SIZE_def image_of_def) blast

section \<open>A full queue\<close>

lemma cut_pieces_many: "k * DEFAULT_CHUNK_SIZE \<le> n \<Longrightarrow> k \<le> length (cut_pieces DEFAULT_CHUNK_SIZE off b n)"
proof (induction k arbitrary: off b n)
  case (Suc k)
  then have "k * DEFAULT_CHUNK_SIZE \<le> n - min DEFAULT_CHUNK_SIZE n" "n \<noteq> 0" by (auto simp: DEFAULT_CHUNK_SIZE_def)
  with Suc.IH [OF this(1)] show ?case by (subst cut_pieces.simps) (simp add: DEFAULT_CHUNK_SIZE_def)
qed simp

lemma fill_many:
  assumes "length (in_flight st) + n \<le> ring" "n \<le> m" "n \<le> length (work st)"
    and "\<forall>i \<in> fst ` set (in_flight st). i < next_id st"
  shows "length (in_flight st) + n \<le> length (in_flight (fill w ring m st))"
  using assms
proof (induction n arbitrary: st m)
  case 0
  then show ?case using fill_new [of st w ring m] by auto
next
  case (Suc n)
  then obtain p ps m' where work: "work st = p # ps" "m = Suc m'" by (cases "work st"; cases m) auto
  let ?st = "st\<lparr>work := ps, in_flight := AList.update (next_id st) p (in_flight st), next_id := next_id st + 1,
    pushed := pushed st @ [make_sqe w (next_id st) p]\<rparr>"
  have "next_id st \<notin> fst ` set (in_flight st)" using Suc.prems by blast
  then have upd: "in_flight ?st = in_flight st @ [(next_id st, p)]" by (simp add: update_fresh)
  have "fill w ring m st = fill w ring m' ?st" using Suc.prems(1) work by (subst fill.simps) simp
  with Suc.IH [of ?st m'] Suc.prems upd work show ?case by fastforce
qed

text \<open>A kernel whose waits fail, so that nothing leaves the queue: its places are those the entries leave.\<close>

definition jammed :: ring_kernel where
  "jammed = \<lparr>room = (\<lambda>round os st. DEFAULT_RING_SIZE - length os), wait = (\<lambda>round os st. WaitError (OsError EBUSY))\<rparr>"

lemma jammed_lawful: "lawful_ring jammed"
  by (simp add: lawful_ring_def jammed_def)

lemma jammed_first:
  assumes "DEFAULT_RING_SIZE * DEFAULT_CHUNK_SIZE \<le> length big" "off + length big < 2 ^ 64"
  shows "\<exists>R. transfer_at jammed (WriteAt off big) fresh_ring f = Some (Inl (OsError EBUSY), R, f)
    \<and> DEFAULT_RING_SIZE \<le> length (ops R)"
proof -
  let ?s = "start_state DEFAULT_CHUNK_SIZE off f big"
  let ?s1 = "fill True DEFAULT_RING_SIZE DEFAULT_RING_SIZE ?s"
  have s: "in_flight ?s = []" "pushed ?s = []" "work ?s = cut_pieces DEFAULT_CHUNK_SIZE off 0 (length big)" "disk ?s = f"
    by (simp_all add: start_state_def)
  obtain new where new: "in_flight ?s1 = new" "pushed ?s1 = map (\<lambda>(i, p). make_sqe True i p) new"
    using fill_new [of ?s True DEFAULT_RING_SIZE DEFAULT_RING_SIZE] s by auto
  have "DEFAULT_RING_SIZE \<le> length new"
    using fill_many [of ?s DEFAULT_RING_SIZE DEFAULT_RING_SIZE DEFAULT_RING_SIZE True] cut_pieces_many [OF assms(1)] s new(1)
    by simp
  moreover have "disk ?s1 = f"
    using fill_keeps [OF start_inv(1) [OF assms(2)]] s(4) by simp
  moreover from calculation(1) have "new \<noteq> []" by (auto simp: DEFAULT_RING_SIZE_def)
  moreover from this new(1) have "drive_ops jammed True DEFAULT_RING_SIZE 0 fresh_ring ?s =
      Some (Inl (OsError EBUSY), submit_ops ?s ?s1 fresh_ring, ?s1)"
    by (subst drive_ops.simps) (simp add: jammed_def fresh_ring_def Let_def)
  ultimately show ?thesis by (simp add: transfer_at_def leave_def submit_ops_def s(2) new(2))
qed

lemma jammed_later:
  assumes "DEFAULT_RING_SIZE \<le> length (ops R)" "call_range c = (w, off, buf)"
  shows "\<exists>R'. transfer_at jammed c R f = Some (Inr buf, R', f)"
proof -
  let ?s = "start_state DEFAULT_CHUNK_SIZE off f buf"
  have none: "room jammed 0 (ops R) ?s = 0" using assms(1) by (simp add: jammed_def)
  have "fill w DEFAULT_RING_SIZE 0 ?s = ?s"
    by (subst fill.simps) (simp add: start_state_def split: list.splits)
  then have "drive_ops jammed w DEFAULT_RING_SIZE 0 R ?s = Some (Inr (), submit_ops ?s ?s R, ?s)"
    by (subst drive_ops.simps) (simp add: none Let_def, simp add: start_state_def)
  then show ?thesis by (simp add: transfer_at_def assms(2)) (simp add: start_state_def)
qed



end
