(* ===== verification/Memory_Concurrent.thy ===== *)
theory Memory_Concurrent
  imports Memory_Store
begin

text \<open>
  One \<open>MemoryStore\<close> shared by any number of tasks (\<open>Arc<MemoryStore>\<close>, \<open>src/src/memory.rs\<close>). The
  table is cut into shards, each behind a lock of its own; which shard a key belongs to and how many there
  are is a parameter. \<open>put\<close>, \<open>get\<close>, \<open>delete\<close>, \<open>exists\<close> and \<open>metadata\<close> touch the table once, under the
  lock of one shard. \<open>list\<close>, \<open>list_keys\<close>, \<open>len\<close>, \<open>is_empty\<close> and \<open>clear\<close> go from shard to shard, and other tasks
  may run in between. A schedule is the list of the tasks in the order in which they take their steps.
\<close>

section \<open>Tasks\<close>

datatype mem_reply =
    Reply store_reply | MetadataIs "blob_metadata option" | KeysAre "object_key list"
  | LenIs nat | EmptyIs bool | Cleared

text \<open>
  A call about to be made, a sweep over the shards with the number of the next one and what it has
  gathered, or the answer.
\<close>

datatype mem_task =
    Call call_env store_call
  | Metadata object_key
  | Listing string nat "object_key list"
  | ListingKeys nat "object_key list"
  | Counting nat nat
  | AskingEmpty nat nat
  | Clearing nat
  | Done mem_reply

text \<open>What the iterator yields of a shard, and emptying a shard.\<close>

definition shard_keys :: "'m key_map_ops \<Rightarrow> (object_key \<Rightarrow> nat) \<Rightarrow> nat \<Rightarrow> 'm \<Rightarrow> object_key list" where
  "shard_keys M sh g m = filter (\<lambda>k. sh k = g) (map fst (hm_iter M m))"

definition shard_clear :: "'m key_map_ops \<Rightarrow> (object_key \<Rightarrow> nat) \<Rightarrow> nat \<Rightarrow> 'm \<Rightarrow> 'm" where
  "shard_clear M sh g m = fold (\<lambda>k m. snd (hm_remove M k m)) (shard_keys M sh g m) m"

fun mem_step :: "'m key_map_ops \<Rightarrow> (object_key \<Rightarrow> nat) \<Rightarrow> nat \<Rightarrow> mem_task \<Rightarrow> 'm memory_store
    \<Rightarrow> mem_task \<times> 'm memory_store" where
  "mem_step M sh n (Call e (CallList pre)) st = (Listing pre 0 [], st)"
| "mem_step M sh n (Call e c) st = (let (r, st') = do_call (memory_ops M) e c st in (Done (Reply r), st'))"
| "mem_step M sh n (Metadata key) st = (Done (MetadataIs (memory_metadata M key st)), st)"
| "mem_step M sh n (Listing pre g keys) st =
     (if g < n then
        (Listing pre (Suc g) (keys @ filter (\<lambda>k. starts_with (as_str k) pre) (shard_keys M sh g (inner st))), st)
      else (Done (Reply (ReplyKeys (Inr (sort keys)))), st))"
| "mem_step M sh n (ListingKeys g keys) st =
     (if g < n then (ListingKeys (Suc g) (keys @ shard_keys M sh g (inner st)), st)
      else (Done (KeysAre keys), st))"
| "mem_step M sh n (Counting g c) st =
     (if g < n then (Counting (Suc g) (c + length (shard_keys M sh g (inner st))), st)
      else (Done (LenIs c), st))"
| "mem_step M sh n (AskingEmpty g c) st =
     (if g < n then (AskingEmpty (Suc g) (c + length (shard_keys M sh g (inner st))), st)
      else (Done (EmptyIs (c = 0)), st))"
| "mem_step M sh n (Clearing g) st =
     (if g < n then (Clearing (Suc g), st\<lparr>inner := shard_clear M sh g (inner st)\<rparr>) else (Done Cleared, st))"
| "mem_step M sh n (Done r) st = (Done r, st)"

text \<open>A run of the tasks \<open>ts\<close> under a schedule, and the stores it goes through, the first and the last included.\<close>

fun mem_run :: "'m key_map_ops \<Rightarrow> (object_key \<Rightarrow> nat) \<Rightarrow> nat \<Rightarrow> nat list \<Rightarrow> (nat \<Rightarrow> mem_task) \<times> 'm memory_store
    \<Rightarrow> (nat \<Rightarrow> mem_task) \<times> 'm memory_store" where
  "mem_run M sh n [] (ts, st) = (ts, st)"
| "mem_run M sh n (i # is) (ts, st) =
     (let (t, st') = mem_step M sh n (ts i) st in mem_run M sh n is (ts(i := t), st'))"

fun mem_moments :: "'m key_map_ops \<Rightarrow> (object_key \<Rightarrow> nat) \<Rightarrow> nat \<Rightarrow> nat list \<Rightarrow> (nat \<Rightarrow> mem_task) \<times> 'm memory_store
    \<Rightarrow> 'm memory_store list" where
  "mem_moments M sh n [] (ts, st) = [st]"
| "mem_moments M sh n (i # is) (ts, st) =
     (let (t, st') = mem_step M sh n (ts i) st in st # mem_moments M sh n is (ts(i := t), st'))"

text \<open>What happens to the table in a run, in order: calls taking effect, with their answer, and shards being emptied.\<close>

datatype mem_event = Took nat call_env store_call store_reply | Swept nat nat

fun mem_events :: "'m key_map_ops \<Rightarrow> nat \<Rightarrow> nat \<Rightarrow> mem_task \<Rightarrow> 'm memory_store \<Rightarrow> mem_event list" where
  "mem_events M n i (Call e (CallList pre)) st = []"
| "mem_events M n i (Call e c) st = [Took i e c (fst (do_call (memory_ops M) e c st))]"
| "mem_events M n i (Clearing g) st = (if g < n then [Swept i g] else [])"
| "mem_events M n i t st = []"

fun mem_history :: "'m key_map_ops \<Rightarrow> (object_key \<Rightarrow> nat) \<Rightarrow> nat \<Rightarrow> nat list \<Rightarrow> (nat \<Rightarrow> mem_task) \<times> 'm memory_store
    \<Rightarrow> mem_event list" where
  "mem_history M sh n [] (ts, st) = []"
| "mem_history M sh n (i # is) (ts, st) =
     mem_events M n i (ts i) st
     @ (let (t, st') = mem_step M sh n (ts i) st in mem_history M sh n is (ts(i := t), st'))"

fun event_task :: "mem_event \<Rightarrow> nat" where
  "event_task (Took i e c r) = i"
| "event_task (Swept i g) = i"

text \<open>
  The specification: one map from keys to payloads, to which the calls of a history are put one by one;
  emptying a shard forgets its keys.
\<close>

fun replays :: "(object_key \<Rightarrow> nat) \<Rightarrow> mem_event list \<Rightarrow> (object_key \<rightharpoonup> bytes) \<Rightarrow> (object_key \<rightharpoonup> bytes) \<Rightarrow> bool" where
  "replays sh [] m m' \<longleftrightarrow> m = m'"
| "replays sh (Took i e c r # evs) m m' \<longleftrightarrow>
     (let (q, m1) = do_call memory_spec e c m in q = r \<and> replays sh evs m1 m')"
| "replays sh (Swept i g # evs) m m' \<longleftrightarrow> replays sh evs (m |` {k. sh k \<noteq> g}) m'"

fun is_list :: "store_call \<Rightarrow> bool" where
  "is_list (CallList pre) = True"
| "is_list c = False"

lemma mem_step_call: "\<not> is_list c \<Longrightarrow>
    mem_step M sh n (Call e c) st = (Done (Reply (fst (do_call (memory_ops M) e c st))), snd (do_call (memory_ops M) e c st))"
  by (cases c) (auto simp: Let_def case_prod_beta)

lemma mem_events_call: "mem_events M n i (Call e c) st =
    (if is_list c then [] else [Took i e c (fst (do_call (memory_ops M) e c st))])"
  by (cases c) auto

lemma mem_run_append: "mem_run M sh n (xs @ ys) c = mem_run M sh n ys (mem_run M sh n xs c)"
  by (induction xs arbitrary: c) (auto simp: Let_def case_prod_beta split_paired_all)

lemma mem_moments_ends: "st \<in> set (mem_moments M sh n is (ts, st))"
  "snd (mem_run M sh n is (ts, st)) \<in> set (mem_moments M sh n is (ts, st))"
  by (cases "is"; simp add: Let_def case_prod_beta)
    (induction "is" arbitrary: ts st; simp add: Let_def case_prod_beta)

section \<open>Every call takes effect at one moment\<close>

lemma replays_append: "replays sh xs m m1 \<Longrightarrow> replays sh ys m1 m2 \<Longrightarrow> replays sh (xs @ ys) m m2"
proof (induction xs arbitrary: m)
  case (Cons v xs)
  then show ?case by (cases v) (simp_all add: case_prod_beta)
qed simp

lemma spec_put_only:
  "do_call memory_spec e c m = (r, m') \<Longrightarrow> m' k = m k \<or> m' k = None \<or> (\<exists>d. c = CallPut k d \<and> m' k = Some d)"
  by (cases c) (auto simp: spec_defs split: if_splits)

text \<open>What a get answers was there at first or is the payload of a put, whole.\<close>

lemma replays_written:
  assumes "replays sh evs m m'" "Took j e (CallGet k) (ReplyBytes (Inr d)) \<in> set evs"
  shows "m k = Some d \<or> (\<exists>i e r. Took i e (CallPut k d) r \<in> set evs)"
  using assms
proof (induction evs arbitrary: m)
  case (Cons v evs)
  show ?case
  proof (cases v)
    case (Took i e' c r)
    obtain q m1 where call: "do_call memory_spec e' c m = (q, m1)" by (cases "do_call memory_spec e' c m")
    with Cons.prems(1) Took have rest: "q = r" "replays sh evs m1 m'" by simp_all
    show ?thesis
    proof (cases "Took j e (CallGet k) (ReplyBytes (Inr d)) \<in> set evs")
      case True
      from Cons.IH [OF rest(2) this] show ?thesis
      proof
        assume "m1 k = Some d"
        with spec_put_only [OF call, of k] have "m k = Some d \<or> v = Took i e' (CallPut k d) r" by (auto simp: Took)
        then show ?thesis by (metis list.set_intros(1))
      qed (metis list.set_intros(2))
    next
      case False
      with Cons.prems(2) Took have "e' = e" "c = CallGet k" "r = ReplyBytes (Inr d)" by auto
      with call rest(1) show ?thesis by (auto simp: spec_defs split: option.splits)
    qed
  next
    case (Swept i g)
    with Cons.prems have "replays sh evs (m |` {k. sh k \<noteq> g}) m'"
      "Took j e (CallGet k) (ReplyBytes (Inr d)) \<in> set evs" by simp_all
    from Cons.IH [OF this] show ?thesis by (auto simp: Swept restrict_map_def split: if_splits)
  qed
qed simp

lemma replays_absent:
  assumes "replays sh evs m m'" "m k = None" "\<And>i e d r. Took i e (CallPut k d) r \<notin> set evs"
  shows "m' k = None"
  using assms
proof (induction evs arbitrary: m)
  case (Cons v evs)
  have rest: "Took i e (CallPut k d) r \<notin> set evs" for i e d r using Cons.prems(3) [of i e d r] by simp
  show ?case
  proof (cases v)
    case (Took i e c r)
    obtain q m1 where call: "do_call memory_spec e c m = (q, m1)" by (cases "do_call memory_spec e c m")
    have "c \<noteq> CallPut k d" for d using Cons.prems(3) [of i e d r] by (auto simp: Took)
    with spec_put_only [OF call, of k] Cons.prems(2) have "m1 k = None" by auto
    moreover have "replays sh evs m1 m'" using Cons.prems(1) call by (simp add: Took)
    ultimately show ?thesis using Cons.IH rest by blast
  next
    case (Swept i g)
    with Cons.prems(1,2) have "replays sh evs (m |` {k. sh k \<noteq> g}) m'" "(m |` {k. sh k \<noteq> g}) k = None"
      by (simp_all add: restrict_map_def)
    then show ?thesis using Cons.IH rest by blast
  qed
qed simp

context key_map
begin

lemma shard_keys_in: "k \<in> set (shard_keys M sh g m) \<longleftrightarrow> sh k = g \<and> hm_get M k m \<noteq> None"
  using iter_keys [of k m] by (auto simp: shard_keys_def)

lemma shard_keys_distinct: "distinct (shard_keys M sh g m)"
  using iter_distinct by (simp add: shard_keys_def)

lemma get_fold_remove: "hm_get M k (fold (\<lambda>k m. snd (hm_remove M k m)) ks m) = (if k \<in> set ks then None else hm_get M k m)"
  by (induction ks arbitrary: m) auto

lemma view_shard_clear:
  "memory_view M (st\<lparr>inner := shard_clear M sh g (inner st)\<rparr>) = memory_view M st |` {k. sh k \<noteq> g}"
  by (auto simp: memory_view_def shard_clear_def get_fold_remove shard_keys_in restrict_map_def fun_eq_iff)

lemma view_step:
  "replays sh (mem_events M n i t st) (memory_view M st) (memory_view M (snd (mem_step M sh n t st)))"
proof (cases t)
  case (Call e c)
  show ?thesis
  proof (cases "is_list c")
    case True
    then show ?thesis by (cases c) (simp_all add: Call)
  next
    case False
    from call_simulation [OF surjective_pairing, of e c st] False show ?thesis
      by (simp add: Call mem_events_call mem_step_call)
  qed
qed (simp_all add: view_shard_clear)

lemma history_replays:
  "replays sh (mem_history M sh n is (ts, st)) (memory_view M st) (memory_view M (snd (mem_run M sh n is (ts, st))))"
  by (induction "is" arbitrary: ts st)
    (simp_all add: Let_def case_prod_beta replays_append [OF view_step])

end

text \<open>A task that has answered does nothing more, and a call takes effect once, with the answer it returns.\<close>

lemma done_stays:
  assumes "ts i = Done r"
  shows "fst (mem_run M sh n is (ts, st)) i = Done r
    \<and> filter (\<lambda>v. event_task v = i) (mem_history M sh n is (ts, st)) = []"
  using assms
proof (induction "is" arbitrary: ts st)
  case (Cons j js)
  have "filter (\<lambda>v. event_task v = i) (mem_events M n j (ts j) st) = []"
    using Cons.prems by (cases "(M, n, j, ts j, st)" rule: mem_events.cases) auto
  moreover have "(ts(j := fst (mem_step M sh n (ts j) st))) i = Done r" using Cons.prems by auto
  ultimately show ?case using Cons.IH by (simp add: Let_def case_prod_beta)
qed simp

lemma other_events: "j \<noteq> i \<Longrightarrow> filter (\<lambda>v. event_task v = i) (mem_events M n j t st) = []"
  by (cases "(M, n, j, t, st)" rule: mem_events.cases) auto

lemma call_once:
  assumes "ts i = Call e c" "\<not> is_list c"
  shows "if i \<in> set is
    then \<exists>r. fst (mem_run M sh n is (ts, st)) i = Done (Reply r)
      \<and> filter (\<lambda>v. event_task v = i) (mem_history M sh n is (ts, st)) = [Took i e c r]
    else fst (mem_run M sh n is (ts, st)) i = Call e c
      \<and> filter (\<lambda>v. event_task v = i) (mem_history M sh n is (ts, st)) = []"
  using assms(1)
proof (induction "is" arbitrary: ts st)
  case (Cons j js)
  show ?case
  proof (cases "j = i")
    case True
    let ?r = "fst (do_call (memory_ops M) e c st)"
    show ?thesis
      using done_stays [where ts = "ts(i := Done (Reply ?r))" and i = i and r = "Reply ?r" and M = M] Cons.prems assms(2) True
      by (auto simp: mem_step_call mem_events_call)
  next
    case False
    with Cons.prems Cons.IH show ?thesis
      by (cases "i \<in> set js") (auto simp: Let_def case_prod_beta other_events)
  qed
qed simp

section \<open>Sweeps over the shards\<close>

text \<open>
  What a sweep has gathered from the first \<open>g\<close> shards, between the keys \<open>E\<close> stored at some moment and
  the keys \<open>A\<close> stored at every moment.
\<close>

definition scan_ok :: "(object_key \<Rightarrow> nat) \<Rightarrow> string \<Rightarrow> object_key set \<Rightarrow> object_key set \<Rightarrow> nat \<Rightarrow> object_key list \<Rightarrow> bool" where
  "scan_ok sh pre E A g out \<longleftrightarrow> distinct out
     \<and> (\<forall>k \<in> set out. sh k < g \<and> starts_with (as_str k) pre \<and> k \<in> E)
     \<and> (\<forall>k \<in> A. sh k < g \<and> starts_with (as_str k) pre \<longrightarrow> k \<in> set out)"

fun sweep_ok :: "(object_key \<Rightarrow> nat) \<Rightarrow> nat \<Rightarrow> string \<Rightarrow> object_key set \<Rightarrow> object_key set \<Rightarrow> mem_task \<Rightarrow> bool" where
  "sweep_ok sh n pre E A (Listing p g out) \<longleftrightarrow> p = pre \<and> g \<le> n \<and> scan_ok sh pre E A g out"
| "sweep_ok sh n pre E A (ListingKeys g out) \<longleftrightarrow> pre = [] \<and> g \<le> n \<and> scan_ok sh pre E A g out"
| "sweep_ok sh n pre E A (Counting g c) \<longleftrightarrow> pre = [] \<and> g \<le> n \<and> (\<exists>out. length out = c \<and> scan_ok sh pre E A g out)"
| "sweep_ok sh n pre E A (AskingEmpty g c) \<longleftrightarrow> pre = [] \<and> g \<le> n \<and> (\<exists>out. length out = c \<and> scan_ok sh pre E A g out)"
| "sweep_ok sh n pre E A (Done (Reply (ReplyKeys (Inr ks)))) \<longleftrightarrow> sorted ks \<and> scan_ok sh pre E A n ks"
| "sweep_ok sh n pre E A (Done (KeysAre ks)) \<longleftrightarrow> scan_ok sh pre E A n ks"
| "sweep_ok sh n pre E A (Done (LenIs c)) \<longleftrightarrow> (\<exists>out. length out = c \<and> scan_ok sh pre E A n out)"
| "sweep_ok sh n pre E A (Done (EmptyIs b)) \<longleftrightarrow> (\<exists>out. b = (out = []) \<and> scan_ok sh pre E A n out)"
| "sweep_ok sh n pre E A t \<longleftrightarrow> False"

lemma scan_sort [simp]: "scan_ok sh pre E A g (sort out) \<longleftrightarrow> scan_ok sh pre E A g out"
  by (simp add: scan_ok_def)

fun clear_ok :: "(object_key \<Rightarrow> nat) \<Rightarrow> object_key \<Rightarrow> object_key set \<Rightarrow> mem_task \<Rightarrow> bool" where
  "clear_ok sh k S (Clearing g) \<longleftrightarrow> (sh k < g \<longrightarrow> k \<notin> S)"
| "clear_ok sh k S (Done r) \<longleftrightarrow> r = Cleared \<and> k \<notin> S"
| "clear_ok sh k S t \<longleftrightarrow> False"

lemma clear_ok_absent: "clear_ok sh k S t \<Longrightarrow> (k \<in> S \<or> k \<notin> S') \<Longrightarrow> clear_ok sh k S' t"
  by (cases t) auto

text \<open>Each sweep has its own kind of answer.\<close>

fun sweep_kind :: "mem_task \<Rightarrow> nat" where
  "sweep_kind (Listing pre g keys) = 1"
| "sweep_kind (Done (Reply (ReplyKeys (Inr ks)))) = 1"
| "sweep_kind (ListingKeys g keys) = 2"
| "sweep_kind (Done (KeysAre ks)) = 2"
| "sweep_kind (Counting g c) = 3"
| "sweep_kind (Done (LenIs c)) = 3"
| "sweep_kind (AskingEmpty g c) = 4"
| "sweep_kind (Done (EmptyIs b)) = 4"
| "sweep_kind t = 0"

lemma sweep_kind_step: "sweep_kind t \<noteq> 0 \<Longrightarrow> sweep_kind (fst (mem_step M sh n t st)) = sweep_kind t"
  by (cases t) auto

lemma sweep_kind_run:
  "sweep_kind (ts i) \<noteq> 0 \<Longrightarrow> sweep_kind (fst (mem_run M sh n is (ts, st)) i) = sweep_kind (ts i)"
proof (induction "is" arbitrary: ts st)
  case (Cons j js)
  obtain t st' where step: "mem_step M sh n (ts j) st = (t, st')" by (cases "mem_step M sh n (ts j) st")
  have "sweep_kind ((ts(j := t)) i) = sweep_kind (ts i)"
    using sweep_kind_step [of "ts j" M sh n st] step Cons.prems by auto
  with Cons show ?case by (simp add: step)
qed simp

definition stored :: "'m key_map_ops \<Rightarrow> 'm memory_store \<Rightarrow> object_key set" where
  "stored M st = {k. memory_view M st k \<noteq> None}"

context key_map
begin

lemma stored_finite [simp]: "finite (stored M st)"
  using finite_keys by (simp add: stored_def memory_view_def)

lemma shard_keys_stored: "set (shard_keys M sh g (inner st)) = {k \<in> stored M st. sh k = g}"
  by (auto simp: shard_keys_in stored_def memory_view_def)

lemma scan_more:
  assumes "scan_ok sh pre E A g out" "stored M st \<subseteq> E" "A \<subseteq> stored M st"
  shows "scan_ok sh pre E A (Suc g) (out @ filter (\<lambda>k. starts_with (as_str k) pre) (shard_keys M sh g (inner st)))"
proof -
  let ?new = "filter (\<lambda>k. starts_with (as_str k) pre) (shard_keys M sh g (inner st))"
  have new: "set ?new = {k \<in> stored M st. sh k = g \<and> starts_with (as_str k) pre}"
    using shard_keys_stored [of sh g st] by auto
  have "distinct (out @ ?new)"
    using assms(1) new by (auto simp: scan_ok_def shard_keys_distinct simp del: set_filter)
  moreover have "\<forall>k \<in> set (out @ ?new). sh k < Suc g \<and> starts_with (as_str k) pre \<and> k \<in> E"
    using assms(1,2) new by (auto simp: scan_ok_def simp del: set_filter)
  moreover have "\<forall>k \<in> A. sh k < Suc g \<and> starts_with (as_str k) pre \<longrightarrow> k \<in> set (out @ ?new)"
  proof (intro ballI impI)
    fix k assume k: "k \<in> A" "sh k < Suc g \<and> starts_with (as_str k) pre"
    show "k \<in> set (out @ ?new)"
    proof (cases "sh k = g")
      case True
      with k new assms(3) show ?thesis by (auto simp del: set_filter)
    next
      case False
      have "sh k < g" using k(2) False by simp
      then have "k \<in> set out" using k assms(1) by (simp add: scan_ok_def)
      then show ?thesis by simp
    qed
  qed
  ultimately show ?thesis unfolding scan_ok_def by blast
qed

lemma scan_all:
  "scan_ok sh [] E A g out \<Longrightarrow> stored M st \<subseteq> E \<Longrightarrow> A \<subseteq> stored M st \<Longrightarrow>
    scan_ok sh [] E A (Suc g) (out @ shard_keys M sh g (inner st))"
  using scan_more [of sh "[]" E A g out st] by simp

lemma scan_count:
  "length out = c \<and> scan_ok sh [] E A g out \<Longrightarrow> stored M st \<subseteq> E \<Longrightarrow> A \<subseteq> stored M st \<Longrightarrow>
    \<exists>out. length out = c + length (shard_keys M sh g (inner st)) \<and> scan_ok sh [] E A (Suc g) out"
  using scan_all [of sh E A g out st] by (metis length_append)

lemma sweep_step:
  assumes "sweep_ok sh n pre E A t" "stored M st \<subseteq> E" "A \<subseteq> stored M st"
  shows "sweep_ok sh n pre E A (fst (mem_step M sh n t st))"
proof (cases t)
  case (Listing p g out)
  with assms(1) have "p = pre" "g \<le> n" "scan_ok sh pre E A g out" by simp_all
  with scan_more [OF this(3) assms(2,3)] Listing show ?thesis by (auto simp: le_less)
next
  case (ListingKeys g out)
  with assms(1) have "pre = []" "g \<le> n" "scan_ok sh [] E A g out" by auto
  with scan_all [OF this(3) assms(2,3)] ListingKeys show ?thesis by (auto simp: le_less)
next
  case (Counting g c)
  with assms(1) obtain out where out: "length out = c \<and> scan_ok sh [] E A g out" and g: "pre = []" "g \<le> n" by auto
  show ?thesis
  proof (cases "g < n")
    case True
    with scan_count [OF out assms(2,3)] g Counting show ?thesis by simp
  next
    case False
    with out g Counting show ?thesis by auto
  qed
next
  case (AskingEmpty g c)
  with assms(1) obtain out where out: "length out = c \<and> scan_ok sh [] E A g out" and g: "pre = []" "g \<le> n" by auto
  show ?thesis
  proof (cases "g < n")
    case True
    with scan_count [OF out assms(2,3)] g AskingEmpty show ?thesis by simp
  next
    case False
    with out g AskingEmpty show ?thesis by auto
  qed
qed (use assms(1) in simp_all)

lemma sweep_run:
  assumes "sweep_ok sh n pre E A (ts i)"
    and "\<And>s. s \<in> set (mem_moments M sh n is (ts, st)) \<Longrightarrow> stored M s \<subseteq> E \<and> A \<subseteq> stored M s"
  shows "sweep_ok sh n pre E A (fst (mem_run M sh n is (ts, st)) i)"
  using assms
proof (induction "is" arbitrary: ts st)
  case (Cons j js)
  obtain t st' where step: "mem_step M sh n (ts j) st = (t, st')" by (cases "mem_step M sh n (ts j) st")
  define ts' where "ts' = ts(j := t)"
  have now: "stored M st \<subseteq> E" "A \<subseteq> stored M st" using Cons.prems(2) [of st] by (simp_all add: step)
  have "sweep_ok sh n pre E A (ts' i)"
    using sweep_step [OF Cons.prems(1) now] Cons.prems(1) step by (cases "j = i") (simp_all add: ts'_def)
  moreover have "s \<in> set (mem_moments M sh n js (ts', st')) \<Longrightarrow> stored M s \<subseteq> E \<and> A \<subseteq> stored M s" for s
    using Cons.prems(2) by (simp add: step ts'_def)
  ultimately have "sweep_ok sh n pre E A (fst (mem_run M sh n js (ts', st')) i)"
    by (rule Cons.IH [where ts = ts' and st = st'])
  then show ?case by (simp add: step ts'_def)
qed simp

text \<open>A sweep over the whole table, between the first and the last moment of a run.\<close>

lemma sweep_moments:
  assumes "ts i = Listing pre 0 [] \<or> pre = [] \<and> ts i \<in> {ListingKeys 0 [], Counting 0 0, AskingEmpty 0 0}"
  shows "sweep_ok sh n pre (\<Union>s \<in> set (mem_moments M sh n is (ts, st)). stored M s)
    (\<Inter>s \<in> set (mem_moments M sh n is (ts, st)). stored M s) (fst (mem_run M sh n is (ts, st)) i)"
proof (rule sweep_run)
  let ?E = "\<Union>s \<in> set (mem_moments M sh n is (ts, st)). stored M s"
  let ?A = "\<Inter>s \<in> set (mem_moments M sh n is (ts, st)). stored M s"
  have "scan_ok sh pre ?E ?A 0 []" by (simp add: scan_ok_def)
  with assms show "sweep_ok sh n pre ?E ?A (ts i)" by auto
qed auto

text \<open>A cleared shard stays empty of a key that is not put again.\<close>

lemma absent_step:
  assumes "k \<notin> stored M st" "\<And>i e d r. Took i e (CallPut k d) r \<notin> set (mem_events M n j t st)"
  shows "k \<notin> stored M (snd (mem_step M sh n t st))"
  using replays_absent [OF view_step _ assms(2)] assms(1) by (simp add: stored_def)

lemma clear_own_step:
  assumes "clear_ok sh k (stored M st) t" "sh k < n"
  shows "clear_ok sh k (stored M (snd (mem_step M sh n t st))) (fst (mem_step M sh n t st))"
proof (cases t)
  case (Clearing g)
  have "stored M (st\<lparr>inner := shard_clear M sh g (inner st)\<rparr>) = {k \<in> stored M st. sh k \<noteq> g}"
    by (auto simp: stored_def view_shard_clear restrict_map_def)
  with assms Clearing show ?thesis by (auto simp: less_Suc_eq)
qed (use assms in simp_all)

lemma clear_run:
  assumes "clear_ok sh k (stored M st) (ts i)" "sh k < n"
    and "\<And>j e d r. Took j e (CallPut k d) r \<notin> set (mem_history M sh n is (ts, st))"
  shows "clear_ok sh k (stored M (snd (mem_run M sh n is (ts, st)))) (fst (mem_run M sh n is (ts, st)) i)"
  using assms
proof (induction "is" arbitrary: ts st)
  case (Cons j js)
  obtain t st' where step: "mem_step M sh n (ts j) st = (t, st')" by (cases "mem_step M sh n (ts j) st")
  define ts' where "ts' = ts(j := t)"
  have quiet: "Took l e (CallPut k d) r \<notin> set (mem_events M n j (ts j) st)"
      "Took l e (CallPut k d) r \<notin> set (mem_history M sh n js (ts', st'))" for l e d r
    using Cons.prems(3) [of l e d r] by (simp_all add: step ts'_def)
  have "clear_ok sh k (stored M st') (ts' i)"
  proof (cases "j = i")
    case True
    with clear_own_step [OF Cons.prems(1,2)] step show ?thesis by (simp add: ts'_def)
  next
    case False
    have "k \<in> stored M st \<or> k \<notin> stored M st'" using absent_step [OF _ quiet(1)] step by (metis snd_conv)
    with clear_ok_absent [OF Cons.prems(1)] False show ?thesis by (simp add: ts'_def)
  qed
  then have "clear_ok sh k (stored M (snd (mem_run M sh n js (ts', st')))) (fst (mem_run M sh n js (ts', st')) i)"
    by (rule Cons.IH [where ts = ts' and st = st', OF _ Cons.prems(2) quiet(2)])
  then show ?case by (simp add: step ts'_def)
qed simp

text \<open>A listing that nothing interrupts.\<close>

lemma listing_alone:
  assumes "g + j \<le> n" "scan_ok sh pre (stored M st) (stored M st) g out" "ts i = Listing pre g out"
  shows "\<exists>ts' ks. mem_run M sh n (replicate j i) (ts, st) = (ts', st) \<and> ts' i = Listing pre (g + j) ks
    \<and> scan_ok sh pre (stored M st) (stored M st) (g + j) ks"
  using assms
proof (induction j arbitrary: g out ts)
  case (Suc j)
  define out' where "out' = out @ filter (\<lambda>k. starts_with (as_str k) pre) (shard_keys M sh g (inner st))"
  define ts' where "ts' = ts(i := Listing pre (Suc g) out')"
  have "scan_ok sh pre (stored M st) (stored M st) (Suc g) out'"
    unfolding out'_def by (rule scan_more [OF Suc.prems(2)]) simp_all
  moreover have "ts' i = Listing pre (Suc g) out'" by (simp add: ts'_def)
  ultimately obtain ts'' ks
    where "mem_run M sh n (replicate j i) (ts', st) = (ts'', st)" "ts'' i = Listing pre (g + Suc j) ks"
      "scan_ok sh pre (stored M st) (stored M st) (g + Suc j) ks"
    using Suc.IH [of "Suc g" out' ts'] Suc.prems(1) by auto
  moreover have "mem_run M sh n (replicate (Suc j) i) (ts, st) = mem_run M sh n (replicate j i) (ts', st)"
    using Suc.prems(1,3) by (simp add: ts'_def out'_def)
  ultimately show ?case by metis
qed auto

lemma scan_list:
  assumes "scan_ok sh pre (stored M st) (stored M st) n ks" "\<And>k. sh k < n"
  shows "Inr (sort ks) = memory_list M pre st"
proof -
  have "set ks = {k \<in> dom (memory_view M st). starts_with (as_str k) pre}"
    using assms by (auto simp: scan_ok_def stored_def)
  moreover have "distinct ks" using assms(1) by (simp add: scan_ok_def)
  ultimately show ?thesis by (metis list_spec sorted_list_of_set_sort_remdups distinct_remdups_id)
qed

end

text \<open>The steps a task has left.\<close>

fun mem_left :: "nat \<Rightarrow> mem_task \<Rightarrow> nat" where
  "mem_left n (Call e c) = (if is_list c then n + 2 else 1)"
| "mem_left n (Metadata k) = 1"
| "mem_left n (Listing pre g keys) = Suc (n - g)"
| "mem_left n (ListingKeys g keys) = Suc (n - g)"
| "mem_left n (Counting g c) = Suc (n - g)"
| "mem_left n (AskingEmpty g c) = Suc (n - g)"
| "mem_left n (Clearing g) = Suc (n - g)"
| "mem_left n (Done r) = 0"

lemma mem_left_step: "mem_left n (fst (mem_step M sh n t st)) = mem_left n t - 1"
proof (cases t)
  case (Call e c)
  then show ?thesis by (cases c) (auto simp: case_prod_beta)
qed auto

lemma mem_left_run: "mem_left n (fst (mem_run M sh n is (ts, st)) i) = mem_left n (ts i) - count_list is i"
proof (induction "is" arbitrary: ts st)
  case (Cons j js)
  obtain t st' where step: "mem_step M sh n (ts j) st = (t, st')" by (cases "mem_step M sh n (ts j) st")
  have "mem_left n ((ts(j := t)) i) = mem_left n (ts i) - (if j = i then 1 else 0)"
    using mem_left_step [of n M sh "ts j" st] step by auto
  with Cons.IH show ?case by (simp add: step)
qed simp

lemma mem_run_split: "mem_run M sh n (is @ js) c = mem_run M sh n js (mem_run M sh n is c)"
proof (induction "is" arbitrary: c)
  case Nil
  show ?case by (cases c) simp
next
  case (Cons j js)
  then show ?case by (cases c) (simp add: case_prod_beta)
qed

lemma mem_run_idle: "ts i = Done r \<Longrightarrow> mem_run M sh n (replicate m i) (ts, st) = (ts, st)"
  by (induction m) (simp_all add: fun_upd_idem)

section \<open>An example\<close>

text \<open>
  Two keys on two shards, one of them always stored. Task 1 puts the one, task 2 deletes the other; task 0 reads
  the first shard before and the second shard after that.
\<close>

definition key_a :: object_key where "key_a = ObjectKey ''a''"
definition key_b :: object_key where "key_b = ObjectKey ''b''"

definition shard_ab :: "object_key \<Rightarrow> nat" where
  "shard_ab k = (if k = key_a then 0 else 1)"

definition only_b :: "(object_key, entry) alist memory_store" where
  "only_b = snd (memory_put hash_map_ops plain_env key_b [2] (memory_new hash_map_ops))"

definition movers :: "mem_task \<Rightarrow> nat \<Rightarrow> mem_task" where
  "movers t = (\<lambda>i. [t, Call plain_env (CallPut key_a [1]), Call plain_env (CallDelete key_b)] ! (i mod 3))"

definition move_schedule :: "nat list" where
  "move_schedule = [0, 1, 2, 0, 0]"

lemma ab_views [simp]:
  "hm_get hash_map_ops k (inner only_b) = (if k = key_b then Some (put_entry (crates_of plain_env) key_b [2]) else None)"
  by (simp add: only_b_def memory_put_def memory_new_def Let_def)

lemma shard_ab_keys [simp]: "key_a \<noteq> key_b" "shard_ab k = 0 \<longleftrightarrow> k = key_a" "shard_ab k = Suc 0 \<longleftrightarrow> k \<noteq> key_a"
  by (simp_all add: shard_ab_def key_a_def key_b_def)

lemma ab_tasks [simp]: "shard_ab k < 2" "movers t 0 = t" "movers t (Suc 0) = Call plain_env (CallPut key_a [1])"
  by (simp_all add: shard_ab_def movers_def)

lemma no_shard_keys:
  "(\<And>k. sh k = g \<Longrightarrow> hm_get hash_map_ops k m = None) \<Longrightarrow> shard_keys hash_map_ops sh g m = []"
  using hash_map.shard_keys_in [of _ sh g m] by (metis list.set_cases list.set_sel(1) neq_Nil_conv option.distinct(1))

lemma moved_shards [simp]:
  "shard_keys hash_map_ops shard_ab 0 (inner only_b) = []"
  "shard_keys hash_map_ops shard_ab (Suc 0) (snd (hm_remove hash_map_ops key_b
     (hm_insert hash_map_ops key_a (put_entry (crates_of plain_env) key_a [1]) (inner only_b)))) = []"
  by (rule no_shard_keys; simp)+

lemma stored_moved [simp]:
  "stored hash_map_ops only_b = {key_b}"
  "stored hash_map_ops (st\<lparr>inner := hm_insert hash_map_ops k v m\<rparr>) = insert k (stored hash_map_ops (st\<lparr>inner := m\<rparr>))"
  "stored hash_map_ops (st\<lparr>inner := snd (hm_remove hash_map_ops k m)\<rparr>) = stored hash_map_ops (st\<lparr>inner := m\<rparr>) - {k}"
  by (auto simp: stored_def memory_view_def)

lemma moved:
  assumes "t = Listing [] 0 [] \<or> t = AskingEmpty 0 0"
  shows "fst (mem_run hash_map_ops shard_ab 2 move_schedule (movers t, only_b)) 0 =
      Done (if t = AskingEmpty 0 0 then EmptyIs True else Reply (ReplyKeys (Inr [])))"
    and "s \<in> set (mem_moments hash_map_ops shard_ab 2 move_schedule (movers t, only_b)) \<Longrightarrow> stored hash_map_ops s \<noteq> {}"
  using assms
  by (auto simp: move_schedule_def movers_def memory_ops_def memory_put_def memory_delete_def Let_def case_prod_beta)

section \<open>Properties\<close>

text \<open>C4. However the tasks that share a store interleave, the history of their calls is one that a single map
  from keys to payloads answers in the same way, call by call, and the store ends as that map; each put, get,
  delete and exists takes effect once, between its first step and its answer, with that answer; and what a get
  returns was there at first or is the whole payload of one put of its key: no write is lost or torn.\<close>

theorem memory_linearisable:
  assumes "key_map M"
  shows "replays sh (mem_history M sh n is (ts, st)) (memory_view M st) (memory_view M (snd (mem_run M sh n is (ts, st))))
    \<and> (\<forall>i e c. ts i = Call e c \<and> \<not> is_list c \<longrightarrow>
        (if i \<in> set is
         then \<exists>r. fst (mem_run M sh n is (ts, st)) i = Done (Reply r)
           \<and> filter (\<lambda>v. event_task v = i) (mem_history M sh n is (ts, st)) = [Took i e c r]
         else filter (\<lambda>v. event_task v = i) (mem_history M sh n is (ts, st)) = []))
    \<and> (\<forall>j e k d. Took j e (CallGet k) (ReplyBytes (Inr d)) \<in> set (mem_history M sh n is (ts, st)) \<longrightarrow>
        memory_view M st k = Some d
        \<or> (\<exists>i e' r. Took i e' (CallPut k d) r \<in> set (mem_history M sh n is (ts, st))))"
proof -
  note hist = key_map.history_replays [OF assms, of sh n "is" ts st]
  then show ?thesis using replays_written [OF hist] call_once [of ts _ _ _ "is" M sh n st] by (auto split: if_splits)
qed

theorem memory_linearisable_witness:
  "\<exists>r. fst (mem_run hash_map_ops shard_ab 2 [0, 1, 2] (movers (Call plain_env (CallGet key_b)), only_b)) 0 = Done (Reply r)
    \<and> filter (\<lambda>v. event_task v = 0) (mem_history hash_map_ops shard_ab 2 [0, 1, 2]
        (movers (Call plain_env (CallGet key_b)), only_b)) = [Took 0 plain_env (CallGet key_b) r]"
proof -
  have "movers (Call plain_env (CallGet key_b)) 0 = Call plain_env (CallGet key_b) \<and> \<not> is_list (CallGet key_b)"
    by (simp add: movers_def)
  with memory_linearisable [OF hash_map.key_map_axioms, of shard_ab 2 "[0, 1, 2]" "movers (Call plain_env (CallGet key_b))" only_b]
  show ?thesis by (metis list.set_intros(1))
qed

text \<open>C14. A listing that runs beside other tasks is sorted and without duplicates, holds only keys with the prefix
  that were stored at some moment of it, and all those that were stored at every moment of it.\<close>

theorem memory_list_concurrent:
  assumes "key_map M" "\<And>k. sh k < n" "ts i = Listing pre 0 []"
    and "fst (mem_run M sh n is (ts, st)) i = Done r"
  shows "\<exists>ks. r = Reply (ReplyKeys (Inr ks)) \<and> sorted ks \<and> distinct ks
    \<and> (\<forall>k \<in> set ks. starts_with (as_str k) pre \<and> (\<exists>s \<in> set (mem_moments M sh n is (ts, st)). memory_view M s k \<noteq> None))
    \<and> (\<forall>k. starts_with (as_str k) pre \<and> (\<forall>s \<in> set (mem_moments M sh n is (ts, st)). memory_view M s k \<noteq> None)
        \<longrightarrow> k \<in> set ks)"
proof -
  have "sweep_kind (Done r) = 1" using sweep_kind_run [of ts i M sh n "is" st] assms(3,4) by simp
  then obtain ks where ks: "r = Reply (ReplyKeys (Inr ks))"
    by (cases "Done r" rule: sweep_kind.cases) auto
  with key_map.sweep_moments [OF assms(1), of ts i pre sh n "is" st] assms(2,3,4)
  show ?thesis by (auto simp: scan_ok_def stored_def)
qed

theorem memory_list_concurrent_witness:
  "\<exists>s \<in> set (mem_moments hash_map_ops shard_ab 2 move_schedule (movers (Listing [] 0 []), only_b)).
     memory_view hash_map_ops s key_a = None"
  using memory_list_concurrent [OF hash_map.key_map_axioms, of shard_ab 2 "movers (Listing [] 0 [])" 0 "[]" move_schedule only_b,
      OF _ _ moved(1)]
  by auto

text \<open>C33. The same for the sweeps that are not of the trait: the keys of \<open>list_keys\<close> and what \<open>len\<close> counts lie
  between the keys stored at every moment and those stored at some moment, and \<open>is_empty\<close> is true only if no key
  was stored throughout, false only if a key was stored at some moment.\<close>

theorem memory_sweeps_concurrent:
  assumes "key_map M" "\<And>k. sh k < n" "fst (mem_run M sh n is (ts, st)) i = Done r"
  defines "always \<equiv> \<Inter>s \<in> set (mem_moments M sh n is (ts, st)). stored M s"
    and "ever \<equiv> \<Union>s \<in> set (mem_moments M sh n is (ts, st)). stored M s"
  shows "(ts i = ListingKeys 0 [] \<longrightarrow> (\<exists>ks. r = KeysAre ks \<and> distinct ks \<and> always \<subseteq> set ks \<and> set ks \<subseteq> ever))
    \<and> (ts i = Counting 0 0 \<longrightarrow> (\<exists>c. r = LenIs c \<and> card always \<le> c \<and> c \<le> card ever))
    \<and> (ts i = AskingEmpty 0 0 \<longrightarrow> (\<exists>b. r = EmptyIs b \<and> (if b then always = {} else ever \<noteq> {})))"
proof (intro conjI impI)
  assume i: "ts i = ListingKeys 0 []"
  then have "sweep_kind (Done r) = 2" using sweep_kind_run [of ts i M sh n "is" st] assms(3) by simp
  then obtain ks where ks: "r = KeysAre ks" by (cases "Done r" rule: sweep_kind.cases) auto
  have "scan_ok sh [] ever always n ks"
    using key_map.sweep_moments [OF assms(1), of ts i "[]" sh n "is" st] i assms(3)
    by (simp add: ks flip: ever_def always_def)
  with ks assms(2) show "\<exists>ks. r = KeysAre ks \<and> distinct ks \<and> always \<subseteq> set ks \<and> set ks \<subseteq> ever"
    by (auto simp: scan_ok_def)
next
  assume i: "ts i = Counting 0 0"
  then have "sweep_kind (Done r) = 3" using sweep_kind_run [of ts i M sh n "is" st] assms(3) by simp
  then obtain c where c: "r = LenIs c" by (cases "Done r" rule: sweep_kind.cases) auto
  obtain out where out: "length out = c" "scan_ok sh [] ever always n out"
    using key_map.sweep_moments [OF assms(1), of ts i "[]" sh n "is" st] i assms(3)
    by (auto simp: c simp flip: ever_def always_def)
  have "finite ever" using key_map.stored_finite [OF assms(1)] by (simp add: ever_def)
  moreover have "always \<subseteq> set out" "set out \<subseteq> ever" "distinct out"
    using out(2) assms(2) by (auto simp: scan_ok_def)
  ultimately have "card always \<le> length out" "length out \<le> card ever"
    using card_mono [of "set out" always] card_mono [of ever "set out"] distinct_card [of out] by simp_all
  with c out(1) show "\<exists>c. r = LenIs c \<and> card always \<le> c \<and> c \<le> card ever" by auto
next
  assume i: "ts i = AskingEmpty 0 0"
  then have "sweep_kind (Done r) = 4" using sweep_kind_run [of ts i M sh n "is" st] assms(3) by simp
  then obtain b where b: "r = EmptyIs b" by (cases "Done r" rule: sweep_kind.cases) auto
  obtain out where out: "b = (out = [])" "scan_ok sh [] ever always n out"
    using key_map.sweep_moments [OF assms(1), of ts i "[]" sh n "is" st] i assms(3)
    by (auto simp: b simp flip: ever_def always_def)
  have "always \<subseteq> set out" "set out \<subseteq> ever" using out(2) assms(2) by (auto simp: scan_ok_def)
  with b out(1) show "\<exists>b. r = EmptyIs b \<and> (if b then always = {} else ever \<noteq> {})" by auto
qed

theorem memory_sweeps_concurrent_witness:
  "(\<Inter>s \<in> set (mem_moments hash_map_ops shard_ab 2 move_schedule (movers (AskingEmpty 0 0), only_b)).
     stored hash_map_ops s) = {}"
  using memory_sweeps_concurrent [OF hash_map.key_map_axioms, of shard_ab 2 move_schedule "movers (AskingEmpty 0 0)" only_b 0,
      OF _ moved(1)]
  by (auto split: if_splits)

text \<open>The bounds cannot be improved: a listing can miss every key and \<open>is_empty\<close> can be true of a store that is
  never empty.\<close>

theorem memory_sweeps_not_atomic:
  assumes "t = Listing [] 0 [] \<or> t = AskingEmpty 0 0"
  shows "fst (mem_run hash_map_ops shard_ab 2 move_schedule (movers t, only_b)) 0 =
      Done (if t = AskingEmpty 0 0 then EmptyIs True else Reply (ReplyKeys (Inr [])))
    \<and> (\<forall>s \<in> set (mem_moments hash_map_ops shard_ab 2 move_schedule (movers t, only_b)).
        memory_list hash_map_ops [] s \<noteq> Inr [] \<and> \<not> memory_is_empty hash_map_ops s)"
proof (intro conjI ballI)
  show "fst (mem_run hash_map_ops shard_ab 2 move_schedule (movers t, only_b)) 0 =
      Done (if t = AskingEmpty 0 0 then EmptyIs True else Reply (ReplyKeys (Inr [])))"
    by (rule moved(1) [OF assms])
  fix s assume "s \<in> set (mem_moments hash_map_ops shard_ab 2 move_schedule (movers t, only_b))"
  from moved(2) [OF assms this] obtain k where k: "memory_view hash_map_ops s k \<noteq> None" by (auto simp: stored_def)
  then show "memory_list hash_map_ops [] s \<noteq> Inr []" using hash_map.list_sorted [of "[]" s "[]"] by auto
  from k have "{k. hm_get hash_map_ops k (inner s) \<noteq> None} \<noteq> {}" by (auto simp: memory_view_def)
  then show "\<not> memory_is_empty hash_map_ops s"
    using hash_map.finite_keys [of "inner s"] by (simp add: memory_is_empty_def memory_len_def hash_map.len_card card_eq_0_iff)
qed

text \<open>A key found after a concurrent \<open>clear\<close> has returned was put during it.\<close>

theorem memory_clear_concurrent:
  assumes "key_map M" "\<And>k. sh k < n" "ts i = Clearing 0"
    and "fst (mem_run M sh n is (ts, st)) i = Done r" "memory_view M (snd (mem_run M sh n is (ts, st))) k \<noteq> None"
  shows "\<exists>j e d q. Took j e (CallPut k d) q \<in> set (mem_history M sh n is (ts, st))"
proof (rule ccontr)
  assume "\<not> ?thesis"
  then have "Took j e (CallPut k d) q \<notin> set (mem_history M sh n is (ts, st))" for j e d q by blast
  from key_map.clear_run [OF assms(1), of sh k st ts i n, OF _ assms(2) this] assms(3-5)
  show False by (simp add: stored_def)
qed

theorem memory_clear_concurrent_witness:
  "\<exists>j e d q. Took j e (CallPut key_a d) q
     \<in> set (mem_history hash_map_ops shard_ab 2 [0, 1, 0, 0] (movers (Clearing 0), only_b))"
proof -
  have run: "mem_run hash_map_ops shard_ab 2 [0, 1, 0, 0] (movers (Clearing 0), only_b) =
      ((movers (Clearing 0))(0 := Done Cleared, 1 := Done (Reply (ReplyId (Inr (blob_id_new (entropy plain_env)))))),
       only_b\<lparr>inner := shard_clear hash_map_ops shard_ab 1
         (hm_insert hash_map_ops key_a (put_entry (crates_of plain_env) key_a [1]) (inner only_b))\<rparr>)"
    by (simp add: movers_def memory_ops_def memory_put_def Let_def shard_clear_def fun_eq_iff)
  have "hm_get hash_map_ops key_a (shard_clear hash_map_ops shard_ab 1
      (hm_insert hash_map_ops key_a (put_entry (crates_of plain_env) key_a [1]) (inner only_b))) \<noteq> None"
    by (simp add: shard_clear_def hash_map.get_fold_remove hash_map.shard_keys_in)
  then show ?thesis
    using memory_clear_concurrent [OF hash_map.key_map_axioms, of shard_ab 2 "movers (Clearing 0)" 0 "[0, 1, 0, 0]" only_b Cleared key_a]
    unfolding run by (simp add: memory_view_def)
qed

text \<open>Every operation returns after a bounded number of its own steps, whatever the others do.\<close>

theorem memory_wait_free:
  assumes "mem_left n (ts i) \<le> count_list is i"
  shows "\<exists>r. fst (mem_run M sh n is (ts, st)) i = Done r"
proof -
  have "mem_left n (fst (mem_run M sh n is (ts, st)) i) = 0" using assms by (simp add: mem_left_run)
  then show ?thesis by (cases "fst (mem_run M sh n is (ts, st)) i") (auto split: if_splits)
qed

theorem memory_wait_free_witness:
  "\<exists>r. fst (mem_run hash_map_ops shard_ab 2 move_schedule (movers (Clearing 0), only_b)) 0 = Done r"
  using memory_wait_free [of 2 "movers (Clearing 0)" 0 move_schedule hash_map_ops shard_ab only_b]
  by (simp add: move_schedule_def)

text \<open>A call that nothing interrupts is the operation of the store.\<close>

theorem memory_task_alone:
  assumes "key_map M" "\<And>k. sh k < n" "ts i = Call e c"
  shows "fst (mem_run M sh n (replicate (n + 2) i) (ts, st)) i = Done (Reply (fst (do_call (memory_ops M) e c st)))
    \<and> snd (mem_run M sh n (replicate (n + 2) i) (ts, st)) = snd (do_call (memory_ops M) e c st)"
proof (cases "is_list c")
  case True
  then obtain pre where c: "c = CallList pre" by (cases c) auto
  define ts1 where "ts1 = ts(i := Listing pre 0 [])"
  have "scan_ok sh pre (stored M st) (stored M st) 0 []" by (simp add: scan_ok_def)
  with key_map.listing_alone [OF assms(1), of 0 n n sh pre st "[]" ts1 i] obtain ts2 ks
    where mid: "mem_run M sh n (replicate n i) (ts1, st) = (ts2, st)" "ts2 i = Listing pre n ks"
      and ks: "scan_ok sh pre (stored M st) (stored M st) n ks" by (auto simp: ts1_def)
  have "mem_run M sh n (replicate (n + 2) i) (ts, st) = mem_run M sh n (replicate n i @ [i]) (ts1, st)"
    using assms(3) by (simp add: c ts1_def replicate_append_same)
  also have "\<dots> = (ts2(i := Done (Reply (ReplyKeys (Inr (sort ks))))), st)"
    using mid by (simp add: mem_run_split)
  finally show ?thesis
    using key_map.scan_list [OF assms(1) ks assms(2)] by (simp add: c memory_ops_def)
next
  case False
  let ?r = "fst (do_call (memory_ops M) e c st)" and ?st = "snd (do_call (memory_ops M) e c st)"
  define ts1 where "ts1 = ts(i := Done (Reply ?r))"
  have "mem_run M sh n (replicate (Suc n) i) (ts1, ?st) = (ts1, ?st)"
    by (rule mem_run_idle) (simp add: ts1_def)
  moreover have "mem_run M sh n (replicate (n + 2) i) (ts, st) = mem_run M sh n (replicate (Suc n) i) (ts1, ?st)"
    using assms(3) False by (simp add: mem_step_call ts1_def)
  ultimately show ?thesis by (simp add: ts1_def)
qed

theorem memory_task_alone_witness:
  "fst (mem_run hash_map_ops shard_ab 2 [0, 0, 0, 0] (movers (Call plain_env (CallList [])), only_b)) 0 =
     Done (Reply (ReplyKeys (memory_list hash_map_ops [] only_b)))"
proof -
  have "replicate (2 + 2) 0 = [0, 0, 0, 0 :: nat]" by (simp add: eval_nat_numeral)
  with memory_task_alone [OF hash_map.key_map_axioms, of shard_ab 2 "movers (Call plain_env (CallList []))" 0 plain_env "CallList []" only_b]
  show ?thesis by (simp add: memory_ops_def del: mem_run.simps)
qed

end
