(* ===== verification/Containment.thy ===== *)
theory Containment
  imports Ring_Store
begin

text \<open>
  What \<open>put\<close> and \<open>delete\<close> of \<open>src/src/local.rs\<close> and \<open>src/src/io_uring_backend.rs\<close> can touch: for every key, validated
  or not, that is relative and names something below the root, and whatever calls fail, nothing outside the root.
  The guard is \<open>resolve\<close>, and that the temporary file is made beside its destination.
\<close>

section \<open>Changes below a directory\<close>

definition same_outside :: "path \<Rightarrow> node \<Rightarrow> node \<Rightarrow> bool" where
  "same_outside r fs fs' \<longleftrightarrow>
     (\<forall>q. \<not> strict_prefix r q \<longrightarrow> file_at fs' q = file_at fs q \<and> dir_at fs' q = dir_at fs q)"

lemma same_outside_refl [simp]: "same_outside r fs fs"
  by (simp add: same_outside_def)

lemma same_outside_trans [trans]: "same_outside r fs fs1 \<Longrightarrow> same_outside r fs1 fs2 \<Longrightarrow> same_outside r fs fs2"
  by (simp add: same_outside_def)

lemma same_outside_dir: "same_outside r fs fs' \<Longrightarrow> dir_at fs r \<Longrightarrow> dir_at fs' r"
  by (simp add: same_outside_def)

lemma set_path_elsewhere:
  "\<not> prefix p q \<Longrightarrow> file_at (set_path p v n) q = file_at n q \<and> dir_at (set_path p v n) q = dir_at n q"
proof (induction p v n arbitrary: q rule: set_path.induct)
  case (3 c cs v es)
  then show ?case by (cases q) (auto simp: update_conv' split: option.splits)
qed simp_all

lemma del_path_elsewhere:
  "\<not> prefix p q \<Longrightarrow> file_at (del_path p n) q = file_at n q \<and> dir_at (del_path p n) q = dir_at n q"
proof (induction p n arbitrary: q rule: del_path.induct)
  case (3 c cs es)
  then show ?case by (cases q) (auto simp: update_conv' delete_conv' split: option.splits)
qed simp_all

lemma set_path_below: "strict_prefix r p \<Longrightarrow> same_outside r fs (set_path p v fs)"
  using set_path_elsewhere [of p] by (auto simp: same_outside_def dest: prefix_order.less_le_trans)

lemma del_path_below: "strict_prefix r p \<Longrightarrow> same_outside r fs (del_path p fs)"
  using del_path_elsewhere [of p] by (auto simp: same_outside_def dest: prefix_order.less_le_trans)

section \<open>System calls\<close>

lemma calls_below:
  "strict_prefix r p \<Longrightarrow> same_outside r fs (snd (sys_create_new flt p fs))"
  "strict_prefix r p \<Longrightarrow> same_outside r fs (snd (sys_write_all flt m p d fs))"
  "strict_prefix r (comps q) \<Longrightarrow> same_outside r fs (snd (sys_unlink flt q fs))"
  "strict_prefix r p \<Longrightarrow> strict_prefix r (comps q) \<Longrightarrow> same_outside r fs (snd (sys_rename flt p q fs))"
  using same_outside_trans [OF del_path_below set_path_below]
  by (auto simp: sys_create_new_def sys_write_all_def sys_unlink_def sys_rename_def set_path_below del_path_below
      split: option.splits sum.splits node.splits)

lemma drop_temp_below: "strict_prefix r tmp \<Longrightarrow> same_outside r fs (drop_temp flt tmp fs)"
  by (simp add: drop_temp_def calls_below)

text \<open>Where the root is a directory, directories are made below it only.\<close>

lemma mkdir_below:
  assumes "dir_at fs r" "prefix p r \<or> strict_prefix r p"
  shows "same_outside r fs (snd (sys_mkdir flt p fs))"
proof (cases "strict_prefix r p")
  case True
  then show ?thesis by (auto simp: sys_mkdir_def set_path_below split: option.splits sum.splits node.splits)
next
  case False
  with assms(2) obtain s where "r = p @ s" by (auto simp: prefix_def)
  with assms(1) have "node_at fs p \<noteq> None" using dir_at_ancestor [of fs p s] by (auto simp: dir_at_iff)
  then show ?thesis by (auto simp: sys_mkdir_def split: option.splits sum.splits node.splits)
qed

lemma create_dir_all_below:
  assumes "create_dir_all flt p fs = (res, fs')" "dir_at fs r" "prefix p r \<or> strict_prefix r p"
  shows "same_outside r fs fs'"
  using assms
proof (induction flt p fs arbitrary: res fs' rule: create_dir_all.induct)
  case (1 flt p fs)
  obtain r1 fs1 where mk: "sys_mkdir flt p fs = (r1, fs1)" by (cases "sys_mkdir flt p fs")
  have m1: "same_outside r fs fs1" using mkdir_below [OF "1.prems"(2,3), of flt] mk by simp
  show ?case
  proof (cases "\<exists>e. r1 = Inl e \<and> io_kind e = KNotFound \<and> p \<noteq> []")
    case False
    with "1.prems"(1) mk m1 show ?thesis by (subst (asm) create_dir_all.simps) (auto split: sum.splits if_splits)
  next
    case True
    then obtain e where e: "r1 = Inl e" "io_kind e = KNotFound" "p \<noteq> []" by blast
    obtain r2 fs2 where rec: "create_dir_all flt (butlast p) fs1 = (r2, fs2)"
      by (cases "create_dir_all flt (butlast p) fs1")
    have "prefix (butlast p) r \<or> strict_prefix r (butlast p)"
      using "1.prems"(3) e(3) by (metis append_butlast_last_id prefix_order.dual_order.order_iff_strict prefix_snoc prefixI prefix_order.trans)
    from "1.IH" [OF mk [symmetric] e(1) e(2,3) rec same_outside_dir [OF m1 "1.prems"(2)] this]
    have m2: "same_outside r fs fs2" using same_outside_trans [OF m1] by blast
    obtain r3 fs3 where mk3: "sys_mkdir flt p fs2 = (r3, fs3)" by (cases "sys_mkdir flt p fs2")
    have m3: "same_outside r fs fs3"
      using same_outside_trans [OF m2 mkdir_below [OF same_outside_dir [OF m2 "1.prems"(2)] "1.prems"(3), of flt]] mk3 by simp
    from "1.prems"(1) mk rec mk3 e m2 m3 show ?thesis
      by (subst (asm) create_dir_all.simps) (auto split: sum.splits if_splits)
  qed
qed

section \<open>Where a key leads\<close>

text \<open>Two dots are the only way up, and a component of two dots is two dots in the key.\<close>

lemma split_piece_sublist: "p \<in> set (split_on c s) \<Longrightarrow> sublist p s"
proof (induction s arbitrary: p)
  case (Cons x s)
  obtain y ys where s: "split_on c s = y # ys" by (cases "split_on c s") auto
  have "prefix y s" using join_split [of c s] by (cases ys) (auto simp: s prefix_def)
  with Cons show ?case by (auto simp: s sublist_Cons_right split: if_splits)
qed simp

lemma norm_names:
  assumes "\<not> str_contains s ''..''"
  shows "list_all name_ok (norm_components s)"
  using assms split_on_piece [of _ "CHR ''/''" s] split_piece_sublist [of "''..''" "CHR ''/''" s]
  by (auto simp: norm_components_def list_all_iff name_ok_def str_contains_iff)

lemma resolve_below:
  assumes "local_resolve L k = Inr p" "\<not> starts_with (as_str k) ''/''" "norm_components (as_str k) \<noteq> []"
    and "list_all name_ok (root L)"
  shows "list_all name_ok (comps p)" "strict_prefix (root L) (comps p)" "path_parent p = Some (butlast (comps p))"
    "prefix (root L) (butlast (comps p))"
proof -
  from assms(1,2) have p: "comps p = root L @ norm_components (as_str k)" and nodots: "\<not> str_contains (as_str k) ''..''"
    by (auto simp: local_resolve_def path_join_def Let_def split: if_splits)
  from norm_names [OF nodots] assms(4) show "list_all name_ok (comps p)" by (simp add: p)
  show "strict_prefix (root L) (comps p)" "prefix (root L) (butlast (comps p))" "path_parent p = Some (butlast (comps p))"
    using assms(3) by (simp_all add: p strict_prefix_def butlast_append path_parent_def)
qed

section \<open>The operations\<close>

lemma local_publish_below:
  assumes "strict_prefix r tmp" "strict_prefix r (comps dest)"
  shows "same_outside r fs (snd (local_publish e tmp dest d fs))"
proof -
  let ?flt = "faults_of e"
  obtain r1 fs1 where mk: "sys_create_new ?flt tmp fs = (r1, fs1)" by (cases "sys_create_new ?flt tmp fs")
  obtain r2 fs2 where wr: "sys_write_all ?flt (partial_write e) tmp d fs1 = (r2, fs2)"
    by (cases "sys_write_all ?flt (partial_write e) tmp d fs1")
  obtain r3 fs3 where rn: "sys_rename ?flt tmp dest fs2 = (r3, fs3)" by (cases "sys_rename ?flt tmp dest fs2")
  have b1: "same_outside r fs fs1" using calls_below(1) [OF assms(1), of fs ?flt] mk by simp
  have b2: "same_outside r fs fs2"
    using same_outside_trans [OF b1 calls_below(2) [OF assms(1), of fs1 ?flt "partial_write e" d]] wr by simp
  have b3: "same_outside r fs fs3" using same_outside_trans [OF b2 calls_below(4) [OF assms, of fs2 ?flt]] rn by simp
  note drop = same_outside_trans [OF _ drop_temp_below [OF assms(1)]]
  from b1 b2 b3 drop [OF b2] drop [OF b3] show ?thesis
    by (auto simp: local_publish_def mk wr rn split: sum.splits)
qed

lemma ring_publish_below:
  assumes "ring_publish e tmp dest d fs = Some (q, fs')" "strict_prefix r tmp" "strict_prefix r (comps dest)"
  shows "same_outside r fs fs'"
proof -
  let ?flt = "faults_of (base e)"
  obtain r1 fs1 where mk: "sys_create_new ?flt tmp fs = (r1, fs1)" by (cases "sys_create_new ?flt tmp fs")
  have b1: "same_outside r fs fs1" using calls_below(1) [OF assms(2), of fs ?flt] mk by simp
  have b2: "same_outside r fs fs2" if "ring_fill_temp e tmp d fs1 = Some (r2, fs2)" for r2 fs2
    using that same_outside_trans [OF b1 set_path_below [OF assms(2)]] b1
    by (auto simp: ring_fill_temp_def Let_def split: option.splits sum.splits prod.splits)
  have b3: "same_outside r fs fs3"
    if "ring_fill_temp e tmp d fs1 = Some (r2, fs2)" "sys_rename ?flt tmp dest fs2 = (r3, fs3)" for r2 fs2 r3 fs3
    using same_outside_trans [OF b2 [OF that(1)] calls_below(4) [OF assms(2,3), of fs2 ?flt]] that(2) by simp
  note drop = same_outside_trans [OF _ drop_temp_below [OF assms(2)]]
  from assms(1) b1 b2 b3 drop [OF b1] drop [OF b2] drop [OF b3] show ?thesis
    by (auto simp: ring_publish_def mk Let_def split: option.splits sum.splits prod.splits)
qed

lemma parent_below:
  assumes "local_ensure_parent flt p fs = (q, fs1)" "path_parent p = Some (butlast (comps p))"
    and "fs_wf fs" "dir_at fs r" "list_all name_ok (comps p)" "prefix r (butlast (comps p))"
  shows "fs_wf fs1 \<and> same_outside r fs fs1"
proof -
  obtain q1 fs2 where dirs: "create_dir_all flt (butlast (comps p)) fs = (q1, fs2)"
    by (cases "create_dir_all flt (butlast (comps p)) fs")
  have "fs1 = fs2" using assms(1,2) dirs by (auto simp: local_ensure_parent_def)
  then show ?thesis
    using fs_wf_create_dir_all [OF assms(3) list_all_butlast [OF assms(5)], of flt] dirs
      create_dir_all_below [OF dirs assms(4)] assms(6) by (auto simp: prefix_order.dual_order.order_iff_strict)
qed

lemma temp_below:
  assumes "prefix r p" "list_all name_ok p" "CHR ''/'' \<notin> set s"
  shows "strict_prefix r (p @ [''.blobkit-'' @ s])" "list_all name_ok (p @ [''.blobkit-'' @ s])"
    "strict_prefix r (p @ [''.blobkit-ring-'' @ s])" "list_all name_ok (p @ [''.blobkit-ring-'' @ s])"
  using assms by (auto simp: strict_prefix_def name_ok_def prefix_def)

lemma local_put_below:
  assumes "local_put L e k d fs = (q, fs')" "\<not> starts_with (as_str k) ''/''" "norm_components (as_str k) \<noteq> []"
    and "fs_wf fs" "list_all name_ok (root L)" "dir_at fs (root L)" "CHR ''/'' \<notin> set (tmp_suffix e)"
  shows "fs_wf fs' \<and> same_outside (root L) fs fs'"
proof (cases "over_limit (max_bytes L) d \<or> \<not> is_ok (local_resolve L k)")
  case True
  with assms(1,4) show ?thesis by (auto simp: local_put_def split: if_splits sum.splits)
next
  case False
  then obtain p where p: "local_resolve L k = Inr p" by (auto simp: is_ok_iff)
  note b = resolve_below [OF p assms(2,3,5)]
  obtain q1 fs1 where par: "local_ensure_parent (faults_of e) p fs = (q1, fs1)"
    by (cases "local_ensure_parent (faults_of e) p fs")
  note P = parent_below [OF par b(3) assms(4,6) b(1,4)] and t = temp_below [OF b(4) list_all_butlast [OF b(1)] assms(7)]
  note pub = local_publish_wf [OF _ t(2) b(1), of fs1 e d] same_outside_trans [OF _ local_publish_below [OF t(1) b(2)], of fs fs1 e d]
  from assms(1) False p par b(3) P pub show ?thesis
    by (cases q1) (auto simp: local_put_def Let_def)
qed

lemma ring_put_below:
  assumes "ring_put R e k d fs = Some (q, fs')" "\<not> starts_with (as_str k) ''/''" "norm_components (as_str k) \<noteq> []"
    and "fs_wf fs" "list_all name_ok (ring_root R)" "dir_at fs (ring_root R)" "CHR ''/'' \<notin> set (tmp_suffix (base e))"
  shows "fs_wf fs' \<and> same_outside (ring_root R) fs fs'"
proof (cases "over_limit (ring_max_bytes R) d \<or> \<not> is_ok (ring_resolve R k)")
  case True
  with assms(1,4) show ?thesis by (auto simp: ring_put_def split: if_splits sum.splits)
next
  case False
  then obtain p where p: "ring_resolve R k = Inr p" by (auto simp: is_ok_iff)
  have root: "root (as_local R) = ring_root R" by (simp add: as_local_def)
  note b = resolve_below [of "as_local R" k p, folded ring_resolve_local, unfolded root, OF p assms(2,3,5)]
  obtain q1 fs1 where par: "local_ensure_parent (faults_of (base e)) p fs = (q1, fs1)"
    by (cases "local_ensure_parent (faults_of (base e)) p fs")
  note P = parent_below [OF par b(3) assms(4,6) b(1,4)] and t = temp_below [OF b(4) list_all_butlast [OF b(1)] assms(7)]
  have pub: "fs_wf fs2 \<and> same_outside (ring_root R) fs fs2"
    if "ring_publish e (butlast (comps p) @ [''.blobkit-ring-'' @ tmp_suffix (base e)]) p d fs1 = Some (q2, fs2)" for q2 fs2
    using ring_publish_wf [OF that _ t(4) b(1)] P same_outside_trans [OF _ ring_publish_below [OF that t(3) b(2)]] by blast
  from assms(1) False p par b(3) P pub show ?thesis
    by (cases q1) (auto simp: ring_put_def Let_def)
qed

lemma unlink_below:
  assumes "\<not> starts_with (as_str k) ''/''" "norm_components (as_str k) \<noteq> []" "fs_wf fs" "list_all name_ok (root L)"
    and "local_delete L e k fs = (q, fs')"
  shows "fs_wf fs' \<and> same_outside (root L) fs fs'"
proof (cases "local_resolve L k")
  case (Inl er)
  with assms(3,5) show ?thesis by (simp add: local_delete_def)
next
  case (Inr p)
  have "fs' = snd (sys_unlink (faults_of e) p fs)"
    using assms(5) Inr by (auto simp: local_delete_def split: prod.splits sum.splits)
  then show ?thesis
    using calls_below(3) [OF resolve_below(2) [OF Inr assms(1,2,4)]] fs_wf_calls(4) [OF assms(3)] by simp
qed

section \<open>Properties\<close>

text \<open>C32. Containment of effects. Whatever calls fail and however the ring's kernel behaves, put and delete of both
  stores, on every key that is relative and has a component besides \<open>.\<close> (validated or not), keep the tree one of
  distinct legal names and leave every file and directory that is not strictly below the root as it was. A key with
  two consecutive dots is refused by put and delete of both stores and by get and exists of \<open>LocalStore\<close>, and nothing
  is touched.\<close>

theorem stores_contained:
  assumes "\<not> starts_with (as_str k) ''/''" "norm_components (as_str k) \<noteq> []" "root L = ring_root R"
    and "fs_wf fs" "list_all name_ok (root L)" "dir_at fs (root L)" "CHR ''/'' \<notin> set (tmp_suffix (base e))"
  shows "(local_put L (base e) k d fs = (r, fs') \<or> local_delete L (base e) k fs = (q, fs')
        \<or> ring_put R e k d fs = Some (r, fs') \<or> ring_delete R e k fs = (q, fs') \<longrightarrow>
      fs_wf fs' \<and> (\<forall>p. \<not> strict_prefix (root L) p \<longrightarrow>
        file_at fs' p = file_at fs p \<and> dir_at fs' p = dir_at fs p))
    \<and> (str_contains (as_str k) ''..'' \<longrightarrow>
      \<not> is_ok (fst (local_put L (base e) k d fs)) \<and> snd (local_put L (base e) k d fs) = fs
      \<and> (\<exists>er. ring_put R e k d fs = Some (Inl er, fs)) \<and> local_delete L (base e) k fs = ring_delete R e k fs
      \<and> \<not> is_ok (fst (ring_delete R e k fs)) \<and> snd (ring_delete R e k fs) = fs
      \<and> \<not> is_ok (local_get L (base e) k fs) \<and> \<not> is_ok (local_exists L (base e) k fs))"
proof (intro conjI impI)
  assume "local_put L (base e) k d fs = (r, fs') \<or> local_delete L (base e) k fs = (q, fs')
        \<or> ring_put R e k d fs = Some (r, fs') \<or> ring_delete R e k fs = (q, fs')"
  then have "fs_wf fs' \<and> same_outside (root L) fs fs'"
    using local_put_below [OF _ assms(1,2,4-7), of d r fs'] unlink_below [OF assms(1,2,4,5), of "base e" q fs']
      ring_put_below [OF _ assms(1,2,4) _ _ assms(7), of R d r fs']
      unlink_below [OF assms(1,2,4), of "as_local R" "base e" q fs'] assms(3,5,6)
    by (auto simp: ring_others_local as_local_def)
  then show "fs_wf fs'" "\<forall>p. \<not> strict_prefix (root L) p \<longrightarrow> file_at fs' p = file_at fs p \<and> dir_at fs' p = dir_at fs p"
    by (simp_all add: same_outside_def)
qed (simp_all add: local_put_def ring_put_def local_resolve_def ring_resolve_def local_delete_def ring_delete_def
    local_get_def local_exists_def)

theorem stores_contained_witness:
  "let (r, fs') = local_put store_r (calm\<lparr>faults_of := (\<lambda>c. case c of SysUnlink p \<Rightarrow> Some (OsError EBUSY)
          | SysSync p \<Rightarrow> Some (OsError ENOSPC) | _ \<Rightarrow> None)\<rparr>) (key_deserialize ''d//./g'') [9] tree_r
    in fs_wf fs' \<and> file_at fs' [''.blobkit-x1''] = None"
proof -
  let ?e = "ring_calm\<lparr>base := calm\<lparr>faults_of := (\<lambda>c. case c of SysUnlink p \<Rightarrow> Some (OsError EBUSY)
          | SysSync p \<Rightarrow> Some (OsError ENOSPC) | _ \<Rightarrow> None)\<rparr>\<rparr>" and ?k = "key_deserialize ''d//./g''"
  obtain r fs' where put: "local_put store_r (base ?e) ?k [9] tree_r = (r, fs')"
    by (cases "local_put store_r (base ?e) ?k [9] tree_r")
  have k: "\<not> starts_with (as_str ?k) ''/''" "norm_components (as_str ?k) \<noteq> []" by code_simp+
  have t: "fs_wf tree_r" "dir_at tree_r (root store_r)" using store_r_simps(3) by (simp_all add: local_invar_def tree_r_def)
  have n: "root store_r = ring_root ring_r" "list_all name_ok (root store_r)" "CHR ''/'' \<notin> set (tmp_suffix (base ?e))"
    by (simp_all add: name_ok_def ring_calm_def)
  have "file_at tree_r [''.blobkit-x1''] = None" "\<not> strict_prefix (root store_r) [''.blobkit-x1'']"
    by (simp_all add: tree_r_def strict_prefix_def)
  with stores_contained [OF k n(1) t(1) n(2) t(2) n(3), of "[9]" r fs'] put show ?thesis by (simp add: case_prod_beta)
qed

text \<open>The condition on \<open>.\<close> is needed: the temporary file of the valid key \<open>.\<close> is made in the parent of the root, where a
  removal that fails leaves it.\<close>

theorem dot_key_escapes:
  "key_wf (ObjectKey ''.'')
   \<and> file_at (snd (local_put store_r (calm\<lparr>faults_of := (\<lambda>c. case c of SysUnlink p \<Rightarrow> Some (OsError EBUSY) | _ \<Rightarrow> None)\<rparr>)
       (ObjectKey ''.'') [9] tree_r)) [''.blobkit-x1''] = Some [9]"
proof
  show "key_wf (ObjectKey ''.'')" by (simp add: key_wf_def key_str_wf_def max_key_len_def)
  show "file_at (snd (local_put store_r (calm\<lparr>faults_of := (\<lambda>c. case c of SysUnlink p \<Rightarrow> Some (OsError EBUSY) | _ \<Rightarrow> None)\<rparr>)
       (ObjectKey ''.'') [9] tree_r)) [''.blobkit-x1''] = Some [9]" by code_simp
qed

end
