(* ===== verification/Spec2Isabelle.thy ===== *)
theory Spec2Isabelle
  imports Bucket_Name Blob_Id Blob_Store Memory_Store Local_Correct Local_Listing Ring_Store Shared_Tree S3_Store Object_Backend
    Cloud_Backends Clients Memory_Tests Ring_Tests Cloud_Tests Integration_Tests Config_Tests
    Ring_Reuse Memory_Concurrent Containment
begin

text \<open>
  A verification development of blobkit, a Rust crate that stores byte payloads under validated keys.

  \<^bold>\<open>The program.\<close> The trait \<open>BlobStore\<close> (\<open>src/src/store.rs\<close>) has the operations \<open>put\<close>, \<open>get\<close>, \<open>delete\<close>,
  \<open>exists\<close>, \<open>list\<close> and \<open>presigned_url\<close>. Its keys, bucket names, identifiers and metadata are the types of
  \<open>src/src/types.rs\<close>, its errors those of \<open>src/src/error.rs\<close>. Five stores implement it: in memory
  (\<open>memory.rs\<close>), on a file system (\<open>local.rs\<close>), on a file system through io_uring (\<open>io_uring_backend.rs\<close>), on S3
  (\<open>s3.rs\<close>) and on Google or Azure storage through the crate object_store (\<open>object_store_backend.rs\<close>).

  \<^bold>\<open>Conventions.\<close> A Rust string is the list of its UTF-8 bytes, a payload a list of 8-bit words, a \<open>u64\<close> a
  64-bit word, a \<open>usize\<close> or an offset a natural number below \<open>2 ^ 64\<close>, with the wrap-around written out where it
  matters. \<open>Result\<close> is a sum whose left side is the error. A store's operation takes the state and returns it
  updated; everything that varies from call to call outside the program (entropy, faults of system calls, order
  of directory entries, the crates compiled in) is an argument of the call, the \<open>env\<close>.

  \<^bold>\<open>Theories, in order.\<close>
  \<^item> Prelude: the \<open>str\<close> methods and \<open>Result\<close> combinators of the sources and their lemmas, collected in
    \<open>str_simps\<close> and \<open>res_simps\<close>. Rust_Text: decimal and hexadecimal formatting, hexadecimal parsing, the
    UTF-8 check.
  \<^item> Blob_Error (\<open>error.rs\<close>, \<open>BlobError\<close> and its constructors, and \<open>std::io::Error\<close>).
  \<^item> Object_Key, Bucket_Name, Blob_Id, Blob_Metadata (\<open>types.rs\<close>): what each validation accepts and which
    check rejects, text round trips, the two known leaks of validation (deserialisation, signs in identifiers).
  \<^item> Blob_Store (\<open>store.rs\<close>): the trait as a record of operations, sessions of calls, and the interfaces:
    \<open>blob_store\<close> is what every implementation promises (a failed put or delete changes nothing or what it would
    have changed, an \<open>Ok\<close> is exact, \<open>NotFound\<close> is truthful), \<open>strict_store\<close> extends it for a store without
    faults, \<open>store_simulation\<close> relates two stores call by call. Lemmas on runs of many calls are proved in them.
  \<^item> Memory_Store (\<open>memory.rs\<close>): \<open>MemoryStore\<close> over any map that obeys the locale \<open>key_map\<close> (interpreted on
    association lists), its refinement of the specification store (a map from keys to bytes), and the fallback
    build over a mutex, which simulates it until the lock is poisoned. Memory_Concurrent: any number of tasks on
    one store, under any schedule. Single accesses take effect one by one as on the specification; \<open>list\<close>,
    \<open>list_keys\<close>, \<open>len\<close>, \<open>is_empty\<close> and \<open>clear\<close> go from shard to shard of the map, and what they answer lies
    between what was stored throughout and what was stored at some moment, which is the best that can be said.
  \<^item> File_System: the part of \<open>std::fs\<close> the sources use, over a tree of named entries, with a fault
    argument that can make any system call fail. Local_Store (\<open>local.rs\<close>): the operations. Local_Laws: what each
    of them changes, as a map from paths to contents. Local_Walk: the iterative listing against a recursive one.
    Local_Correct: the interpretation of \<open>blob_store\<close>, and the properties.
  \<^item> Local_Tasks: the same operations cut into steps of at most one system call, shown to be the operations
    when run alone. Concurrent: any number of tasks interleaved on one tree (\<^const>\<open>tstep\<close>, an inductive
    relation). A \<open>protocol\<close> says what the invariant needs to know of a task; the locale \<open>tree_tasks\<close> lists what the
    tasks of a store owe each other and derives linearisability, what a power failure leaves, private temporary
    files, well-formed trees and a bound on the steps; the locale \<open>two_stores\<close> shows that two stores that keep
    the protocol keep it together. Local_Concurrent interprets \<open>tree_tasks\<close> on \<open>LocalStore\<close>. Local_Listing: a
    listing whose directory reads interleave with the tasks.
  \<^item> Ring_File (\<open>io_uring_backend.rs\<close>, \<open>IoUringFile\<close>): the loop that fills the submission queue, waits, reaps and
    queues the rest of short completions again, over a kernel that is a parameter. Its invariant says which buffer
    bytes are queued, in flight or moved, and, for kernels that also report errors, that a write leaves every byte old or
    new and fails only with what was reported. Ring_Correct: exactness, termination and memory safety of transfers,
    and what a failed transfer leaves.
    Ring_Handle: making the handle by creating, opening or wrapping a file. Ring_Reuse: several transfers on
    one handle, with the entries an earlier transfer left in its ring; they are exact as long as they return
    \<open>Ok\<close>, and a transfer after a failed one can return \<open>Ok\<close> without having moved its bytes: because it is told of the
    other's entries, or because the submission queue is still full of them.
    Ring_Store (\<open>IoUringStore\<close>): the store on top of it, compared with Local_Store. Containment: what put and delete
    of both stores can touch, for keys validated or not. Ring_Tasks, Ring_Concurrent:
    its operations as tasks, and the interpretation of \<open>tree_tasks\<close>.
  \<^item> Shared_Tree: a \<open>LocalStore\<close> and an \<open>IoUringStore\<close> on one root directory, the interpretation of \<open>two_stores\<close>,
    and the properties of all their interleavings.
  \<^item> S3_Store (\<open>s3.rs\<close>) and Object_Backend (\<open>object_store_backend.rs\<close>): configuration, redaction of secrets, error
    mapping, operations over a client that is a parameter.
  \<^item> Backends: the locale \<open>store_match\<close>, a simulation between a backend (operations that may not return) and the
    specification store, with the calls on which they agree and what of a reply is compared; a session of
    calls then answers as the specification. Interpreted on both memory stores there, on \<open>LocalStore\<close> and
    \<open>IoUringStore\<close> in Tree_Backends, on \<open>S3Store\<close> and \<open>ObjectStoreBackend\<close> in Cloud_Backends, so that all six are
    compared with one another.
  \<^item> Clients: several clients of one store whose calls follow one another in any order; clients that use
    keys of their own get the replies they would get alone. Proved of the specification and, in
    \<open>store_match\<close>, of every backend under its conditions; in a file system no key may lie below another
    (\<^const>\<open>keys_apart\<close>), and \<open>clients_disturbed\<close> shows that this is needed.
  \<^item> Test_Kit, Types_Tests, Memory_Tests, Local_Tests, Ring_Tests, Cloud_Tests, Integration_Tests,
    Gate_Tests, Config_Tests: the unit tests of each source file, the property tests of \<open>src/tests/proptest.rs\<close> and
    the tests of \<open>integration.rs\<close>, \<open>coverage_gates.rs\<close>, \<open>config_matrix.rs\<close>, \<open>s3.rs\<close> and \<open>object_store.rs\<close> under
    \<open>src/tests\<close> that need no live service, one boolean definition for each test function, an \<open>unwrap\<close> or an
    assertion that does not hold making it false. That they all pass is proved for every environment they run in
    (temporary directory, kernel, order of map entries, of concurrent tasks, identifiers), not for one run;
    the test that identifiers are fresh passes only when the hashes they come from differ.

  \<^bold>\<open>How the parts interact.\<close> Every store validates nothing itself: it relies on keys made by \<open>ObjectKey::new\<close>, the
  predicate \<^const>\<open>key_wf\<close>. The file-system stores further reject keys with two consecutive dots, and keys with
  \<open>.\<close> components alias, so their contract is about \<^const>\<open>local_ok_key\<close>. \<open>IoUringStore\<close> shares the directory
  handling, listing and deletion of \<open>LocalStore\<close> (\<open>ring_matches_local\<close>, \<open>ring_put_matches_local\<close>).

  \<^bold>\<open>Requirements.\<close> The requirements of \<open>REQUIREMENTS.md\<close> and the theorems on them.
  \<^item> REQ-BK-001, 002, 003 (last write wins), 103, 202: \<open>memory_refines_map\<close>, \<open>backends_interchangeable\<close> and
    \<open>cloud_interchangeable\<close>, for every payload; in an environment with faults \<open>local_run_refines\<close>. A missing key
    below a stored file is an error other than \<open>NotFound\<close> in \<open>LocalStore\<close>.
  \<^item> REQ-BK-003 (fresh identifiers), 105: \<open>blob_id_new_fresh_iff\<close> shows that they hold exactly as long as the hash of
    clock and thread does not repeat.
  \<^item> REQ-BK-004: \<open>integration_tests_pass\<close>; the \<open>expires\<close> of a file URL is text that nothing enforces.
  \<^item> REQ-BK-005: the digest is that of the crate sha2, \<^const>\<open>compute_sha256\<close> its lower-case hexadecimal text.
    REQ-BK-006: \<open>memory_accounting\<close>, \<open>integration_tests_pass\<close>.
  \<^item> REQ-BK-100, 101: \<open>key_new_accepts_exactly\<close>. REQ-BK-102: \<open>bucket_new_accepts_exactly\<close>. REQ-BK-104: \<open>local_put_quota\<close>.
    REQ-BK-106: \<open>key_deserialize_unchecked\<close> shows that deserialisation is a second way round validation.
  \<^item> REQ-BK-200: \<open>memory_linearisable\<close>, \<open>memory_list_concurrent\<close>, \<open>clients_isolated\<close>. REQ-BK-201: \<open>box_ops_id\<close>.

  \<^bold>\<open>Parameters and their hypotheses.\<close> The concurrent map of \<open>dashmap\<close> (locale \<open>key_map\<close>, and in Memory_Concurrent
  the shard of each key and the number of shards), the kernel of io_uring
  (\<^const>\<open>lawful_kernel\<close>: completions are of entries in flight, at most their length, moved as the documentation
  says; \<^const>\<open>healthy_kernel\<close>: no error and progress;
  \<^const>\<open>never_missing\<close>: an open file is not reported missing), the length the file system reports for a directory (\<^const>\<open>dir_len\<close>: where it
  is 0, get of a key that names a directory is \<open>Ok\<close> with no bytes in \<open>IoUringStore\<close> and an error in \<open>LocalStore\<close>;
  \<open>ring_matches_local\<close> states both cases, and only the properties of concurrent tasks take it to be non-zero), the S3
  client (\<^const>\<open>s3_lawful\<close>: an object that is not there, and only that, is reported by status 404 or one of its codes,
  \<^const>\<open>absence_reported\<close>), the object_store client and
  path parser (\<^const>\<open>os_lawful\<close>, \<^const>\<open>parse_lawful\<close>), the loader of the AWS settings, the two builders, the hash
  functions and the content-type guesser. Each hypothesis has an instance that a witness uses.

  \<^bold>\<open>Bounds and termination.\<close> The directory walk is a total function, its measure the number of nodes on the stack.
  The ring loop is a partial function whose value \<open>None\<close> is not returning; \<open>ring_terminates\<close> shows that it
  returns under every lawful kernel, since every completion moves a byte or ends the loop. No fuel is used.

  \<^bold>\<open>Modelling decisions.\<close> The name of a temporary file is the one of tempfile's last attempt, an argument of the
  call. In Local_Store and Ring_Store the tree changes only by the call being modelled; Shared_Tree lets other
  operations of both stores run between any two system calls, but not other programs. A power failure may undo any change of a
  directory, since none is synced, and may leave anything in a file that was not synced. Writing the payload, and
  reading a file once it is open, are single steps (two for a get of the ring store: opening, then reading). In Object_Backend the service may change between the check
  and the deletion. Symbolic links and permissions other than as faults are left out.

  \<^bold>\<open>Not modelled.\<close> \<open>lib.rs\<close> (module declarations and re-exports), the generators of random bits, benchmarks, the
  tests that need a live service, count allocations, take a URL made by the AWS SDK or the url crate apart or
  check published vectors of SHA-256; the mutex build of the memory store beside a thread that panics (its lock is
  poisoned or not throughout a session); what the entries still in flight after a failed ring transfer do to the
  removed temporary file.
\<close>

end
